(* ===== verification/Go_Prelude.thy ===== *)
theory Go_Prelude
  imports Main "HOL-Library.Word"
begin

text \<open>
  Shared vocabulary of the development.

  The first part models the pieces of the Go language and of its standard library that every
  component uses: byte strings, decimal and hexadecimal printing, slices that may be nil,
  \<open>range\<close> over a map, and the error values of \<open>errors\<close> and \<open>fmt\<close>.
  The second part holds the interfaces (locales) that several components share: state machines with an
  invariant, simulations between them, state machines with a rank that bounds the steps of one participant, and the loops that scan a list
  for a duplicate key.
\<close>

section \<open>Collections of facts\<close>

named_theorems result_defs \<open>definitions of the combinators on error results\<close>
named_theorems scan_None \<open>when a validating loop reports no error\<close>

section \<open>Decimal and hexadecimal printing\<close>

definition digit_char :: "nat \<Rightarrow> char" where
  "digit_char n = char_of (48 + n)"

text \<open>The verb \<open>%d\<close> on a natural number.\<close>

fun dec_nat :: "nat \<Rightarrow> string" where
  "dec_nat n = (if n < 10 then [digit_char n] else dec_nat (n div 10) @ [digit_char (n mod 10)])"

declare dec_nat.simps [simp del]

definition dec_int :: "int \<Rightarrow> string" where
  "dec_int i = (if i < 0 then CHR ''-'' # dec_nat (nat (- i)) else dec_nat (nat i))"

definition is_digit :: "char \<Rightarrow> bool" where
  "is_digit c \<longleftrightarrow> 48 \<le> (of_char c :: nat) \<and> (of_char c :: nat) \<le> 57"

definition digit_val :: "char \<Rightarrow> nat" where
  "digit_val c = of_char c - 48"

definition dec_val :: "string \<Rightarrow> nat" where
  "dec_val s = foldl (\<lambda>acc c. 10 * acc + digit_val c) 0 s"

lemma of_char_digit_char [simp]: "n < 10 \<Longrightarrow> (of_char (digit_char n) :: nat) = 48 + n"
  by (simp add: digit_char_def)

lemma digit_val_digit_char [simp]: "n < 10 \<Longrightarrow> digit_val (digit_char n) = n"
  by (simp add: digit_val_def)

lemma is_digit_digit_char [simp]: "n < 10 \<Longrightarrow> is_digit (digit_char n)"
  by (simp add: is_digit_def)

lemma dec_nat_nonempty [simp]: "dec_nat n \<noteq> []"
  by (subst dec_nat.simps) simp

lemma dec_nat_digits: "c \<in> set (dec_nat n) \<Longrightarrow> is_digit c"
proof (induction n rule: dec_nat.induct)
  case (1 n)
  then show ?case by (subst (asm) (2) dec_nat.simps) (auto split: if_splits)
qed

lemma dec_val_append [simp]: "dec_val (s @ [c]) = 10 * dec_val s + digit_val c"
  by (simp add: dec_val_def)

lemma dec_val_dec_nat [simp]: "dec_val (dec_nat n) = n"
proof (induction n rule: dec_nat.induct)
  case (1 n)
  show ?case
  proof (cases "n < 10")
    case True
    then show ?thesis by (subst dec_nat.simps) (simp add: dec_val_def)
  next
    case False
    with 1 show ?thesis by (subst dec_nat.simps) simp
  qed
qed

lemma dec_nat_inject [simp]: "dec_nat m = dec_nat n \<longleftrightarrow> m = n"
  by (metis dec_val_dec_nat)

text \<open>\<open>hex.EncodeToString\<close>: two lower-case digits per byte.\<close>

definition hex_digit :: "nat \<Rightarrow> char" where
  "hex_digit n = (if n < 10 then char_of (48 + n) else char_of (87 + n))"

definition hex_val :: "char \<Rightarrow> nat" where
  "hex_val c = (if (of_char c :: nat) < 58 then of_char c - 48 else of_char c - 87)"

fun hex_encode :: "8 word list \<Rightarrow> string" where
  "hex_encode [] = []"
| "hex_encode (b # bs) = hex_digit (unat b div 16) # hex_digit (unat b mod 16) # hex_encode bs"

lemma hex_val_hex_digit [simp]: "n < 16 \<Longrightarrow> hex_val (hex_digit n) = n"
  by (simp add: hex_val_def hex_digit_def)

lemma hex_digit_inject: "m < 16 \<Longrightarrow> n < 16 \<Longrightarrow> hex_digit m = hex_digit n \<longleftrightarrow> m = n"
  by (metis hex_val_hex_digit)

lemma unat_byte_bound [simp]: "unat (b :: 8 word) < 256"
  using unsigned_less [of b] by simp

lemma hex_byte_inject:
  fixes b c :: "8 word"
  shows "hex_digit (unat b div 16) = hex_digit (unat c div 16) \<and>
    hex_digit (unat b mod 16) = hex_digit (unat c mod 16) \<longleftrightarrow> b = c"
proof -
  have "unat b div 16 < 16" "unat c div 16 < 16"
    using unat_byte_bound [of b] unat_byte_bound [of c] by linarith+
  then show ?thesis
    by (metis hex_digit_inject mod_less_divisor zero_less_numeral div_mult_mod_eq word_unat_eq_iff)
qed

lemma hex_encode_inject: "hex_encode bs = hex_encode cs \<longleftrightarrow> bs = cs"
proof (induction bs arbitrary: cs)
  case Nil
  then show ?case by (cases cs) auto
next
  case (Cons b bs)
  then show ?case by (cases cs) (auto simp: hex_byte_inject [symmetric])
qed

lemma length_hex_encode [simp]: "length (hex_encode bs) = 2 * length bs"
  by (induction bs) auto

lemma hex_encode_no_l: "CHR ''l'' \<notin> set (hex_encode bs)"
proof (induction bs)
  case (Cons b bs)
  have "hex_digit n \<noteq> CHR ''l''" if "n < 16" for n
  proof -
    have "of_char (hex_digit n) \<noteq> (of_char (CHR ''l'') :: nat)"
      using that by (auto simp: hex_digit_def)
    then show ?thesis by metis
  qed
  moreover have "unat b div 16 < 16" using unat_byte_bound [of b] by linarith
  ultimately show ?case using Cons by (metis hex_encode.simps(2) mod_less_divisor set_ConsD zero_less_numeral)
qed simp

section \<open>Slices and maps\<close>

text \<open>
  A Go slice that the code compares with nil is an optional list, \<^const>\<open>None\<close> for nil.
  A Go map is a partial function; \<open>range\<close> over it visits the keys in an unspecified order, so a
  loop over a map takes the order as an argument, any enumeration of the domain.
\<close>

type_synonym 'a slice = "'a list option"
type_synonym 'v gomap = "string \<rightharpoonup> 'v"

definition elems :: "'a slice \<Rightarrow> 'a list" where
  "elems s = (case s of None \<Rightarrow> [] | Some xs \<Rightarrow> xs)"

lemma elems_simps [simp]: "elems None = []" "elems (Some xs) = xs"
  by (simp_all add: elems_def)

definition range_order :: "string list \<Rightarrow> 'v gomap \<Rightarrow> bool" where
  "range_order ks m \<longleftrightarrow> distinct ks \<and> set ks = dom m"

text \<open>\<open>strings.Join\<close>.\<close>

fun join_with :: "string \<Rightarrow> string list \<Rightarrow> string" where
  "join_with sep [] = []"
| "join_with sep [x] = x"
| "join_with sep (x # y # xs) = x @ sep @ join_with sep (y # xs)"

section \<open>Errors\<close>

text \<open>
  An error value is kept as the call that built it. \<open>Errorf\<close> and \<open>Wrapf\<close> are \<open>fmt.Errorf\<close> (and
  \<open>errors.New\<close>) without and with the verb \<open>%w\<close>: the format is the list of its literal parts and of
  its verbs with their arguments, so no information of the message is lost and the rendering of
  \<open>%q\<close> and \<open>%v\<close> stays a parameter. \<open>OpaqueError\<close> is any other error with the given text: one made by author code or
  by a library.
\<close>

datatype grpc_code = Code_OK | Code_Canceled | Code_Unimplemented | Code_Other nat

datatype fmt_arg = Lit string | Verb_s string | Verb_q string | Verb_d int | Verb_v string

datatype sentinel = ErrDenied | ErrHostUnsupported | ErrPermissionsClosed
  | EOF | DeadlineExceeded | Canceled

datatype go_error =
    Errorf "fmt_arg list"
  | Wrapf "fmt_arg list" go_error "fmt_arg list"
  | Sentinel sentinel
  | ToolCallError string
  | StatusError grpc_code string
  | OpaqueError string

type_synonym 'a result = "go_error + 'a"

abbreviation Err :: "go_error \<Rightarrow> 'a result" where "Err e \<equiv> Inl e"
abbreviation Ok :: "'a \<Rightarrow> 'a result" where "Ok x \<equiv> Inr x"

definition bind_result :: "'a result \<Rightarrow> ('a \<Rightarrow> 'b result) \<Rightarrow> 'b result" where
  [result_defs]: "bind_result r f = (case r of Inl e \<Rightarrow> Inl e | Inr x \<Rightarrow> f x)"

lemma bind_result_simps [simp]:
  "bind_result (Inl e) f = Inl e" "bind_result (Inr x) f = f x"
  by (simp_all add: bind_result_def)

definition wrap_err :: "fmt_arg list \<Rightarrow> 'a result \<Rightarrow> 'a result" where
  [result_defs]: "wrap_err pre r = (case r of Inl e \<Rightarrow> Inl (Wrapf pre e []) | Inr x \<Rightarrow> Inr x)"

lemma wrap_err_simps [simp]:
  "wrap_err pre (Inl e) = Inl (Wrapf pre e [])" "wrap_err pre (Inr x) = Inr x"
  by (simp_all add: wrap_err_def)

text \<open>Rendering of a message; the verbs the model does not define are parameters.\<close>

record text_env =
  quote_text :: "string \<Rightarrow> string"
  status_text :: "grpc_code \<Rightarrow> string \<Rightarrow> string"

fun arg_text :: "text_env \<Rightarrow> fmt_arg \<Rightarrow> string" where
  "arg_text env (Lit s) = s"
| "arg_text env (Verb_s s) = s"
| "arg_text env (Verb_v s) = s"
| "arg_text env (Verb_q s) = quote_text env s"
| "arg_text env (Verb_d i) = dec_int i"

definition args_text :: "text_env \<Rightarrow> fmt_arg list \<Rightarrow> string" where
  "args_text env as = concat (map (arg_text env) as)"

section \<open>State machines with an invariant\<close>

locale invariant_system =
  fixes init :: 's
    and step :: "'s \<Rightarrow> 's \<Rightarrow> bool"
    and inv :: "'s \<Rightarrow> bool"
  assumes inv_init: "inv init"
    and inv_step: "inv s \<Longrightarrow> step s t \<Longrightarrow> inv t"
begin

lemma reachable_inv: "step\<^sup>*\<^sup>* init s \<Longrightarrow> inv s"
  by (induction rule: rtranclp_induct) (auto intro: inv_init inv_step)

end

text \<open>
  A detailed machine simulates an abstract one: an abstraction of its states, and every step of a state that has
  the invariant is a step of the abstract machine or is not seen there.
\<close>

locale simulation = invariant_system init step inv
  for init :: 's and step :: "'s \<Rightarrow> 's \<Rightarrow> bool" and inv :: "'s \<Rightarrow> bool" +
  fixes abs :: "'s \<Rightarrow> 't"
    and abs_step :: "'t \<Rightarrow> 't \<Rightarrow> bool"
  assumes step_sim: "inv s \<Longrightarrow> step s t \<Longrightarrow> abs_step (abs s) (abs t) \<or> abs t = abs s"
begin

lemma reachable_sim: "step\<^sup>*\<^sup>* init s \<Longrightarrow> abs_step\<^sup>*\<^sup>* (abs init) (abs s)"
proof (induction rule: rtranclp_induct)
  case base
  show ?case by simp
next
  case (step s t)
  from step_sim [OF reachable_inv [OF step.hyps(1)] step.hyps(2)] step.IH show ?case
    by (metis rtranclp.rtrancl_into_rtrancl)
qed

end

section \<open>State machines that cannot run forever\<close>

text \<open>
  A machine whose steps carry a label. Some labels belong to one participant, and each of its steps
  lowers a rank that no other step changes: the participant takes finitely many steps in any execution, and one
  that is scheduled as long as it is not final becomes final and stays so.
\<close>

definition execution :: "('s \<Rightarrow> 'a \<Rightarrow> 's option) \<Rightarrow> (nat \<Rightarrow> 's) \<Rightarrow> (nat \<Rightarrow> 'a) \<Rightarrow> bool" where
  "execution step \<sigma> \<alpha> \<longleftrightarrow> (\<forall>n. step (\<sigma> n) (\<alpha> n) = Some (\<sigma> (Suc n)))"

lemma executionD: "execution step \<sigma> \<alpha> \<Longrightarrow> step (\<sigma> n) (\<alpha> n) = Some (\<sigma> (Suc n))"
  by (simp add: execution_def)

lemma execution_keeps:
  assumes "execution step \<sigma> \<alpha>" "P (\<sigma> n)" "n \<le> m"
    and "\<And>k. n \<le> k \<Longrightarrow> k < m \<Longrightarrow> P (\<sigma> k) \<Longrightarrow> step (\<sigma> k) (\<alpha> k) = Some (\<sigma> (Suc k)) \<Longrightarrow> P (\<sigma> (Suc k))"
  shows "P (\<sigma> m)"
  using assms(3,4)
proof (induction m rule: dec_induct)
  case base
  show ?case by (rule assms(2))
next
  case (step k)
  then show ?case using executionD [OF assms(1)] by (metis less_Suc_eq)
qed

locale ranked_system =
  fixes step :: "'s \<Rightarrow> 'a \<Rightarrow> 's option"
    and own :: "'a \<Rightarrow> bool"
    and rank :: "'s \<Rightarrow> 'r"
    and below :: "('r \<times> 'r) set"
  assumes wf_below: "wf below"
    and own_step: "step s a = Some t \<Longrightarrow> own a \<Longrightarrow> (rank t, rank s) \<in> below"
    and other_step: "step s a = Some t \<Longrightarrow> \<not> own a \<Longrightarrow> rank t = rank s"
begin

lemma own_steps_end:
  assumes "execution step \<sigma> \<alpha>"
  shows "\<exists>N. \<forall>m \<ge> N. \<not> own (\<alpha> m)"
proof -
  have "\<exists>N. \<forall>m \<ge> N. \<not> own (\<alpha> m)" if "rank (\<sigma> n) = r" for n r
    using that
  proof (induction r arbitrary: n rule: wf_induct_rule [OF wf_below])
    case (1 r)
    show ?case
    proof (cases "\<exists>m \<ge> n. own (\<alpha> m)")
      case True
      define m where "m = (LEAST m. m \<ge> n \<and> own (\<alpha> m))"
      have m: "m \<ge> n" "own (\<alpha> m)" using True LeastI_ex [of "\<lambda>m. m \<ge> n \<and> own (\<alpha> m)"] by (auto simp: m_def)
      have before: "\<not> own (\<alpha> k)" if "n \<le> k" "k < m" for k
        using that not_less_Least [of k "\<lambda>m. m \<ge> n \<and> own (\<alpha> m)"] by (auto simp: m_def)
      have "rank (\<sigma> m) = r"
        by (rule execution_keeps [OF assms, where P = "\<lambda>s. rank s = r", OF 1(2) m(1)]) (use before other_step in auto)
      with own_step [OF executionD [OF assms] m(2)] have "(rank (\<sigma> (Suc m)), r) \<in> below" by simp
      from 1(1) [OF this refl] show ?thesis .
    qed blast
  qed
  then show ?thesis by blast
qed

lemma scheduled_becomes_final:
  assumes "execution step \<sigma> \<alpha>" "\<And>n. \<not> final (\<sigma> n) \<Longrightarrow> \<exists>m \<ge> n. own (\<alpha> m)"
  shows "\<exists>N. \<forall>m \<ge> N. final (\<sigma> m)"
  using own_steps_end [OF assms(1)] assms(2) by (meson order_trans)

end

text \<open>With a rank in the natural numbers the rank bounds the number of steps.\<close>

fun run_steps :: "('s \<Rightarrow> 'a \<Rightarrow> 's option) \<Rightarrow> 's \<Rightarrow> 'a list \<Rightarrow> 's option" where
  "run_steps step s [] = Some s"
| "run_steps step s (a # as) = Option.bind (step s a) (\<lambda>t. run_steps step t as)"

lemma run_steps_reach:
  assumes "run_steps step s as = Some t" "\<And>s a t. step s a = Some t \<Longrightarrow> R s t"
  shows "R\<^sup>*\<^sup>* s t"
  using assms(1)
proof (induction as arbitrary: s)
  case Nil
  then show ?case by simp
next
  case (Cons a as)
  then obtain u where "step s a = Some u" "run_steps step u as = Some t" by (auto split: Option.bind_splits)
  with Cons.IH assms(2) show ?case by (meson converse_rtranclp_into_rtranclp)
qed

lemma execution_from: "execution step \<sigma> \<alpha> \<Longrightarrow> execution step (\<lambda>n. \<sigma> (N + n)) (\<lambda>n. \<alpha> (N + n))"
  by (simp add: execution_def)

lemma execution_prefix:
  assumes "execution step \<sigma> \<alpha>"
  shows "run_steps step (\<sigma> n) (map \<alpha> [n..<n + k]) = Some (\<sigma> (n + k))"
proof (induction k arbitrary: n)
  case 0
  then show ?case by simp
next
  case (Suc k)
  with Suc.IH [of "Suc n"] executionD [OF assms, of n] show ?case by (simp add: upt_conv_Cons del: upt_Suc)
qed

locale counted_system = ranked_system step own rank less_than
  for step :: "'s \<Rightarrow> 'a \<Rightarrow> 's option" and own :: "'a \<Rightarrow> bool" and rank :: "'s \<Rightarrow> nat"
begin

lemma own_steps_bounded:
  "run_steps step s as = Some t \<Longrightarrow> length (filter own as) + rank t \<le> rank s"
proof (induction as arbitrary: s)
  case Nil
  then show ?case by simp
next
  case (Cons a as)
  then obtain u where "step s a = Some u" "run_steps step u as = Some t" by (auto split: Option.bind_splits)
  with Cons.IH [of u] own_step [of s a u] other_step [of s a u] show ?case by auto
qed

end

section \<open>Scans for duplicate keys\<close>

text \<open>
  The loops of the spec validation share one shape: walk a list with a set of the keys seen so far,
  stop with an error at the first repeated key, then at the first element that is bad on its own.
\<close>

locale keyed_scan =
  fixes scan :: "string set \<Rightarrow> 'a list \<Rightarrow> 'e option"
    and key :: "'a \<Rightarrow> string"
    and bad :: "'a \<Rightarrow> bool"
    and dup_err :: "'a \<Rightarrow> 'e"
    and bad_err :: "'a \<Rightarrow> 'e"
  assumes scan_Nil: "scan seen [] = None"
    and scan_Cons: "scan seen (x # xs) =
      (if key x \<in> seen then Some (dup_err x)
       else if bad x then Some (bad_err x)
       else scan (insert (key x) seen) xs)"
begin

lemma scan_None_iff:
  "scan seen xs = None \<longleftrightarrow>
     distinct (map key xs) \<and> key ` set xs \<inter> seen = {} \<and> (\<forall>x \<in> set xs. \<not> bad x)"
  by (induction xs arbitrary: seen) (auto simp: scan_Nil scan_Cons)

lemma scan_fresh_None_iff:
  "scan {} xs = None \<longleftrightarrow> distinct (map key xs) \<and> (\<forall>x \<in> set xs. \<not> bad x)"
  by (simp add: scan_None_iff)

text \<open>The error names the first element that is refused: everything before it is accepted.\<close>

lemma scan_first_error:
  assumes "scan seen xs = Some e"
  shows "\<exists>us x vs. xs = us @ x # vs \<and> scan seen us = None \<and>
    (if key x \<in> seen \<union> key ` set us then e = dup_err x else bad x \<and> e = bad_err x)"
  using assms
proof (induction xs arbitrary: seen)
  case Nil
  then show ?case by (simp add: scan_Nil)
next
  case (Cons y ys)
  show ?case
  proof (cases "key y \<in> seen \<or> bad y")
    case True
    with Cons.prems have
      "y # ys = [] @ y # ys \<and> scan seen [] = None \<and>
       (if key y \<in> seen \<union> key ` set [] then e = dup_err y else bad y \<and> e = bad_err y)"
      by (auto simp: scan_Nil scan_Cons split: if_splits)
    then show ?thesis by blast
  next
    case False
    with Cons.prems have "scan (insert (key y) seen) ys = Some e"
      by (simp add: scan_Cons)
    then obtain us x vs where ys: "ys = us @ x # vs"
      and us: "scan (insert (key y) seen) us = None"
      and x: "if key x \<in> insert (key y) seen \<union> key ` set us then e = dup_err x else bad x \<and> e = bad_err x"
      using Cons.IH by blast
    from us False have "scan seen (y # us) = None" by (simp add: scan_Cons)
    moreover from x have
      "if key x \<in> seen \<union> key ` set (y # us) then e = dup_err x else bad x \<and> e = bad_err x"
      by (auto split: if_splits)
    ultimately show ?thesis using ys by (intro exI [of _ "y # us"]) fastforce
  qed
qed

end

end
