(* ===== verification/Go_JSON.thy ===== *)
theory Go_JSON
  imports Go_Prelude
begin

text \<open>
  The part of Go's \<open>encoding/json\<close> the repository uses, on byte strings: quoting and printing of
  values (compact, as \<open>json.Marshal\<close>, and indented, as an \<open>Encoder\<close> with \<open>SetIndent\<close>), the scanner and the
  decoder. A decoded number keeps its literal, which determines the \<open>float64\<close> Go computes from it;
  a literal outside the range of \<open>float64\<close> is refused as Go refuses it.
\<close>

section \<open>Values\<close>

text \<open>
  A value of type \<open>any\<close> as the repository handles it: the JSON shapes, and \<open>GOpaque\<close> for a value
  of any other Go type.
\<close>

datatype gval =
    GNil
  | GBool bool
  | GNum string
  | GStr string
  | GList "gval list"
  | GMap "(string \<times> gval) list"
  | GOpaque nat

type_synonym gobj = "(string \<times> gval) list"

abbreviation ord8 :: "char \<Rightarrow> nat" where "ord8 c \<equiv> of_char c"
abbreviation backslash :: char where "backslash \<equiv> CHR 0x5C"
abbreviation dquote :: char where "dquote \<equiv> CHR 0x22"

section \<open>UTF-8\<close>

definition is_cont :: "char \<Rightarrow> bool" where
  "is_cont c \<longleftrightarrow> 128 \<le> ord8 c \<and> ord8 c \<le> 191"

text \<open>The width of the valid encoding the string starts with, 0 if there is none (\<open>utf8.DecodeRune\<close>).\<close>

definition rune_len :: "string \<Rightarrow> nat" where
  "rune_len s = (case s of [] \<Rightarrow> 0 | c # cs \<Rightarrow>
     (let b = ord8 c in
      if b < 128 then 1
      else if 194 \<le> b \<and> b \<le> 223 then
        (case cs of c1 # _ \<Rightarrow> if is_cont c1 then 2 else 0 | _ \<Rightarrow> 0)
      else if 224 \<le> b \<and> b \<le> 239 then
        (case cs of c1 # c2 # _ \<Rightarrow>
           if is_cont c1 \<and> (b = 224 \<longrightarrow> 160 \<le> ord8 c1) \<and> (b = 237 \<longrightarrow> ord8 c1 \<le> 159) \<and> is_cont c2
           then 3 else 0
         | _ \<Rightarrow> 0)
      else if 240 \<le> b \<and> b \<le> 244 then
        (case cs of c1 # c2 # c3 # _ \<Rightarrow>
           if is_cont c1 \<and> (b = 240 \<longrightarrow> 144 \<le> ord8 c1) \<and> (b = 244 \<longrightarrow> ord8 c1 \<le> 143)
              \<and> is_cont c2 \<and> is_cont c3
           then 4 else 0
         | _ \<Rightarrow> 0)
      else 0))"

definition utf8_encode :: "nat \<Rightarrow> string" where
  "utf8_encode n =
     (if n < 128 then [char_of n]
      else if n < 2048 then [char_of (192 + n div 64), char_of (128 + n mod 64)]
      else if n < 65536 then
        [char_of (224 + n div 4096), char_of (128 + n div 64 mod 64), char_of (128 + n mod 64)]
      else
        [char_of (240 + n div 262144), char_of (128 + n div 4096 mod 64),
         char_of (128 + n div 64 mod 64), char_of (128 + n mod 64)])"

definition replacement :: string where
  "replacement = [CHR 0xEF, CHR 0xBF, CHR 0xBD]"

section \<open>Printing\<close>

definition hex2 :: "nat \<Rightarrow> string" where
  "hex2 n = [hex_digit (n div 16), hex_digit (n mod 16)]"

definition escape_ascii :: "char \<Rightarrow> string" where
  "escape_ascii c =
     (let b = ord8 c in
      if c = dquote \<or> c = backslash then [backslash, c]
      else if b = 8 then [backslash, CHR ''b'']
      else if b = 12 then [backslash, CHR ''f'']
      else if b = 10 then [backslash, CHR ''n'']
      else if b = 13 then [backslash, CHR ''r'']
      else if b = 9 then [backslash, CHR ''t'']
      else if b < 32 \<or> c = CHR ''<'' \<or> c = CHR ''>'' \<or> c = CHR ''&''
        then backslash # ''u00'' @ hex2 b
      else [c])"

function json_escape :: "string \<Rightarrow> string" where
  "json_escape [] = []"
| "json_escape (c # cs) =
     (if ord8 c < 128 then escape_ascii c @ json_escape cs
      else let n = rune_len (c # cs) in
        if n = 0 then backslash # ''ufffd'' @ json_escape cs
        else if take 3 (c # cs) = [CHR 0xE2, CHR 0x80, CHR 0xA8]
          then backslash # ''u2028'' @ json_escape (drop (n - 1) cs)
        else if take 3 (c # cs) = [CHR 0xE2, CHR 0x80, CHR 0xA9]
          then backslash # ''u2029'' @ json_escape (drop (n - 1) cs)
        else c # take (n - 1) cs @ json_escape (drop (n - 1) cs))"
  by pat_completeness auto
termination
  by (relation "measure length") auto

definition json_quote :: "string \<Rightarrow> string" where
  "json_quote s = dquote # json_escape s @ [dquote]"

fun sep_concat :: "string \<Rightarrow> string list \<Rightarrow> string" where
  "sep_concat sep [] = []"
| "sep_concat sep [s] = s"
| "sep_concat sep (s # ss) = s @ sep @ sep_concat sep ss"

text \<open>The compact form of \<open>json.Marshal\<close>; an opaque value has no JSON form.\<close>

fun json_print :: "gval \<Rightarrow> string" where
  "json_print GNil = ''null''"
| "json_print (GBool b) = (if b then ''true'' else ''false'')"
| "json_print (GNum n) = n"
| "json_print (GStr s) = json_quote s"
| "json_print (GList vs) = ''['' @ sep_concat '','' (map json_print vs) @ '']''"
| "json_print (GMap kvs) =
     ''{'' @ sep_concat '','' (map (\<lambda>(k, v). json_quote k @ '':'' @ json_print v) kvs) @ ''}''"
| "json_print (GOpaque n) = []"

text \<open>The form of an \<open>Encoder\<close> after \<open>SetIndent("", "  ")\<close>: empty composites stay on one line.\<close>

definition newline_indent :: "nat \<Rightarrow> string" where
  "newline_indent d = CHR 0x0A # replicate (2 * d) CHR 0x20"

fun json_indent :: "nat \<Rightarrow> gval \<Rightarrow> string" where
  "json_indent d (GList vs) =
     (if vs = [] then ''[]''
      else ''['' @ newline_indent (Suc d) @
        sep_concat ('','' @ newline_indent (Suc d)) (map (json_indent (Suc d)) vs) @
        newline_indent d @ '']'')"
| "json_indent d (GMap kvs) =
     (if kvs = [] then ''{}''
      else ''{'' @ newline_indent (Suc d) @
        sep_concat ('','' @ newline_indent (Suc d))
          (map (\<lambda>(k, v). json_quote k @ '': '' @ json_indent (Suc d) v) kvs) @
        newline_indent d @ ''}'')"
| "json_indent d v = json_print v"

section \<open>Scanning\<close>

datatype token = TLBrace | TRBrace | TLBrack | TRBrack | TColon | TComma
  | TStr string | TNum string | TTrue | TFalse | TNull

definition is_space :: "char \<Rightarrow> bool" where
  "is_space c \<longleftrightarrow> ord8 c = 32 \<or> ord8 c = 9 \<or> ord8 c = 13 \<or> ord8 c = 10"

definition is_num_char :: "char \<Rightarrow> bool" where
  "is_num_char c \<longleftrightarrow> is_digit c \<or> c \<in> set ''+-.eE''"

definition is_lower :: "char \<Rightarrow> bool" where
  "is_lower c \<longleftrightarrow> 97 \<le> ord8 c \<and> ord8 c \<le> 122"

definition is_hex :: "char \<Rightarrow> bool" where
  "is_hex c \<longleftrightarrow> is_digit c \<or> 97 \<le> ord8 c \<and> ord8 c \<le> 102 \<or> 65 \<le> ord8 c \<and> ord8 c \<le> 70"

definition hex_num :: "char \<Rightarrow> nat" where
  "hex_num c = (if is_digit c then ord8 c - 48 else if 97 \<le> ord8 c then ord8 c - 87 else ord8 c - 55)"

definition digits_prefix :: "string \<Rightarrow> string \<times> string" where
  "digits_prefix s = (takeWhile is_digit s, dropWhile is_digit s)"

text \<open>The JSON number grammar: an optional sign, an integer with no leading zero, a fraction, an exponent.\<close>

definition exp_ok :: "string \<Rightarrow> bool" where
  "exp_ok s = (case s of [] \<Rightarrow> True | c # cs \<Rightarrow>
     (c = CHR ''e'' \<or> c = CHR ''E'') \<and>
     (let ds = (case cs of [] \<Rightarrow> [] | d # ds' \<Rightarrow> if d = CHR ''+'' \<or> d = CHR ''-'' then ds' else d # ds')
      in ds \<noteq> [] \<and> list_all is_digit ds))"

definition frac_ok :: "string \<Rightarrow> bool" where
  "frac_ok s = (case s of [] \<Rightarrow> True | c # cs \<Rightarrow>
     if c = CHR ''.'' then
       (let (ds, rest) = digits_prefix cs in ds \<noteq> [] \<and> exp_ok rest)
     else exp_ok s)"

definition number_ok :: "string \<Rightarrow> bool" where
  "number_ok s =
     (let t = (case s of [] \<Rightarrow> [] | c # cs \<Rightarrow> if c = CHR ''-'' then cs else s);
          (ds, rest) = digits_prefix t
      in ds \<noteq> [] \<and> (hd ds = CHR ''0'' \<longrightarrow> length ds = 1) \<and> frac_ok rest)"

definition word_token :: "string \<Rightarrow> token option" where
  "word_token w =
     (if w = ''true'' then Some TTrue else if w = ''false'' then Some TFalse
      else if w = ''null'' then Some TNull else None)"

definition num_token :: "string \<Rightarrow> token option" where
  "num_token w = (if number_ok w then Some (TNum w) else None)"

text \<open>
  The scanner reads one byte at a time. Its state is the token under way: the raw bytes of a string
  literal (and, inside an escape, how many hexadecimal digits are still due), of a number or of a word.
\<close>

datatype lex_state = LStart | LStr string | LEsc string | LHex nat string | LNum string | LWord string

section \<open>String literals\<close>

definition simple_escape :: "char \<Rightarrow> char" where
  "simple_escape c =
     (if c = CHR ''b'' then CHR 0x08 else if c = CHR ''f'' then CHR 0x0C
      else if c = CHR ''n'' then CHR 0x0A else if c = CHR ''r'' then CHR 0x0D
      else if c = CHR ''t'' then CHR 0x09 else c)"

definition hex4 :: "string \<Rightarrow> nat" where
  "hex4 s = foldl (\<lambda>acc c. 16 * acc + hex_num c) 0 (take 4 s)"

definition is_surrogate :: "nat \<Rightarrow> bool" where
  "is_surrogate n \<longleftrightarrow> 55296 \<le> n \<and> n \<le> 57343"

text \<open>A surrogate pair is one code point; a lone surrogate is replaced (\<open>utf16.DecodeRune\<close>).\<close>

definition surrogate_pair :: "nat \<Rightarrow> nat \<Rightarrow> nat option" where
  "surrogate_pair a b =
     (if 55296 \<le> a \<and> a < 56320 \<and> 56320 \<le> b \<and> b < 57344
      then Some (65536 + (a - 55296) * 1024 + (b - 56320)) else None)"

text \<open>The bytes a scanned literal stands for; invalid UTF-8 becomes the replacement character.\<close>

function json_unquote :: "string \<Rightarrow> string" where
  "json_unquote [] = []"
| "json_unquote (c # cs) =
     (if c = backslash then
        (case cs of
           [] \<Rightarrow> []
         | e # rest \<Rightarrow>
             if e = CHR ''u'' then
               (let a = hex4 rest; rest' = drop 4 rest in
                if is_surrogate a then
                  (case (if take 2 rest' = [backslash, CHR ''u''] then surrogate_pair a (hex4 (drop 2 rest')) else None) of
                     Some r \<Rightarrow> utf8_encode r @ json_unquote (drop 6 rest')
                   | None \<Rightarrow> replacement @ json_unquote rest')
                else utf8_encode a @ json_unquote rest')
             else simple_escape e # json_unquote rest)
      else if ord8 c < 128 then c # json_unquote cs
      else let n = rune_len (c # cs) in
        if n = 0 then replacement @ json_unquote cs
        else c # take (n - 1) cs @ json_unquote (drop (n - 1) cs))"
  by pat_completeness auto
termination
  by (relation "measure length") auto

definition lex_start :: "char \<Rightarrow> (token list \<times> lex_state) option" where
  "lex_start c =
     (if is_space c then Some ([], LStart)
      else if c = CHR ''{'' then Some ([TLBrace], LStart)
      else if c = CHR ''}'' then Some ([TRBrace], LStart)
      else if c = CHR ''['' then Some ([TLBrack], LStart)
      else if c = CHR '']'' then Some ([TRBrack], LStart)
      else if c = CHR '':'' then Some ([TColon], LStart)
      else if c = CHR '','' then Some ([TComma], LStart)
      else if c = dquote then Some ([], LStr [])
      else if is_digit c \<or> c = CHR ''-'' then Some ([], LNum [c])
      else if is_lower c then Some ([], LWord [c])
      else None)"

definition lex_step :: "lex_state \<Rightarrow> char \<Rightarrow> (token list \<times> lex_state) option" where
  "lex_step st c =
     (case st of
        LStart \<Rightarrow> lex_start c
      | LStr raw \<Rightarrow>
          if c = dquote then Some ([TStr (json_unquote raw)], LStart)
          else if c = backslash then Some ([], LEsc (raw @ [c]))
          else if ord8 c < 32 then None
          else Some ([], LStr (raw @ [c]))
      | LEsc raw \<Rightarrow>
          if c = CHR ''u'' then Some ([], LHex 4 (raw @ [c]))
          else if c \<in> set ''bfnrt/'' \<or> c = dquote \<or> c = backslash then Some ([], LStr (raw @ [c]))
          else None
      | LHex k raw \<Rightarrow>
          if is_hex c then Some ([], if k = 1 then LStr (raw @ [c]) else LHex (k - 1) (raw @ [c]))
          else None
      | LNum w \<Rightarrow>
          if is_num_char c then Some ([], LNum (w @ [c]))
          else (case (num_token w, lex_start c) of
                  (Some t, Some (ts, st')) \<Rightarrow> Some (t # ts, st') | _ \<Rightarrow> None)
      | LWord w \<Rightarrow>
          if is_lower c then Some ([], LWord (w @ [c]))
          else (case (word_token w, lex_start c) of
                  (Some t, Some (ts, st')) \<Rightarrow> Some (t # ts, st') | _ \<Rightarrow> None))"

definition lex_end :: "lex_state \<Rightarrow> token list option" where
  "lex_end st =
     (case st of
        LStart \<Rightarrow> Some []
      | LNum w \<Rightarrow> map_option (\<lambda>t. [t]) (num_token w)
      | LWord w \<Rightarrow> map_option (\<lambda>t. [t]) (word_token w)
      | _ \<Rightarrow> None)"

fun lex :: "lex_state \<Rightarrow> string \<Rightarrow> token list option" where
  "lex st [] = lex_end st"
| "lex st (c # cs) =
     (case lex_step st c of None \<Rightarrow> None
      | Some (ts, st') \<Rightarrow> map_option (\<lambda>us. ts @ us) (lex st' cs))"

section \<open>Parsing\<close>

text \<open>
  The parser keeps the open composites on a stack, at most 10000 of them, as Go's scanner does.
\<close>

datatype frame = FArr "gval list" | FObj gobj string

datatype parse_state = PVal | PArrFirst | PObjFirst | PKey | PColon string | PAfter | PDone gval

definition max_nesting_depth :: nat where
  "max_nesting_depth = 10000"

fun deliver :: "gval \<Rightarrow> frame list \<Rightarrow> parse_state \<times> frame list" where
  "deliver v [] = (PDone v, [])"
| "deliver v (FArr vs # st) = (PAfter, FArr (vs @ [v]) # st)"
| "deliver v (FObj kvs k # st) = (PAfter, FObj (kvs @ [(k, v)]) k # st)"

definition open_frame :: "frame \<Rightarrow> parse_state \<Rightarrow> frame list \<Rightarrow> (parse_state \<times> frame list) option" where
  "open_frame f p st = (if length st < max_nesting_depth then Some (p, f # st) else None)"

fun parse_value :: "token \<Rightarrow> frame list \<Rightarrow> (parse_state \<times> frame list) option" where
  "parse_value TLBrace st = open_frame (FObj [] []) PObjFirst st"
| "parse_value TLBrack st = open_frame (FArr []) PArrFirst st"
| "parse_value (TStr s) st = Some (deliver (GStr s) st)"
| "parse_value (TNum n) st = Some (deliver (GNum n) st)"
| "parse_value TTrue st = Some (deliver (GBool True) st)"
| "parse_value TFalse st = Some (deliver (GBool False) st)"
| "parse_value TNull st = Some (deliver GNil st)"
| "parse_value _ st = None"

fun parse_after :: "token \<Rightarrow> frame list \<Rightarrow> (parse_state \<times> frame list) option" where
  "parse_after TComma (FArr vs # st) = Some (PVal, FArr vs # st)"
| "parse_after TRBrack (FArr vs # st) = Some (deliver (GList vs) st)"
| "parse_after TComma (FObj kvs k # st) = Some (PKey, FObj kvs k # st)"
| "parse_after TRBrace (FObj kvs k # st) = Some (deliver (GMap kvs) st)"
| "parse_after _ st = None"

fun parse_step :: "parse_state \<Rightarrow> token \<Rightarrow> frame list \<Rightarrow> (parse_state \<times> frame list) option" where
  "parse_step PVal t st = parse_value t st"
| "parse_step PArrFirst t st = (if t = TRBrack then parse_after t st else parse_value t st)"
| "parse_step PObjFirst t st =
     (case t of TStr k \<Rightarrow> Some (PColon k, st) | TRBrace \<Rightarrow> parse_after t st | _ \<Rightarrow> None)"
| "parse_step PKey t st = (case t of TStr k \<Rightarrow> Some (PColon k, st) | _ \<Rightarrow> None)"
| "parse_step (PColon k) t st =
     (case (t, st) of (TColon, FObj kvs _ # st') \<Rightarrow> Some (PVal, FObj kvs k # st') | _ \<Rightarrow> None)"
| "parse_step PAfter t st = parse_after t st"
| "parse_step (PDone v) t st = None"

fun parse :: "parse_state \<Rightarrow> frame list \<Rightarrow> token list \<Rightarrow> gval option" where
  "parse p st [] = (case p of PDone v \<Rightarrow> Some v | _ \<Rightarrow> None)"
| "parse p st (t # ts) =
     (case parse_step p t st of None \<Rightarrow> None | Some (p', st') \<Rightarrow> parse p' st' ts)"

definition json_parse :: "string \<Rightarrow> gval option" where
  "json_parse s = (case lex LStart s of None \<Rightarrow> None | Some ts \<Rightarrow> parse PVal [] ts)"

section \<open>Decoding into \<open>any\<close>\<close>

text \<open>
  A number literal is in range if its magnitude rounds below $2^{1024}$; the bound is the midpoint
  above the largest \<open>float64\<close>.
\<close>

definition float_bound :: int where
  "float_bound = 2 ^ 1024 - 2 ^ 970"

definition split_exp :: "string \<Rightarrow> string \<times> string" where
  "split_exp s = (takeWhile (\<lambda>c. c \<noteq> CHR ''e'' \<and> c \<noteq> CHR ''E'') s,
     drop 1 (dropWhile (\<lambda>c. c \<noteq> CHR ''e'' \<and> c \<noteq> CHR ''E'') s))"

definition exp_val :: "string \<Rightarrow> int" where
  "exp_val s = (case s of [] \<Rightarrow> 0 | c # cs \<Rightarrow>
     if c = CHR ''-'' then - int (dec_val cs) else if c = CHR ''+'' then int (dec_val cs)
     else int (dec_val s))"

definition float64_ok :: "string \<Rightarrow> bool" where
  "float64_ok s =
     (let (m, e) = split_exp s;
          int_part = filter is_digit (takeWhile (\<lambda>c. c \<noteq> CHR ''.'') m);
          frac = filter is_digit (dropWhile (\<lambda>c. c \<noteq> CHR ''.'') m);
          mant = int (dec_val (int_part @ frac));
          ex = exp_val e - int (length frac)
      in if 0 \<le> ex then mant * 10 ^ nat ex < float_bound
         else mant < float_bound * 10 ^ nat (- ex))"

fun nums_ok :: "gval \<Rightarrow> bool" where
  "nums_ok (GNum n) = float64_ok n"
| "nums_ok (GList vs) = list_all nums_ok vs"
| "nums_ok (GMap kvs) = list_all (\<lambda>(k, v). nums_ok v) kvs"
| "nums_ok v = True"

text \<open>A repeated key keeps its last value.\<close>

fun last_wins :: "gobj \<Rightarrow> gobj" where
  "last_wins [] = []"
| "last_wins ((k, v) # kvs) =
     (if k \<in> fst ` set kvs then last_wins kvs else (k, v) # last_wins kvs)"

fun any_of :: "gval \<Rightarrow> gval" where
  "any_of (GList vs) = GList (map any_of vs)"
| "any_of (GMap kvs) = GMap (last_wins (map (\<lambda>(k, v). (k, any_of v)) kvs))"
| "any_of v = v"

definition json_syntax_error :: go_error where
  "json_syntax_error = OpaqueError ''invalid JSON''"

definition json_type_error :: go_error where
  "json_type_error = OpaqueError ''cannot unmarshal value''"

text \<open>\<open>json.Unmarshal\<close> into a \<open>map[string]any\<close>: the map is nil after \<open>null\<close>.\<close>

definition unmarshal_map :: "string \<Rightarrow> (gobj option) result" where
  "unmarshal_map s =
     (case json_parse s of
        None \<Rightarrow> Err json_syntax_error
      | Some v \<Rightarrow>
          (case v of
             GMap kvs \<Rightarrow>
               if nums_ok v then
                 Ok (Some (last_wins (map (\<lambda>(k, v). (k, any_of v)) kvs)))
               else Err json_type_error
           | GNil \<Rightarrow> Ok None
           | _ \<Rightarrow> Err json_type_error))"

section \<open>Decoding from a stream\<close>

text \<open>
  \<open>Decoder.Decode\<close> reads one value and leaves the rest of the input. A number or a word ends at the
  byte after it, which then still belongs to the rest.
\<close>

fun done_value :: "parse_state \<Rightarrow> gval option" where
  "done_value (PDone v) = Some v"
| "done_value _ = None"

fun decode_stream :: "lex_state \<Rightarrow> parse_state \<Rightarrow> frame list \<Rightarrow> string \<Rightarrow> (gval \<times> string) option" where
  "decode_stream st p fs [] =
     (case lex_end st of
        Some [t] \<Rightarrow>
          (case parse_step p t fs of None \<Rightarrow> None | Some (p', _) \<Rightarrow> map_option (\<lambda>v. (v, [])) (done_value p'))
      | _ \<Rightarrow> None)"
| "decode_stream st p fs (c # cs) =
     (case lex_step st c of
        None \<Rightarrow> None
      | Some ([], st') \<Rightarrow> decode_stream st' p fs cs
      | Some (t # ts, st') \<Rightarrow>
          (case parse_step p t fs of
             None \<Rightarrow> None
           | Some (p', fs') \<Rightarrow>
               (case done_value p' of
                  Some v \<Rightarrow> Some (v, if ts = [] then cs else c # cs)
                | None \<Rightarrow>
                    (case ts of
                       [] \<Rightarrow> decode_stream st' p' fs' cs
                     | t' # _ \<Rightarrow>
                         (case parse_step p' t' fs' of
                            None \<Rightarrow> None
                          | Some (p'', fs'') \<Rightarrow>
                              (case done_value p'' of
                                 Some v \<Rightarrow> Some (v, cs)
                               | None \<Rightarrow> decode_stream st' p'' fs'' cs))))))"

definition decoder_decode :: "string \<Rightarrow> (gval \<times> string) option" where
  "decoder_decode s = decode_stream LStart PVal [] s"

text \<open>\<open>Decoder.More\<close>: whether a byte other than white space follows that does not close a composite.\<close>

definition decoder_more :: "string \<Rightarrow> bool" where
  "decoder_more rest =
     (case dropWhile is_space rest of [] \<Rightarrow> False | c # _ \<Rightarrow> c \<noteq> CHR '']'' \<and> c \<noteq> CHR ''}'')"

end
