(* ===== verification/Adapter_Service.thy ===== *)
theory Adapter_Service
  imports Go_JSON
begin

text \<open>
  The wire messages as far as the SDK reads and writes them, the error sentinels of the tool-call
  flow, and \<open>src/adapterhost/service.go\<close>: the permission stream of a service and the
  permissionless default loop, with the contract that every loop over that stream keeps.

  The messages are generated from a proto module that is not part of the repository; only the fields
  the repository names appear here.
\<close>

section \<open>Error sentinels\<close>

definition CallErrUnknownAdapter :: string where "CallErrUnknownAdapter = ''unknown_adapter''"
definition CallErrUnknownTool :: string where "CallErrUnknownTool = ''unknown_tool''"
definition CallErrCapabilityMissing :: string where "CallErrCapabilityMissing = ''capability_missing''"
definition CallErrHostUnsupported :: string where "CallErrHostUnsupported = ''host_unsupported''"
definition CallErrDepthExceeded :: string where "CallErrDepthExceeded = ''depth_exceeded''"
definition CallErrCycleDetected :: string where "CallErrCycleDetected = ''cycle_detected''"
definition CallErrCalleeCrash :: string where "CallErrCalleeCrash = ''callee_crash''"
definition CallErrCalleeTimeout :: string where "CallErrCalleeTimeout = ''callee_timeout''"
definition CallErrCanceled :: string where "CallErrCanceled = ''canceled''"
definition CallErrNotYetSupported :: string where "CallErrNotYetSupported = ''not_yet_supported''"
definition CallErrSelfCall :: string where "CallErrSelfCall = ''self_call''"

lemmas call_err_defs = CallErrUnknownAdapter_def CallErrUnknownTool_def CallErrCapabilityMissing_def
  CallErrHostUnsupported_def CallErrDepthExceeded_def CallErrCycleDetected_def CallErrCalleeCrash_def
  CallErrCalleeTimeout_def CallErrCanceled_def CallErrNotYetSupported_def CallErrSelfCall_def

text \<open>\<open>ToolCallError.Is\<close>: only the host-unsupported code matches a sentinel.\<close>

definition ToolCallError_Is :: "string \<Rightarrow> sentinel \<Rightarrow> bool" where
  "ToolCallError_Is code target \<longleftrightarrow> target = ErrHostUnsupported \<and> code = CallErrHostUnsupported"

text \<open>\<open>errors.Is\<close> against a sentinel: follow the wrapped errors, asking each one.\<close>

primrec errors_is :: "go_error \<Rightarrow> sentinel \<Rightarrow> bool" where
  "errors_is (Errorf as) t = False"
| "errors_is (Wrapf pre e post) t = errors_is e t"
| "errors_is (Sentinel s) t = (s = t)"
| "errors_is (ToolCallError code) t = ToolCallError_Is code t"
| "errors_is (StatusError c m) t = False"
| "errors_is (OpaqueError m) t = False"

text \<open>Of the registered codes the host may send, one matches a sentinel; the other ten are told apart by their code only.\<close>

lemma other_codes_match_no_sentinel:
  "list_all (\<lambda>code. \<not> errors_is (ToolCallError code) t)
     [CallErrUnknownAdapter, CallErrUnknownTool, CallErrCapabilityMissing, CallErrDepthExceeded, CallErrCycleDetected,
      CallErrCalleeCrash, CallErrCalleeTimeout, CallErrCanceled, CallErrNotYetSupported, CallErrSelfCall]"
  by (simp add: ToolCallError_Is_def call_err_defs)

definition sentinel_text :: "sentinel \<Rightarrow> string" where
  "sentinel_text s =
     (case s of
        ErrDenied \<Rightarrow> ''adapterhost: tool call denied''
      | ErrHostUnsupported \<Rightarrow> ''adapterhost: host does not support adapter tool calls''
      | ErrPermissionsClosed \<Rightarrow> ''adapterhost: permissions stream closed''
      | EOF \<Rightarrow> ''EOF''
      | DeadlineExceeded \<Rightarrow> ''context deadline exceeded''
      | Canceled \<Rightarrow> ''context canceled'')"

definition ToolCallError_Error :: "string \<Rightarrow> string" where
  "ToolCallError_Error code = ''adapterhost: adapter tool call failed: '' @ code"

primrec error_text :: "text_env \<Rightarrow> go_error \<Rightarrow> string" where
  "error_text env (Errorf as) = args_text env as"
| "error_text env (Wrapf pre e post) = args_text env pre @ error_text env e @ args_text env post"
| "error_text env (Sentinel s) = sentinel_text s"
| "error_text env (ToolCallError code) = ToolCallError_Error code"
| "error_text env (StatusError c m) = status_text env c m"
| "error_text env (OpaqueError m) = m"

section \<open>Messages\<close>

record Chunk =
  chunk_seq :: "32 word"
  chunk_total :: "32 word"
  chunk_final :: bool

record ToolCallResult =
  tcr_request_id :: string
  tcr_outcome :: string
  tcr_outputs_json :: string
  tcr_call_error :: string
  tcr_chunk :: "Chunk option"

record ExecuteResultMsg =
  res_outcome :: string
  res_comment :: string
  res_outputs_json :: string
  res_chunk :: "Chunk option"

record AdapterEvent =
  event_kind :: string
  event_payload :: gobj

datatype ExecuteEvent = EvAdapter AdapterEvent | EvResult ExecuteResultMsg | EvOther

record PermissionCancel =
  cancel_request_id :: string
  cancel_reason :: string

record PermissionDecision =
  dec_request_id :: string
  dec_decision :: string

datatype PermissionEvent =
    PE_Request string
  | PE_Cancel PermissionCancel
  | PE_ToolCallResult ToolCallResult
  | PE_None

text \<open>The getters of the event: a request is represented by its id, the only field the SDK reads.\<close>

fun GetRequest :: "PermissionEvent \<Rightarrow> string option" where
  "GetRequest (PE_Request i) = Some i"
| "GetRequest _ = None"

fun GetCancel :: "PermissionEvent \<Rightarrow> PermissionCancel option" where
  "GetCancel (PE_Cancel c) = Some c"
| "GetCancel _ = None"

fun GetToolCallResult :: "PermissionEvent \<Rightarrow> ToolCallResult option" where
  "GetToolCallResult (PE_ToolCallResult r) = Some r"
| "GetToolCallResult _ = None"

section \<open>The permission stream\<close>

text \<open>
  A turn of the stream is what \<open>Recv\<close> returns and what \<open>Send\<close> would return (its error, if any) if
  the loop sends during that turn. A loop that has used up its turns is blocked in \<open>Recv\<close>.
\<close>

datatype recv = RecvOk PermissionEvent | RecvErr go_error

type_synonym turn = "recv \<times> go_error option"

datatype loop_status = Waiting | Returned "go_error option"

definition decisionAllow :: string where
  "decisionAllow = ''allow''"

definition allow :: "string \<Rightarrow> PermissionDecision" where
  "allow i = \<lparr>dec_request_id = i, dec_decision = decisionAllow\<rparr>"

text \<open>
  \<open>runUnimplementedPermissions\<close>; the code of a stream error (\<open>status.Code\<close> of grpc) is a parameter.
\<close>

fun runUnimplementedPermissions ::
  "(go_error \<Rightarrow> grpc_code) \<Rightarrow> turn list \<Rightarrow> PermissionDecision list \<times> loop_status" where
  "runUnimplementedPermissions status_code [] = ([], Waiting)"
| "runUnimplementedPermissions status_code ((RecvErr e, sent) # ts) =
     ([], Returned (if errors_is e EOF \<or> status_code e = Code_Canceled then None else Some e))"
| "runUnimplementedPermissions status_code ((RecvOk ev, sent) # ts) =
     (case GetRequest ev of
        None \<Rightarrow> runUnimplementedPermissions status_code ts
      | Some i \<Rightarrow>
          (case sent of
             Some e \<Rightarrow> ([], Returned (Some e))
           | None \<Rightarrow>
               let (ds, st) = runUnimplementedPermissions status_code ts in (allow i # ds, st)))"

text \<open>The method of the helper that an adapter without permission handling embeds.\<close>

definition UnimplementedPermissions_Permissions ::
  "(go_error \<Rightarrow> grpc_code) \<Rightarrow> turn list \<Rightarrow> PermissionDecision list \<times> loop_status" where
  "UnimplementedPermissions_Permissions status_code stream = runUnimplementedPermissions status_code stream"

section \<open>The contract of a permission loop\<close>

definition turn_event :: "turn \<Rightarrow> PermissionEvent option" where
  "turn_event t = (case fst t of RecvOk ev \<Rightarrow> Some ev | RecvErr e \<Rightarrow> None)"

text \<open>The turns in which neither \<open>Recv\<close> nor a \<open>Send\<close> the loop makes fails.\<close>

definition clean_turn :: "(PermissionEvent \<Rightarrow> string option) \<Rightarrow> turn \<Rightarrow> bool" where
  "clean_turn ack t \<longleftrightarrow>
     (case t of (RecvOk ev, sent) \<Rightarrow> ack ev \<noteq> None \<longrightarrow> sent = None | (RecvErr e, _) \<Rightarrow> False)"

definition turn_acks :: "(PermissionEvent \<Rightarrow> string option) \<Rightarrow> turn list \<Rightarrow> string list" where
  "turn_acks ack ts = List.map_filter (\<lambda>t. Option.bind (turn_event t) ack) ts"

definition turn_events :: "turn list \<Rightarrow> PermissionEvent list" where
  "turn_events ts = List.map_filter turn_event ts"

lemma turn_acks_simps [simp]:
  "turn_acks ack [] = []"
  "turn_acks ack ((RecvErr e, w) # ts) = turn_acks ack ts"
  "turn_acks ack ((RecvOk ev, w) # ts) =
     (case ack ev of None \<Rightarrow> turn_acks ack ts | Some i \<Rightarrow> i # turn_acks ack ts)"
  by (simp_all add: turn_acks_def turn_event_def List.map_filter_def split: option.splits)

lemma turn_events_simps [simp]:
  "turn_events [] = []"
  "turn_events ((RecvErr e, w) # ts) = turn_events ts"
  "turn_events ((RecvOk ev, w) # ts) = ev # turn_events ts"
  by (simp_all add: turn_events_def turn_event_def List.map_filter_def)

locale recv_loop =
  fixes loop :: "'s \<Rightarrow> turn list \<Rightarrow> 's \<times> PermissionDecision list \<times> loop_status"
    and handle :: "'s \<Rightarrow> PermissionEvent \<Rightarrow> 's"
    and at_end :: "'s \<Rightarrow> 's"
    and ack :: "PermissionEvent \<Rightarrow> string option"
    and normal_end :: "go_error \<Rightarrow> bool"
  assumes loop_Nil: "loop s [] = (s, [], Waiting)"
    and loop_recv_err: "loop s ((RecvErr e, w) # ts) =
      (at_end s, [], Returned (if normal_end e then None else Some e))"
    and loop_silent: "ack ev = None \<Longrightarrow> loop s ((RecvOk ev, w) # ts) = loop (handle s ev) ts"
    and loop_send_err: "ack ev = Some i \<Longrightarrow>
      loop s ((RecvOk ev, Some e) # ts) = (at_end s, [], Returned (Some e))"
    and loop_ack: "ack ev = Some i \<Longrightarrow>
      loop s ((RecvOk ev, None) # ts) =
        (let (s', ds, st) = loop (handle s ev) ts in (s', allow i # ds, st))"
begin

text \<open>As long as nothing fails, the loop answers exactly the events that want an answer, in order, and stays in \<open>Recv\<close>.\<close>

lemma loop_clean:
  "list_all (clean_turn ack) ts \<Longrightarrow>
   loop s ts = (foldl handle s (turn_events ts), map allow (turn_acks ack ts), Waiting)"
proof (induction ts arbitrary: s)
  case Nil
  then show ?case by (simp add: loop_Nil)
next
  case (Cons t ts)
  obtain r w where t: "t = (r, w)" by force
  from Cons.prems t obtain ev where r: "r = RecvOk ev"
    by (cases r) (auto simp: clean_turn_def)
  from Cons.prems have rest: "list_all (clean_turn ack) ts" by simp
  show ?case
  proof (cases "ack ev")
    case None
    with Cons.IH [OF rest] t r show ?thesis by (simp add: loop_silent)
  next
    case (Some i)
    with Cons.prems t r have "w = None" by (simp add: clean_turn_def)
    with Some Cons.IH [OF rest] t r show ?thesis by (simp add: loop_ack)
  qed
qed

text \<open>The first failure ends the loop: what was answered before stays answered, the end action runs once.\<close>

lemma loop_append_clean:
  "list_all (clean_turn ack) us \<Longrightarrow>
   loop s (us @ ts) =
     (let (s', ds, st) = loop (foldl handle s (turn_events us)) ts
      in (s', map allow (turn_acks ack us) @ ds, st))"
proof (induction us arbitrary: s)
  case Nil
  then show ?case by simp
next
  case (Cons t us)
  obtain r w where t: "t = (r, w)" by force
  from Cons.prems t obtain ev where r: "r = RecvOk ev"
    by (cases r) (auto simp: clean_turn_def)
  from Cons.prems have rest: "list_all (clean_turn ack) us" by simp
  show ?case
  proof (cases "ack ev")
    case None
    with Cons.IH [OF rest] t r show ?thesis by (simp add: loop_silent)
  next
    case (Some i)
    with Cons.prems t r have "w = None" by (simp add: clean_turn_def)
    with Some Cons.IH [OF rest] t r show ?thesis
      by (simp add: loop_ack case_prod_beta Let_def)
  qed
qed

lemma loop_recv_fails:
  assumes "list_all (clean_turn ack) us"
  shows "loop s (us @ (RecvErr e, w) # ts) =
    (at_end (foldl handle s (turn_events us)), map allow (turn_acks ack us),
     Returned (if normal_end e then None else Some e))"
  using loop_append_clean [OF assms] by (simp add: loop_recv_err)

lemma loop_send_fails:
  assumes "list_all (clean_turn ack) us" "ack ev = Some i"
  shows "loop s (us @ (RecvOk ev, Some e) # ts) =
    (at_end (foldl handle s (turn_events us)), map allow (turn_acks ack us), Returned (Some e))"
  using loop_append_clean [OF assms(1)] by (simp add: loop_send_err [OF assms(2)])

text \<open>Every decision the loop sends is an allow for an event it received.\<close>

lemma loop_sends_allow:
  "loop s ts = (s', ds, st) \<Longrightarrow>
   d \<in> set ds \<Longrightarrow> \<exists>i. d = allow i \<and> i \<in> set (turn_acks ack ts)"
proof (induction ts arbitrary: s ds)
  case Nil
  then show ?case by (simp add: loop_Nil)
next
  case (Cons t ts)
  obtain r w where t: "t = (r, w)" by force
  show ?case
  proof (cases r)
    case (RecvErr e)
    with Cons.prems t show ?thesis by (simp add: loop_recv_err)
  next
    case (RecvOk ev)
    show ?thesis
    proof (cases "ack ev")
      case None
      with Cons RecvOk t show ?thesis by (auto simp: loop_silent)
    next
      case (Some i)
      show ?thesis
      proof (cases w)
        case None
        with Some RecvOk Cons.prems t obtain ds' where
          "loop (handle s ev) ts = (s', ds', st)" "ds = allow i # ds'"
          by (auto simp: loop_ack split: prod.splits)
        with Cons.IH Cons.prems(2) Some RecvOk t show ?thesis by fastforce
      next
        case (Some e)
        with \<open>ack ev = Some i\<close> RecvOk Cons.prems t show ?thesis by (simp add: loop_send_err)
      qed
    qed
  qed
qed

end

text \<open>The permissionless loop keeps the contract, with no state of its own.\<close>

definition unimplemented_loop ::
  "(go_error \<Rightarrow> grpc_code) \<Rightarrow> unit \<Rightarrow> turn list \<Rightarrow> unit \<times> PermissionDecision list \<times> loop_status" where
  "unimplemented_loop sc u ts = (u, runUnimplementedPermissions sc ts)"

interpretation unimpl: recv_loop "unimplemented_loop sc" "\<lambda>u _. u" "\<lambda>u. u" GetRequest
  "\<lambda>e. errors_is e EOF \<or> sc e = Code_Canceled" for sc
  by unfold_locales (auto simp: unimplemented_loop_def split: prod.splits)

section \<open>Outgoing streams\<close>

text \<open>
  The sending half of a stream: how many sends were tried and what was delivered. What the transport
  answers to the n-th send is given; a failed send delivers nothing.
\<close>

type_synonym 'e outbox = "nat \<times> 'e list"
type_synonym transport = "nat \<Rightarrow> go_error option"

definition send_msg :: "transport \<Rightarrow> 'e \<Rightarrow> 'e outbox \<Rightarrow> go_error option \<times> 'e outbox" where
  "send_msg net ev out =
     (case net (fst out) of
        Some e \<Rightarrow> (Some e, (Suc (fst out), snd out))
      | None \<Rightarrow> (None, (Suc (fst out), snd out @ [ev])))"

end
