(* ===== verification/Tool_Call.thy ===== *)
theory Tool_Call
  imports Adapter_Service
begin

text \<open>
  \<open>src/adapterhost/toolcall.go\<close>, the operations of the tool-call bridge one by one: the checks and
  the payload of a call, the request ids, the pending map and its entries, the dispatch loop over
  the permission stream, and the interpretation of a resolved entry. How calls and the dispatch
  loop interleave is the subject of the theory \<open>Tool_Call_System\<close>.
\<close>

section \<open>Constants\<close>

definition EventKindPermissionRequest :: string where
  "EventKindPermissionRequest = ''permission.request''"

definition PayloadKindAdapterTool :: string where
  "PayloadKindAdapterTool = ''adapter_tool''"

definition DefaultToolCallTimeout :: "64 word" where
  "DefaultToolCallTimeout = 60 * 1000000000"

section \<open>A call and its checks\<close>

record AdapterToolCall =
  SessionID :: string
  Target :: string
  Tool :: string
  Args :: gval
  Preview :: string
  Timeout :: "64 word"

definition validate_call :: "AdapterToolCall \<Rightarrow> go_error option" where
  "validate_call c =
     (if SessionID c = [] then Some (Errorf [Lit ''adapterhost: tool call requires SessionID''])
      else if Target c = [] then Some (Errorf [Lit ''adapterhost: tool call requires Target''])
      else if Tool c = [] then Some (Errorf [Lit ''adapterhost: tool call requires Tool''])
      else None)"

definition FormatAdapterToolTarget :: "string \<Rightarrow> string \<Rightarrow> string \<Rightarrow> string" where
  "FormatAdapterToolTarget adapterType inst tool =
     (let target = ''adapter.'' @ adapterType @ ''.'' @ inst @ ''.tools''
      in if tool \<noteq> [] then target @ ''.'' @ tool else target)"

section \<open>Request ids\<close>

text \<open>
  \<open>newToolCallRequestID\<close>: 16 random bytes, or the process-wide counter when the random source
  fails (\<^const>\<open>None\<close>). The counter is the 64-bit atomic \<open>requestIDFallback\<close>.
\<close>

definition newToolCallRequestID :: "8 word list option \<Rightarrow> 64 word \<Rightarrow> string \<times> 64 word" where
  "newToolCallRequestID rnd fallback =
     (case rnd of
        None \<Rightarrow> (''adapter-tool-fallback-'' @ dec_nat (unat (fallback + 1)), fallback + 1)
      | Some buf \<Rightarrow> (''adapter-tool-'' @ hex_encode buf, fallback))"

section \<open>The payload\<close>

text \<open>
  \<open>buildToolCallPayload\<close>. The canonical JSON form and the digest are functions of the proto module,
  the conversions to and from a \<open>Struct\<close> of the protobuf runtime: four parameters.
\<close>

record payload_env =
  CanonicalJSON :: "gval \<Rightarrow> string result"
  ArgsDigest :: "gobj \<Rightarrow> string result"
  NewStruct :: "gobj \<Rightarrow> gobj result"
  AsMap :: "gobj \<Rightarrow> gobj"

definition payload_fields :: "payload_env \<Rightarrow> AdapterToolCall \<Rightarrow> string \<Rightarrow> gobj \<Rightarrow> string \<Rightarrow> gobj" where
  "payload_fields env call requestID argsStruct digest =
     [(''kind'', GStr PayloadKindAdapterTool),
      (''request_id'', GStr requestID),
      (''target'', GStr (Target call)),
      (''tool'', GStr (Tool call)),
      (''args'', GMap (AsMap env argsStruct)),
      (''args_digest'', GStr digest)] @
     (if Preview call \<noteq> [] then [(''args_preview'', GStr (Preview call))] else [])"

definition buildToolCallPayload :: "payload_env \<Rightarrow> AdapterToolCall \<Rightarrow> string \<Rightarrow> gobj result" where
  "buildToolCallPayload env call requestID =
     bind_result
       (wrap_err [Lit ''adapterhost: tool call '', Verb_q (Tool call), Lit '' args: '']
          (CanonicalJSON env (Args call)))
       (\<lambda>canonical.
     bind_result
       (wrap_err [Lit ''adapterhost: tool call '', Verb_q (Tool call), Lit '' args must be a JSON object: '']
          (unmarshal_map canonical))
       (\<lambda>decoded. let args = (case decoded of None \<Rightarrow> [] | Some m \<Rightarrow> m) in
     bind_result
       (wrap_err [Lit ''adapterhost: tool call '', Verb_q (Tool call), Lit '' args digest: '']
          (ArgsDigest env args))
       (\<lambda>digest.
     bind_result
       (wrap_err [Lit ''adapterhost: tool call '', Verb_q (Tool call), Lit '' args struct: '']
          (NewStruct env args))
       (\<lambda>argsStruct. NewStruct env (payload_fields env call requestID argsStruct digest)))))"

section \<open>The bridge\<close>

text \<open>
  Entries are shared between the pending map and the goroutine that waits on them, so they live in
  a store and the map holds their addresses. The channel \<open>done\<close> is the flag \<open>closed\<close>; closing it
  a second time panics in Go, which the flag \<open>panicked\<close> of the bridge records.
\<close>

record pendingToolCall =
  closed :: bool
  grant :: bool
  fragments :: "ToolCallResult list"
  cancelled :: "PermissionCancel option"
  entry_err :: "go_error option"

record ToolCallBridge =
  store :: "pendingToolCall list"
  pending :: "string \<rightharpoonup> nat"
  unsupportedSessions :: "string set"
  panicked :: bool

definition NewToolCallBridge :: ToolCallBridge where
  "NewToolCallBridge =
     \<lparr>store = [], pending = Map.empty, unsupportedSessions = {}, panicked = False\<rparr>"

definition fresh_entry :: pendingToolCall where
  "fresh_entry =
     \<lparr>closed = False, grant = False, fragments = [], cancelled = None, entry_err = None\<rparr>"

definition update_entry :: "nat \<Rightarrow> (pendingToolCall \<Rightarrow> pendingToolCall) \<Rightarrow> ToolCallBridge \<Rightarrow> ToolCallBridge" where
  "update_entry a f b = b\<lparr>store := (store b)[a := f (store b ! a)]\<rparr>"

definition close_done :: "nat \<Rightarrow> ToolCallBridge \<Rightarrow> ToolCallBridge" where
  "close_done a b =
     (if closed (store b ! a) then b\<lparr>panicked := True\<rparr>
      else update_entry a (\<lambda>e. e\<lparr>closed := True\<rparr>) b)"

definition delete_pending :: "string \<Rightarrow> ToolCallBridge \<Rightarrow> ToolCallBridge" where
  "delete_pending i b = b\<lparr>pending := (pending b)(i := None)\<rparr>"

definition register :: "string \<Rightarrow> ToolCallBridge \<Rightarrow> nat \<times> ToolCallBridge" where
  "register requestID b =
     (length (store b),
      b\<lparr>store := store b @ [fresh_entry], pending := (pending b)(requestID \<mapsto> length (store b))\<rparr>)"

definition remove :: "string \<Rightarrow> ToolCallBridge \<Rightarrow> ToolCallBridge" where
  "remove requestID b = delete_pending requestID b"

definition takeGrant :: "string \<Rightarrow> ToolCallBridge \<Rightarrow> bool \<times> ToolCallBridge" where
  "takeGrant requestID b =
     ((case pending b requestID of None \<Rightarrow> False | Some a \<Rightarrow> grant (store b ! a)),
      delete_pending requestID b)"

definition sessionUnsupported :: "string \<Rightarrow> ToolCallBridge \<Rightarrow> bool" where
  "sessionUnsupported sid b \<longleftrightarrow> sid \<in> unsupportedSessions b"

definition cacheUnsupported :: "string \<Rightarrow> ToolCallBridge \<Rightarrow> ToolCallBridge" where
  "cacheUnsupported sid b = b\<lparr>unsupportedSessions := insert sid (unsupportedSessions b)\<rparr>"

definition markGranted :: "string \<Rightarrow> ToolCallBridge \<Rightarrow> ToolCallBridge" where
  "markGranted requestID b =
     (case pending b requestID of
        None \<Rightarrow> b
      | Some a \<Rightarrow> update_entry a (\<lambda>e. e\<lparr>grant := True\<rparr>) b)"

definition routeCancel :: "PermissionCancel \<Rightarrow> ToolCallBridge \<Rightarrow> ToolCallBridge" where
  "routeCancel c b =
     (case pending b (cancel_request_id c) of
        None \<Rightarrow> b
      | Some a \<Rightarrow>
          close_done a
            (update_entry a (\<lambda>e. e\<lparr>cancelled := Some c\<rparr>)
              (delete_pending (cancel_request_id c) b)))"

text \<open>The fragment that resolves a call: a typed failure, an unchunked result or the final chunk.\<close>

definition resolving :: "ToolCallResult \<Rightarrow> bool" where
  "resolving res \<longleftrightarrow>
     tcr_call_error res \<noteq> [] \<or>
     (case tcr_chunk res of None \<Rightarrow> True | Some ch \<Rightarrow> chunk_final ch)"

definition routeResult :: "ToolCallResult \<Rightarrow> ToolCallBridge \<Rightarrow> ToolCallBridge" where
  "routeResult res b =
     (case pending b (tcr_request_id res) of
        None \<Rightarrow> b
      | Some a \<Rightarrow>
          let b1 = update_entry a (\<lambda>e. e\<lparr>fragments := fragments e @ [res]\<rparr>) b
          in if resolving res then close_done a (delete_pending (tcr_request_id res) b1) else b1)"

text \<open>
  \<open>closeAll\<close> has two parts. Under the lock it empties the pending map, in the order the range loop
  visits the ids; after it, each collected entry gets its error and is closed.
\<close>

definition closeAll_collect :: "string list \<Rightarrow> ToolCallBridge \<Rightarrow> nat list \<times> ToolCallBridge" where
  "closeAll_collect ids b =
     (List.map_filter (pending b) ids,
      b\<lparr>pending := (\<lambda>i. if i \<in> set ids then None else pending b i)\<rparr>)"

definition close_entry :: "nat \<Rightarrow> ToolCallBridge \<Rightarrow> ToolCallBridge" where
  "close_entry a b =
     close_done a (update_entry a (\<lambda>e. e\<lparr>entry_err := Some (Sentinel ErrPermissionsClosed)\<rparr>) b)"

definition closeAll :: "string list \<Rightarrow> ToolCallBridge \<Rightarrow> ToolCallBridge" where
  "closeAll ids b = (let (as, b') = closeAll_collect ids b in fold close_entry as b')"

section \<open>The dispatch loop\<close>

text \<open>What one received event does to the bridge, once its acknowledgement (if any) is sent.\<close>

definition dispatch_event :: "ToolCallBridge \<Rightarrow> PermissionEvent \<Rightarrow> ToolCallBridge" where
  "dispatch_event b ev =
     (case GetRequest ev of
        Some i \<Rightarrow> if i = [] then b else markGranted i b
      | None \<Rightarrow>
          (case GetCancel ev of
             Some c \<Rightarrow> routeCancel c b
           | None \<Rightarrow>
               (case GetToolCallResult ev of
                  Some r \<Rightarrow> routeResult r b
                | None \<Rightarrow> b)))"

text \<open>The id a grant is acknowledged with: a request with an empty id is skipped.\<close>

definition grant_ack :: "PermissionEvent \<Rightarrow> string option" where
  "grant_ack ev =
     (case GetRequest ev of None \<Rightarrow> None | Some i \<Rightarrow> if i = [] then None else Some i)"

definition normal_close :: "(go_error \<Rightarrow> grpc_code) \<Rightarrow> go_error \<Rightarrow> bool" where
  "normal_close status_code e \<longleftrightarrow>
     errors_is e EOF \<or> status_code e = Code_Canceled \<or> status_code e = Code_OK"

text \<open>
  \<open>ToolCallBridge.Permissions\<close>. Its deferred \<open>closeAll\<close> runs on every return; \<open>order\<close> gives the
  order in which that call visits the pending map.
\<close>

fun Permissions ::
  "(go_error \<Rightarrow> grpc_code) \<Rightarrow> ((string \<rightharpoonup> nat) \<Rightarrow> string list) \<Rightarrow> ToolCallBridge \<Rightarrow> turn list \<Rightarrow>
   ToolCallBridge \<times> PermissionDecision list \<times> loop_status" where
  "Permissions status_code order b [] = (b, [], Waiting)"
| "Permissions status_code order b ((RecvErr e, sent) # ts) =
     (closeAll (order (pending b)) b, [],
      Returned (if normal_close status_code e then None else Some e))"
| "Permissions status_code order b ((RecvOk ev, sent) # ts) =
     (case GetRequest ev of
        Some i \<Rightarrow>
          if i = [] then Permissions status_code order b ts
          else
            (case sent of
               Some e \<Rightarrow> (closeAll (order (pending b)) b, [], Returned (Some e))
             | None \<Rightarrow>
                 let (b', ds, st) = Permissions status_code order (markGranted i b) ts
                 in (b', allow i # ds, st))
      | None \<Rightarrow>
          (case GetCancel ev of
             Some c \<Rightarrow> Permissions status_code order (routeCancel c b) ts
           | None \<Rightarrow>
               (case GetToolCallResult ev of
                  Some r \<Rightarrow> Permissions status_code order (routeResult r b) ts
                | None \<Rightarrow> Permissions status_code order b ts)))"

interpretation perms: recv_loop "Permissions sc order" dispatch_event
  "\<lambda>b. closeAll (order (pending b)) b" grant_ack "normal_close sc" for sc order
proof unfold_locales
  fix ev s w ts
  assume "grant_ack ev = None"
  then show "Permissions sc order s ((RecvOk ev, w) # ts) = Permissions sc order (dispatch_event s ev) ts"
    by (cases ev) (auto simp: grant_ack_def dispatch_event_def split: if_splits)
next
  fix ev i s e ts
  assume "grant_ack ev = Some i"
  then show "Permissions sc order s ((RecvOk ev, Some e) # ts) =
      (closeAll (order (pending s)) s, [], Returned (Some e))"
    by (cases ev) (auto simp: grant_ack_def split: if_splits)
next
  fix ev i s ts
  assume "grant_ack ev = Some i"
  then show "Permissions sc order s ((RecvOk ev, None) # ts) =
      (let (s', ds, st) = Permissions sc order (dispatch_event s ev) ts in (s', allow i # ds, st))"
    by (cases ev) (auto simp: grant_ack_def dispatch_event_def split: if_splits)
qed auto

section \<open>The result of a resolved call\<close>

text \<open>The three values \<open>CallAdapterTool\<close> returns: outcome, outputs (nil or a map), error.\<close>

type_synonym call_result = "string \<times> gobj option \<times> go_error option"

abbreviation failed :: "go_error \<Rightarrow> call_result" where
  "failed e \<equiv> ([], None, Some e)"

definition decodeToolCallOutputs :: "string \<Rightarrow> (gobj option) result" where
  "decodeToolCallOutputs raw =
     (if raw = [] then Ok None else wrap_err [Lit ''outputs_json: ''] (unmarshal_map raw))"

definition call_prefix :: "AdapterToolCall \<Rightarrow> fmt_arg list" where
  "call_prefix call =
     [Lit ''adapterhost: tool call '', Verb_q (Tool call), Lit '' to '', Verb_s (Target call), Lit '': '']"

text \<open>
  \<open>finishToolCall\<close>; the reassembly of chunked outputs belongs to the proto module and is a
  parameter. Reading the first fragment of an entry that has none panics, here \<^const>\<open>None\<close>.
\<close>

definition finishToolCall ::
  "(ToolCallResult list \<Rightarrow> string result) \<Rightarrow> AdapterToolCall \<Rightarrow> pendingToolCall \<Rightarrow> call_result option" where
  "finishToolCall JoinToolCallResultOutputs call entry =
     (case entry_err entry of
        Some e \<Rightarrow> Some (failed (Wrapf (call_prefix call) e []))
      | None \<Rightarrow>
     (case cancelled entry of
        Some c \<Rightarrow>
          let denied = Wrapf (call_prefix call) (Sentinel ErrDenied) [];
              denied' = (if cancel_reason c \<noteq> []
                         then Wrapf [] denied [Lit '': '', Verb_s (cancel_reason c)] else denied)
          in Some (failed denied')
      | None \<Rightarrow>
     (case fragments entry of
        [] \<Rightarrow> None
      | first # rest \<Rightarrow>
          if tcr_call_error first \<noteq> [] then Some (failed (ToolCallError (tcr_call_error first)))
          else
            (case (if rest = [] \<and> tcr_chunk first = None then Ok (tcr_outputs_json first)
                   else wrap_err [Lit ''adapterhost: reassemble outputs of tool call '',
                                  Verb_q (Tool call), Lit '': '']
                          (JoinToolCallResultOutputs (fragments entry))) of
               Inl e \<Rightarrow> Some (failed e)
             | Inr outputsJSON \<Rightarrow>
                 (case wrap_err [Lit ''adapterhost: decode outputs of tool call '',
                                 Verb_q (Tool call), Lit '': '']
                         (decodeToolCallOutputs outputsJSON) of
                    Inl e \<Rightarrow> Some (failed e)
                  | Inr outputs \<Rightarrow> Some (tcr_outcome first, outputs, None))))))"

section \<open>Request ids never collide\<close>

lemma newToolCallRequestID_random [simp]:
  "newToolCallRequestID (Some buf) n = (''adapter-tool-'' @ hex_encode buf, n)"
  by (simp add: newToolCallRequestID_def)

lemma newToolCallRequestID_fallback [simp]:
  "newToolCallRequestID None n =
     (''adapter-tool-fallback-'' @ dec_nat (unat (n + 1)), n + 1)"
  by (simp add: newToolCallRequestID_def)

lemma random_id_inject [simp]:
  "''adapter-tool-'' @ hex_encode b = ''adapter-tool-'' @ hex_encode c \<longleftrightarrow> b = c"
  by (simp add: hex_encode_inject)

lemma random_id_not_fallback [simp]:
  "''adapter-tool-'' @ hex_encode b \<noteq> ''adapter-tool-fallback-'' @ x"
proof
  assume "''adapter-tool-'' @ hex_encode b = ''adapter-tool-fallback-'' @ x"
  then have "hex_encode b = ''fallback-'' @ x" by simp
  then have "CHR ''l'' \<in> set (hex_encode b)" by simp
  with hex_encode_no_l show False by blast
qed

section \<open>Well-formed bridges\<close>

text \<open>
  What every operation keeps of the bridge: the map holds addresses of distinct, still open entries.
\<close>

definition bridge_wf :: "ToolCallBridge \<Rightarrow> bool" where
  "bridge_wf b \<longleftrightarrow>
     \<not> panicked b \<and>
     (\<forall>i a. pending b i = Some a \<longrightarrow> a < length (store b) \<and> \<not> closed (store b ! a)) \<and>
     (\<forall>i j a. pending b i = Some a \<and> pending b j = Some a \<longrightarrow> i = j)"

lemma update_entry_simps [simp]:
  "pending (update_entry a f b) = pending b"
  "unsupportedSessions (update_entry a f b) = unsupportedSessions b"
  "panicked (update_entry a f b) = panicked b"
  "length (store (update_entry a f b)) = length (store b)"
  by (simp_all add: update_entry_def)

lemma store_update_entry:
  "a < length (store b) \<Longrightarrow>
   store (update_entry a f b) ! c = (if c = a then f (store b ! a) else store b ! c)"
  by (simp add: update_entry_def nth_list_update)

lemma delete_pending_simps [simp]:
  "store (delete_pending i b) = store b"
  "pending (delete_pending i b) = (pending b)(i := None)"
  "unsupportedSessions (delete_pending i b) = unsupportedSessions b"
  "panicked (delete_pending i b) = panicked b"
  by (simp_all add: delete_pending_def)

lemma close_done_open:
  "\<not> closed (store b ! a) \<Longrightarrow> close_done a b = update_entry a (\<lambda>e. e\<lparr>closed := True\<rparr>) b"
  by (simp add: close_done_def)

lemma close_done_simps [simp]:
  "pending (close_done a b) = pending b"
  "unsupportedSessions (close_done a b) = unsupportedSessions b"
  "length (store (close_done a b)) = length (store b)"
  by (simp_all add: close_done_def)

lemma bridge_wf_new [simp]: "bridge_wf NewToolCallBridge"
  by (simp add: bridge_wf_def NewToolCallBridge_def)

lemma bridge_wf_register:
  "bridge_wf b \<Longrightarrow> bridge_wf (snd (register i b))"
  by (auto simp: bridge_wf_def register_def fresh_entry_def nth_append less_SucI)

lemma bridge_wf_delete: "bridge_wf b \<Longrightarrow> bridge_wf (delete_pending i b)"
  by (auto simp: bridge_wf_def)

lemma bridge_wf_cache: "bridge_wf b \<Longrightarrow> bridge_wf (cacheUnsupported sid b)"
  by (auto simp: bridge_wf_def cacheUnsupported_def)

lemma bridge_wf_update:
  "bridge_wf b \<Longrightarrow> a < length (store b) \<Longrightarrow> (\<And>e. closed (f e) = closed e) \<Longrightarrow>
   bridge_wf (update_entry a f b)"
  by (auto simp: bridge_wf_def store_update_entry)

text \<open>Closing an entry that has just left the map is safe.\<close>

lemma bridge_wf_close:
  assumes "bridge_wf b" "a < length (store b)" "\<not> closed (store b ! a)" "\<forall>i. pending b i \<noteq> Some a"
  shows "bridge_wf (close_done a b)"
  using assms by (auto simp: bridge_wf_def close_done_open store_update_entry)

lemma bridge_wf_pendingD:
  assumes "bridge_wf b" "pending b i = Some a"
  shows "a < length (store b)" "\<not> closed (store b ! a)"
    and "pending b j = Some a \<longleftrightarrow> j = i"
  using assms by (auto simp: bridge_wf_def)

lemma deleted_address:
  "bridge_wf b \<Longrightarrow> pending b i = Some a \<Longrightarrow> ((pending b)(i := None)) j \<noteq> Some a"
  by (simp add: bridge_wf_pendingD(3))

lemma bridge_wf_markGranted: "bridge_wf b \<Longrightarrow> bridge_wf (markGranted i b)"
  by (auto simp: markGranted_def bridge_wf_pendingD intro!: bridge_wf_update split: option.splits)

lemma bridge_wf_resolve:
  assumes "bridge_wf b" "pending b i = Some a" "\<And>e. closed (f e) = closed e"
  shows "bridge_wf (close_done a (update_entry a f (delete_pending i b)))"
  using assms
  by (intro bridge_wf_close bridge_wf_update bridge_wf_delete allI)
    (simp_all add: store_update_entry bridge_wf_pendingD(1,2) deleted_address del: fun_upd_apply)

lemma update_delete_commute:
  "update_entry a f (delete_pending i b) = delete_pending i (update_entry a f b)"
  by (simp add: update_entry_def delete_pending_def)

lemma bridge_wf_routeCancel: "bridge_wf b \<Longrightarrow> bridge_wf (routeCancel c b)"
  by (auto simp: routeCancel_def intro!: bridge_wf_resolve split: option.splits)

lemma bridge_wf_routeResult: "bridge_wf b \<Longrightarrow> bridge_wf (routeResult r b)"
  by (auto simp: routeResult_def Let_def update_delete_commute [symmetric] bridge_wf_pendingD
      intro!: bridge_wf_resolve bridge_wf_update split: option.splits)

lemma bridge_wf_dispatch: "bridge_wf b \<Longrightarrow> bridge_wf (dispatch_event b ev)"
  by (auto simp: dispatch_event_def bridge_wf_markGranted bridge_wf_routeCancel bridge_wf_routeResult
      split: option.splits)

lemma bridge_wf_dispatches: "bridge_wf b \<Longrightarrow> bridge_wf (foldl dispatch_event b evs)"
  by (induction evs arbitrary: b) (auto simp: bridge_wf_dispatch)

lemmas bridge_wf_intros = bridge_wf_register bridge_wf_delete bridge_wf_cache bridge_wf_dispatch

section \<open>What the dispatch loop promises a call\<close>

text \<open>
  The abstract view of a call: not in flight, or in flight with the grant and the fragments seen so
  far. An event moves a call by its request id only.
\<close>

datatype call_view = Absent | InFlight bool "ToolCallResult list"

definition view_of :: "ToolCallBridge \<Rightarrow> string \<Rightarrow> call_view" where
  "view_of b i =
     (case pending b i of None \<Rightarrow> Absent
      | Some a \<Rightarrow> InFlight (grant (store b ! a)) (fragments (store b ! a)))"

fun view_event :: "string \<Rightarrow> call_view \<Rightarrow> PermissionEvent \<Rightarrow> call_view" where
  "view_event i Absent ev = Absent"
| "view_event i (InFlight g fs) (PE_Request j) =
     (if j = i \<and> j \<noteq> [] then InFlight True fs else InFlight g fs)"
| "view_event i (InFlight g fs) (PE_Cancel c) =
     (if cancel_request_id c = i then Absent else InFlight g fs)"
| "view_event i (InFlight g fs) (PE_ToolCallResult r) =
     (if tcr_request_id r = i then
        if tcr_call_error r \<noteq> [] \<or> (case tcr_chunk r of None \<Rightarrow> True | Some ch \<Rightarrow> chunk_final ch) then Absent
        else InFlight g (fs @ [r])
      else InFlight g fs)"
| "view_event i (InFlight g fs) PE_None = InFlight g fs"

lemma view_event_Absent [simp]: "foldl (view_event i) Absent evs = Absent"
  by (induction evs) auto

lemma view_of_delete: "view_of (delete_pending i b) j = (if j = i then Absent else view_of b j)"
  by (simp add: view_of_def split: option.splits)

lemma view_of_update:
  assumes "bridge_wf b" "pending b i = Some a"
  shows "view_of (update_entry a f b) j =
    (if j = i then InFlight (grant (f (store b ! a))) (fragments (f (store b ! a))) else view_of b j)"
proof (cases "j = i")
  case True
  with assms show ?thesis
    by (simp add: view_of_def store_update_entry bridge_wf_pendingD(1))
next
  case False
  then have "pending b j \<noteq> Some a"
    using bridge_wf_pendingD(3) [OF assms] by simp
  with False show ?thesis
    by (auto simp: view_of_def update_entry_def split: option.splits)
qed

lemma view_of_untracked:
  assumes "\<And>j. pending b j \<noteq> Some a"
  shows "view_of (update_entry a f b) j = view_of b j" "view_of (close_done a b) j = view_of b j"
proof -
  have "store (update_entry a f b) ! c = store b ! c" if "pending b j = Some c" for c f
    using assms [of j] that by (auto simp: update_entry_def)
  then show "view_of (update_entry a f b) j = view_of b j" for f
    by (simp add: view_of_def split: option.splits)
  then show "view_of (close_done a b) j = view_of b j"
    by (simp add: close_done_def) (simp add: view_of_def split: option.splits)
qed

lemma view_of_resolve:
  assumes "bridge_wf b" "pending b i = Some a"
  shows "view_of (close_done a (update_entry a f (delete_pending i b))) j =
    (if j = i then Absent else view_of b j)"
proof -
  have "pending (update_entry a f (delete_pending i b)) k \<noteq> Some a" for k
    using deleted_address [OF assms] by simp
  moreover have "pending (delete_pending i b) k \<noteq> Some a" for k
    using deleted_address [OF assms] by simp
  ultimately show ?thesis by (simp add: view_of_untracked view_of_delete)
qed

lemma view_of_pending: "pending b i = Some a \<Longrightarrow> view_of b i = InFlight (grant (store b ! a)) (fragments (store b ! a))"
  by (simp add: view_of_def)

lemma view_of_absent: "pending b i = None \<Longrightarrow> view_of b i = Absent"
  by (simp add: view_of_def)

lemma view_markGranted:
  assumes "bridge_wf b"
  shows "view_of (markGranted j b) i = (if j = i then (case view_of b i of Absent \<Rightarrow> Absent | InFlight g fs \<Rightarrow> InFlight True fs) else view_of b i)"
proof (cases "pending b j")
  case None
  then show ?thesis by (auto simp: markGranted_def view_of_absent)
next
  case (Some a)
  with assms show ?thesis by (auto simp: markGranted_def view_of_update view_of_pending)
qed

lemma view_routeCancel:
  assumes "bridge_wf b"
  shows "view_of (routeCancel c b) i = (if cancel_request_id c = i then Absent else view_of b i)"
proof (cases "pending b (cancel_request_id c)")
  case None
  then show ?thesis by (auto simp: routeCancel_def view_of_absent)
next
  case (Some a)
  with assms show ?thesis by (auto simp: routeCancel_def view_of_resolve)
qed

lemma view_routeResult:
  assumes "bridge_wf b"
  shows "view_of (routeResult r b) i =
    (if tcr_request_id r = i then
       (case view_of b i of Absent \<Rightarrow> Absent
        | InFlight g fs \<Rightarrow> if resolving r then Absent else InFlight g (fs @ [r]))
     else view_of b i)"
proof (cases "pending b (tcr_request_id r)")
  case None
  then show ?thesis by (auto simp: routeResult_def view_of_absent)
next
  case (Some a)
  with assms show ?thesis
    by (auto simp: routeResult_def Let_def update_delete_commute [symmetric] view_of_resolve
        view_of_update view_of_pending)
qed

lemma view_dispatch:
  assumes "bridge_wf b"
  shows "view_of (dispatch_event b ev) i = view_event i (view_of b i) ev"
  using assms
  by (cases ev; cases "view_of b i")
    (auto simp: dispatch_event_def view_markGranted view_routeCancel view_routeResult resolving_def)

lemma view_dispatches:
  "bridge_wf b \<Longrightarrow> view_of (foldl dispatch_event b evs) i = foldl (view_event i) (view_of b i) evs"
  by (induction evs arbitrary: b) (auto simp: view_dispatch bridge_wf_dispatch)

section \<open>The end of a stream\<close>

lemma fold_close_entry:
  assumes "bridge_wf b" "distinct as"
    and "\<forall>a \<in> set as. a < length (store b) \<and> \<not> closed (store b ! a) \<and> (\<forall>i. pending b i \<noteq> Some a)"
  shows "bridge_wf (fold close_entry as b) \<and> pending (fold close_entry as b) = pending b \<and>
    length (store (fold close_entry as b)) = length (store b) \<and>
    (\<forall>a \<in> set as. closed (store (fold close_entry as b) ! a) \<and>
       entry_err (store (fold close_entry as b) ! a) = Some (Sentinel ErrPermissionsClosed)) \<and>
    (\<forall>a. a \<notin> set as \<longrightarrow> store (fold close_entry as b) ! a = store b ! a)"
  using assms
proof (induction as arbitrary: b)
  case Nil
  then show ?case by simp
next
  case (Cons x as)
  let ?b = "close_entry x b"
  have x: "x < length (store b)" "\<not> closed (store b ! x)" "\<forall>i. pending b i \<noteq> Some x"
    using Cons.prems(3) by auto
  have b: "?b = update_entry x (\<lambda>e. e\<lparr>entry_err := Some (Sentinel ErrPermissionsClosed), closed := True\<rparr>) b"
    using x by (simp add: close_entry_def close_done_def store_update_entry) (simp add: update_entry_def)
  have "bridge_wf ?b"
    using Cons.prems(1) x(3) unfolding b bridge_wf_def by (auto simp: store_update_entry x(1))
  moreover have "\<forall>a \<in> set as. a < length (store ?b) \<and> \<not> closed (store ?b ! a) \<and> (\<forall>i. pending ?b i \<noteq> Some a)"
    using Cons.prems(2,3) unfolding b by (auto simp: store_update_entry x(1))
  ultimately have IH: "bridge_wf (fold close_entry as ?b) \<and> pending (fold close_entry as ?b) = pending ?b \<and>
    length (store (fold close_entry as ?b)) = length (store ?b) \<and>
    (\<forall>a \<in> set as. closed (store (fold close_entry as ?b) ! a) \<and>
       entry_err (store (fold close_entry as ?b) ! a) = Some (Sentinel ErrPermissionsClosed)) \<and>
    (\<forall>a. a \<notin> set as \<longrightarrow> store (fold close_entry as ?b) ! a = store ?b ! a)"
    using Cons.IH [of ?b] Cons.prems(2) by simp
  have "pending ?b = pending b" "length (store ?b) = length (store b)"
    "closed (store ?b ! x)" "entry_err (store ?b ! x) = Some (Sentinel ErrPermissionsClosed)"
    "\<And>a. a \<noteq> x \<Longrightarrow> store ?b ! a = store b ! a"
    unfolding b by (simp_all add: store_update_entry x(1))
  with IH Cons.prems(2) show ?case by simp
qed

text \<open>The addresses \<open>closeAll\<close> collects: all different, one for each pending call.\<close>

lemma collect_addresses:
  assumes "range_order ids (pending b)" "bridge_wf b"
  shows "distinct (List.map_filter (pending b) ids)"
    and "set (List.map_filter (pending b) ids) = ran (pending b)"
proof -
  have ids: "distinct ids" "set ids = dom (pending b)" using assms(1) by (auto simp: range_order_def)
  have "inj_on (\<lambda>i. the (pending b i)) (dom (pending b))"
    using assms(2) by (auto simp: inj_on_def bridge_wf_def)
  moreover have "filter (\<lambda>i. pending b i \<noteq> None) ids = ids"
    using ids(2) by (auto simp: filter_id_conv)
  ultimately show "distinct (List.map_filter (pending b) ids)"
    using ids by (simp add: List.map_filter_def distinct_map comp_def)
  show "set (List.map_filter (pending b) ids) = ran (pending b)"
    using ids(2) by (force simp: List.map_filter_def ran_def)
qed

lemma closeAll_effect:
  assumes "bridge_wf b" "range_order ids (pending b)"
  shows "bridge_wf (closeAll ids b)" "pending (closeAll ids b) = Map.empty"
    and "pending b i = Some a \<Longrightarrow> closed (store (closeAll ids b) ! a) \<and>
      entry_err (store (closeAll ids b) ! a) = Some (Sentinel ErrPermissionsClosed)"
proof -
  let ?as = "List.map_filter (pending b) ids"
  let ?b = "b\<lparr>pending := (\<lambda>i. if i \<in> set ids then None else pending b i)\<rparr>"
  have empty: "pending ?b = Map.empty"
    using assms(2) by (auto simp: range_order_def fun_eq_iff)
  have "bridge_wf ?b" using assms(1) empty by (simp add: bridge_wf_def)
  moreover have "\<forall>a \<in> set ?as. a < length (store ?b) \<and> \<not> closed (store ?b ! a) \<and> (\<forall>i. pending ?b i \<noteq> Some a)"
    using collect_addresses(2) [OF assms(2,1)] assms(1) empty
    by (auto simp: ran_def bridge_wf_pendingD)
  ultimately have eff: "bridge_wf (fold close_entry ?as ?b) \<and> pending (fold close_entry ?as ?b) = pending ?b \<and>
    length (store (fold close_entry ?as ?b)) = length (store ?b) \<and>
    (\<forall>a \<in> set ?as. closed (store (fold close_entry ?as ?b) ! a) \<and>
       entry_err (store (fold close_entry ?as ?b) ! a) = Some (Sentinel ErrPermissionsClosed)) \<and>
    (\<forall>a. a \<notin> set ?as \<longrightarrow> store (fold close_entry ?as ?b) ! a = store ?b ! a)"
    by (intro fold_close_entry collect_addresses(1) [OF assms(2,1)])
  have "closeAll ids b = fold close_entry ?as ?b"
    by (simp add: closeAll_def closeAll_collect_def)
  with eff empty show "bridge_wf (closeAll ids b)" "pending (closeAll ids b) = Map.empty"
    by simp_all
  show "closed (store (closeAll ids b) ! a) \<and>
      entry_err (store (closeAll ids b) ! a) = Some (Sentinel ErrPermissionsClosed)"
    if "pending b i = Some a"
  proof -
    have "a \<in> set ?as" using that collect_addresses(2) [OF assms(2,1)] by (auto simp: ran_def)
    with eff show ?thesis by (simp add: closeAll_def closeAll_collect_def)
  qed
qed

end
