(* ===== verification/Tool_Call_System.thy ===== *)
theory Tool_Call_System
  imports Tool_Call
begin

text \<open>
  \<open>ToolCallBridge\<close> with any number of concurrent calls and permission streams. A call is the
  goroutine that runs \<open>CallAdapterTool\<close> (\<open>src/adapterhost/toolcall.go\<close>); its state is the point it has reached between two
  operations other goroutines can see. The steps of the system are those points, the events a dispatch loop
  handles, the two parts of \<open>closeAll\<close>, the passing of time and the end of contexts; everything done under the bridge's mutex is one
  step. Time is a number of nanoseconds, and a context has a deadline or none.
\<close>

section \<open>The steps of a call\<close>

text \<open>
  The deadline of \<open>callCtx\<close>, as a time in nanoseconds. A call that runs on a context without a deadline gets one: its own
  timeout from now if positive, else the default. A context with a deadline governs as it is.
\<close>

definition call_bound :: "nat \<Rightarrow> nat option \<Rightarrow> AdapterToolCall \<Rightarrow> nat option" where
  "call_bound time deadline call =
     (case deadline of
        Some t \<Rightarrow> Some t
      | None \<Rightarrow>
          let wait = (if sint (Timeout call) \<le> 0 then DefaultToolCallTimeout else Timeout call)
          in Some (time + unat wait))"

datatype caller =
    Idle
  | Checked AdapterToolCall "nat option"
  | Minted AdapterToolCall "nat option" string gobj
  | Registered AdapterToolCall "nat option" string gobj nat
  | Selecting AdapterToolCall "nat option" string nat
  | TookGrant AdapterToolCall string bool bool
  | Finished call_result
  | Crashed

record call_env =
  payload_env_of :: payload_env
  JoinToolCallResultOutputs :: "ToolCallResult list \<Rightarrow> string result"

text \<open>
  Up to the look at the session cache. The context is \<^const>\<open>None\<close> if nil, else the deadline it has, if
  any; the flag says whether there is a sink.
\<close>

definition call_begin :: "ToolCallBridge \<Rightarrow> nat option option \<Rightarrow> bool \<Rightarrow> AdapterToolCall \<Rightarrow> caller" where
  "call_begin b ctx sink call =
     (case ctx of
        None \<Rightarrow> Finished (failed (Errorf [Lit ''adapterhost: tool call requires a context'']))
      | Some deadline \<Rightarrow>
          if \<not> sink then
            Finished (failed (Errorf [Lit ''adapterhost: tool call requires an ExecuteEventSender'']))
          else
            (case validate_call call of
               Some e \<Rightarrow> Finished (failed e)
             | None \<Rightarrow>
                 if sessionUnsupported (SessionID call) b
                 then Finished (failed (ToolCallError CallErrHostUnsupported))
                 else Checked call deadline))"

definition call_payload :: "call_env \<Rightarrow> AdapterToolCall \<Rightarrow> nat option \<Rightarrow> string \<Rightarrow> caller" where
  "call_payload env call deadline requestID =
     (case buildToolCallPayload (payload_env_of env) call requestID of
        Inl e \<Rightarrow> Finished (failed e)
      | Inr payload \<Rightarrow> Minted call deadline requestID payload)"

definition tool_call_event :: "gobj \<Rightarrow> ExecuteEvent" where
  "tool_call_event payload =
     EvAdapter \<lparr>event_kind = EventKindPermissionRequest, event_payload = payload\<rparr>"

definition call_sent ::
  "nat \<Rightarrow> AdapterToolCall \<Rightarrow> nat option \<Rightarrow> string \<Rightarrow> nat \<Rightarrow> go_error option \<Rightarrow> ToolCallBridge \<Rightarrow> caller \<times> ToolCallBridge" where
  "call_sent time call deadline requestID a sent b =
     (case sent of
        Some e \<Rightarrow>
          (Finished (failed (Wrapf [Lit ''adapterhost: send permission.request for tool call '',
             Verb_q (Tool call), Lit '': ''] e [])), remove requestID b)
      | None \<Rightarrow> (Selecting call (call_bound time deadline call) requestID a, b))"

text \<open>The two cases of the select: the entry is resolved, or the context of the call is done.\<close>

definition call_resolved :: "call_env \<Rightarrow> AdapterToolCall \<Rightarrow> pendingToolCall \<Rightarrow> caller" where
  "call_resolved env call entry =
     (case finishToolCall (JoinToolCallResultOutputs env) call entry of
        None \<Rightarrow> Crashed | Some r \<Rightarrow> Finished r)"

definition ctx_err :: "bool \<Rightarrow> go_error" where
  "ctx_err deadline = Sentinel (if deadline then DeadlineExceeded else Canceled)"

definition call_ctx_done :: "AdapterToolCall \<Rightarrow> string \<Rightarrow> bool \<Rightarrow> ToolCallBridge \<Rightarrow> caller \<times> ToolCallBridge" where
  "call_ctx_done call requestID deadline b =
     (let (granted, b') = takeGrant requestID b in (TookGrant call requestID granted deadline, b'))"

definition call_after_grant :: "AdapterToolCall \<Rightarrow> string \<Rightarrow> bool \<Rightarrow> bool \<Rightarrow> ToolCallBridge \<Rightarrow> caller \<times> ToolCallBridge" where
  "call_after_grant call requestID granted deadline b =
     (if granted \<and> deadline
      then (Finished (failed (ToolCallError CallErrHostUnsupported)), cacheUnsupported (SessionID call) b)
      else (Finished (failed (Wrapf (call_prefix call) (ctx_err deadline) [])), remove requestID b))"

section \<open>The system\<close>

text \<open>
  \<open>closing\<close> holds the entries some \<open>closeAll\<close> has collected and not yet closed. \<open>clock\<close> is the time, and \<open>ctx_ended\<close>
  says of the context of each call whether it is done and why, by its deadline or cancelled (\<open>ctx.Err()\<close> is fixed once it is done).
  \<open>draws\<close> and \<open>sent\<close> are histories no step reads: what the random source gave, and what went out on the execute streams.
\<close>

record call_sys =
  bridge :: ToolCallBridge
  fallback :: "64 word"
  callers :: "nat \<Rightarrow> caller"
  closing :: "nat list"
  clock :: nat
  ctx_ended :: "nat \<Rightarrow> bool option"
  draws :: "8 word list option list"
  sent :: "(nat \<times> ExecuteEvent) list"

datatype action =
    Call nat "nat option option" bool AdapterToolCall
  | Mint nat "8 word list option"
  | Register nat
  | SinkSend nat "go_error option"
  | WakeDone nat
  | WakeCtx nat bool
  | AfterGrant nat
  | Dispatch PermissionEvent
  | StreamEnd "string list"
  | CloseOne nat
  | Tick nat
  | CtxEnd nat bool

definition init_sys :: call_sys where
  "init_sys = \<lparr>bridge = NewToolCallBridge, fallback = 0, callers = (\<lambda>_. Idle), closing = [],
     clock = 0, ctx_ended = (\<lambda>_. None), draws = [], sent = []\<rparr>"

definition set_caller :: "nat \<Rightarrow> caller \<Rightarrow> call_sys \<Rightarrow> call_sys" where
  "set_caller c p s = s\<lparr>callers := (callers s)(c := p)\<rparr>"

text \<open>The deadline of the context a call runs under at its present point.\<close>

fun ctx_deadline :: "caller \<Rightarrow> nat option" where
  "ctx_deadline (Checked call dl) = dl"
| "ctx_deadline (Minted call dl i payload) = dl"
| "ctx_deadline (Registered call dl i payload a) = dl"
| "ctx_deadline (Selecting call dl i a) = dl"
| "ctx_deadline _ = None"

text \<open>
  The step of an action; \<^const>\<open>None\<close> if the action is not possible in the state. The last two are those of the runtime: time
  passes, and a context ends, cancelled at any time or by its deadline once that has passed. The select sees the context only when it is done.
\<close>

fun sys_step :: "call_env \<Rightarrow> call_sys \<Rightarrow> action \<Rightarrow> call_sys option" where
  "sys_step env s (Call c ctx sink call) =
     (case callers s c of
        Idle \<Rightarrow> Some (set_caller c (call_begin (bridge s) ctx sink call) s)
      | _ \<Rightarrow> None)"
| "sys_step env s (Mint c rnd) =
     (case callers s c of
        Checked call dl \<Rightarrow>
          let (i, n) = newToolCallRequestID rnd (fallback s)
          in Some (set_caller c (call_payload env call dl i)
                     (s\<lparr>fallback := n, draws := draws s @ [rnd]\<rparr>))
      | _ \<Rightarrow> None)"
| "sys_step env s (Register c) =
     (case callers s c of
        Minted call dl i payload \<Rightarrow>
          let (a, b) = register i (bridge s)
          in Some (set_caller c (Registered call dl i payload a) (s\<lparr>bridge := b\<rparr>))
      | _ \<Rightarrow> None)"
| "sys_step env s (SinkSend c err) =
     (case callers s c of
        Registered call dl i payload a \<Rightarrow>
          let (p, b) = call_sent (clock s) call dl i a err (bridge s)
          in Some (set_caller c p (s\<lparr>bridge := b,
               sent := sent s @ (if err = None then [(c, tool_call_event payload)] else [])\<rparr>))
      | _ \<Rightarrow> None)"
| "sys_step env s (WakeDone c) =
     (case callers s c of
        Selecting call w i a \<Rightarrow>
          if closed (store (bridge s) ! a)
          then Some (set_caller c (call_resolved env call (store (bridge s) ! a)) s)
          else None
      | _ \<Rightarrow> None)"
| "sys_step env s (WakeCtx c deadline) =
     (case callers s c of
        Selecting call w i a \<Rightarrow>
          if ctx_ended s c = Some deadline then
            let (p, b) = call_ctx_done call i deadline (bridge s)
            in Some (set_caller c p (s\<lparr>bridge := b\<rparr>))
          else None
      | _ \<Rightarrow> None)"
| "sys_step env s (AfterGrant c) =
     (case callers s c of
        TookGrant call i granted deadline \<Rightarrow>
          let (p, b) = call_after_grant call i granted deadline (bridge s)
          in Some (set_caller c p (s\<lparr>bridge := b\<rparr>))
      | _ \<Rightarrow> None)"
| "sys_step env s (Dispatch ev) = Some (s\<lparr>bridge := dispatch_event (bridge s) ev\<rparr>)"
| "sys_step env s (StreamEnd ids) =
     (if distinct ids \<and> set ids = dom (pending (bridge s)) then
        let (as, b) = closeAll_collect ids (bridge s)
        in Some (s\<lparr>bridge := b, closing := closing s @ as\<rparr>)
      else None)"
| "sys_step env s (CloseOne a) =
     (if a \<in> set (closing s) then
        Some (s\<lparr>bridge := close_entry a (bridge s), closing := remove1 a (closing s)\<rparr>)
      else None)"
| "sys_step env s (Tick n) = Some (s\<lparr>clock := clock s + n\<rparr>)"
| "sys_step env s (CtxEnd c deadline) =
     (if ctx_ended s c = None \<and>
         (deadline \<longrightarrow> (case ctx_deadline (callers s c) of None \<Rightarrow> False | Some t \<Rightarrow> t \<le> clock s))
      then Some (s\<lparr>ctx_ended := (ctx_ended s)(c := Some deadline)\<rparr>)
      else None)"

text \<open>A run of actions; \<^const>\<open>None\<close> if one of them is not possible.\<close>

fun sys_run :: "call_env \<Rightarrow> call_sys \<Rightarrow> action list \<Rightarrow> call_sys option" where
  "sys_run env s [] = Some s"
| "sys_run env s (a # as) = (case sys_step env s a of None \<Rightarrow> None | Some t \<Rightarrow> sys_run env t as)"

inductive call_step :: "call_env \<Rightarrow> call_sys \<Rightarrow> call_sys \<Rightarrow> bool" for env where
  step: "sys_step env s a = Some t \<Longrightarrow> call_step env s t"

text \<open>
  A history of the random source in which ids cannot repeat: no 16 bytes came twice, and the source failed fewer than $2^{64}$
  times. No step requires it; it is a hypothesis of the theorems that need different ids.
\<close>

definition draws_fresh :: "8 word list option list \<Rightarrow> bool" where
  "draws_fresh ds \<longleftrightarrow> distinct (filter (\<lambda>d. d \<noteq> None) ds) \<and> count_list ds None < 2 ^ 64"

lemma draws_fresh_snoc:
  "draws_fresh (ds @ [Some buf]) \<longleftrightarrow> draws_fresh ds \<and> Some buf \<notin> set ds"
  "draws_fresh (ds @ [None]) \<longleftrightarrow> distinct (filter (\<lambda>d. d \<noteq> None) ds) \<and> count_list ds None + 1 < 2 ^ 64"
  by (auto simp: draws_fresh_def)

lemma draws_fresh_prefix: "draws_fresh (ds @ es) \<Longrightarrow> draws_fresh ds"
  by (auto simp: draws_fresh_def)

section \<open>Updates of one entry\<close>

text \<open>
  Every operation of the dispatch side either leaves the bridge alone, updates an open entry that
  stays in the map, or takes an entry out of the map and closes it with something to report.
\<close>

definition reported :: "pendingToolCall \<Rightarrow> bool" where
  "reported e \<longleftrightarrow> entry_err e \<noteq> None \<or> cancelled e \<noteq> None \<or> fragments e \<noteq> []"

text \<open>An update that adds at most fragments of the given request id.\<close>

definition own_fragments :: "string \<Rightarrow> (pendingToolCall \<Rightarrow> pendingToolCall) \<Rightarrow> bool" where
  "own_fragments i f \<longleftrightarrow>
     (\<forall>e x. x \<in> set (fragments (f e)) \<longrightarrow> x \<in> set (fragments e) \<or> tcr_request_id x = i)"

definition touches :: "string \<Rightarrow> (pendingToolCall \<Rightarrow> pendingToolCall) \<Rightarrow> bool" where
  "touches i f \<longleftrightarrow> own_fragments i f \<and>
     (\<forall>e. closed (f e) = closed e \<and> entry_err (f e) = entry_err e \<and> cancelled (f e) = cancelled e \<and>
        (list_all (\<lambda>r. \<not> resolving r) (fragments e) \<longrightarrow>
         list_all (\<lambda>r. \<not> resolving r) (fragments (f e))))"

definition resolves :: "string \<Rightarrow> (pendingToolCall \<Rightarrow> pendingToolCall) \<Rightarrow> bool" where
  "resolves i f \<longleftrightarrow> own_fragments i f \<and> (\<forall>e. closed (f e) \<and> reported (f e))"

lemma close_updated:
  assumes "a < length (store b)" "\<not> closed (store b ! a)" "\<And>e. closed (f e) = closed e"
  shows "close_done a (update_entry a f b) = update_entry a (\<lambda>e. (f e)\<lparr>closed := True\<rparr>) b"
  using assms by (simp add: close_done_def store_update_entry) (simp add: update_entry_def)

lemma dispatch_cases:
  assumes "bridge_wf b"
  obtains (same) "dispatch_event b ev = b"
    | (touch) i a f where "pending b i = Some a" "touches i f"
        "dispatch_event b ev = update_entry a f b"
    | (resolve) i a f where "pending b i = Some a" "resolves i f"
        "dispatch_event b ev = update_entry a f (delete_pending i b)"
proof (cases ev)
  case (PE_Request i)
  show ?thesis
  proof (cases "i = [] \<or> pending b i = None")
    case True
    with PE_Request have "dispatch_event b ev = b"
      by (auto simp: dispatch_event_def markGranted_def)
    then show ?thesis by (rule same)
  next
    case False
    then obtain a where a: "pending b i = Some a" by auto
    have "touches i (\<lambda>e. e\<lparr>grant := True\<rparr>)" by (simp add: touches_def own_fragments_def)
    moreover have "dispatch_event b ev = update_entry a (\<lambda>e. e\<lparr>grant := True\<rparr>) b"
      using PE_Request False a by (simp add: dispatch_event_def markGranted_def)
    ultimately show ?thesis by (rule touch [OF a])
  qed
next
  case (PE_Cancel c)
  show ?thesis
  proof (cases "pending b (cancel_request_id c)")
    case None
    with PE_Cancel have "dispatch_event b ev = b" by (simp add: dispatch_event_def routeCancel_def)
    then show ?thesis by (rule same)
  next
    case (Some a)
    have "resolves (cancel_request_id c) (\<lambda>e. e\<lparr>cancelled := Some c, closed := True\<rparr>)"
      by (simp add: resolves_def own_fragments_def reported_def)
    moreover have "dispatch_event b ev =
        update_entry a (\<lambda>e. e\<lparr>cancelled := Some c, closed := True\<rparr>) (delete_pending (cancel_request_id c) b)"
      using PE_Cancel Some assms
      by (simp add: dispatch_event_def routeCancel_def close_updated bridge_wf_pendingD(1,2))
    ultimately show ?thesis by (rule resolve [OF Some])
  qed
next
  case (PE_ToolCallResult r)
  show ?thesis
  proof (cases "pending b (tcr_request_id r)")
    case None
    with PE_ToolCallResult have "dispatch_event b ev = b"
      by (simp add: dispatch_event_def routeResult_def)
    then show ?thesis by (rule same)
  next
    case (Some a)
    let ?f = "\<lambda>e. e\<lparr>fragments := fragments e @ [r]\<rparr>"
    show ?thesis
    proof (cases "resolving r")
      case True
      have "resolves (tcr_request_id r) (\<lambda>e. (?f e)\<lparr>closed := True\<rparr>)"
        by (auto simp: resolves_def own_fragments_def reported_def)
      moreover have "dispatch_event b ev =
          update_entry a (\<lambda>e. (?f e)\<lparr>closed := True\<rparr>) (delete_pending (tcr_request_id r) b)"
        using PE_ToolCallResult Some True assms
        by (simp add: dispatch_event_def routeResult_def Let_def update_delete_commute [symmetric]
            close_updated bridge_wf_pendingD(1,2))
      ultimately show ?thesis by (rule resolve [OF Some])
    next
      case False
      then have "touches (tcr_request_id r) ?f" by (auto simp: touches_def own_fragments_def)
      moreover have "dispatch_event b ev = update_entry a ?f b"
        using PE_ToolCallResult Some False by (simp add: dispatch_event_def routeResult_def Let_def)
      ultimately show ?thesis by (rule touch [OF Some])
    qed
  qed
next
  case PE_None
  then have "dispatch_event b ev = b" by (simp add: dispatch_event_def)
  then show ?thesis by (rule same)
qed

section \<open>The invariant\<close>

text \<open>A call that has an entry and has not given it up, with its id and the address of the entry.\<close>

fun live :: "caller \<Rightarrow> (string \<times> nat) option" where
  "live (Registered call dl i payload a) = Some (i, a)"
| "live (Selecting call w i a) = Some (i, a)"
| "live _ = None"

fun holds_id :: "caller \<Rightarrow> string option" where
  "holds_id (Minted call dl i payload) = Some i"
| "holds_id (Registered call dl i payload a) = Some i"
| "holds_id (Selecting call w i a) = Some i"
| "holds_id (TookGrant call i granted deadline) = Some i"
| "holds_id _ = None"

lemma live_holds_id: "live p = Some (i, a) \<Longrightarrow> holds_id p = Some i"
  by (cases p) auto

text \<open>Bridge and closing list: what \<open>closeAll\<close> still has to close is open and no longer in the map.\<close>

definition inv_bridge :: "ToolCallBridge \<Rightarrow> nat list \<Rightarrow> bool" where
  "inv_bridge b cl \<longleftrightarrow>
     bridge_wf b \<and> distinct cl \<and>
     (\<forall>a \<in> set cl. a < length (store b) \<and> \<not> closed (store b ! a) \<and> (\<forall>i. pending b i \<noteq> Some a)) \<and>
     (\<forall>a < length (store b). closed (store b ! a) \<longrightarrow> reported (store b ! a))"

text \<open>The ids given out so far, from the history of the random source.\<close>

definition issued :: "8 word list option list \<Rightarrow> string set" where
  "issued ds =
     {''adapter-tool-'' @ hex_encode buf | buf. Some buf \<in> set ds} \<union>
     {''adapter-tool-fallback-'' @ dec_nat k | k. 1 \<le> k \<and> k \<le> count_list ds None}"

text \<open>A history in which an id was given out twice: its random bytes came twice, or the fallback counter wrapped around.\<close>

definition repeated :: "8 word list option list \<Rightarrow> string \<Rightarrow> bool" where
  "repeated ds i \<longleftrightarrow>
     (\<exists>buf. i = ''adapter-tool-'' @ hex_encode buf \<and> 2 \<le> count_list ds (Some buf)) \<or> 2 ^ 64 \<le> count_list ds None"

definition inv_ids :: "call_sys \<Rightarrow> bool" where
  "inv_ids s \<longleftrightarrow>
     fallback s = of_nat (count_list (draws s) None) \<and>
     (\<forall>c i. holds_id (callers s c) = Some i \<longrightarrow> i \<in> issued (draws s) \<or> 2 ^ 64 \<le> count_list (draws s) None) \<and>
     (\<forall>c d i. c \<noteq> d \<and> holds_id (callers s c) = Some i \<and> holds_id (callers s d) = Some i \<longrightarrow> repeated (draws s) i)"

text \<open>
  Calls and entries: the entry of a live call is in the map under its id, or about to be closed, or
  closed; it holds only fragments of that call; and the map holds nothing but entries of live calls.
\<close>

definition inv_live :: "ToolCallBridge \<Rightarrow> nat list \<Rightarrow> (nat \<Rightarrow> caller) \<Rightarrow> bool" where
  "inv_live b cl ps \<longleftrightarrow>
     (\<forall>c i a. live (ps c) = Some (i, a) \<longrightarrow>
        a < length (store b) \<and>
        (pending b i = Some a \<or> a \<in> set cl \<or> closed (store b ! a)) \<and>
        (\<forall>x \<in> set (fragments (store b ! a)). tcr_request_id x = i)) \<and>
     (\<forall>c d i j a. live (ps c) = Some (i, a) \<and> live (ps d) = Some (j, a) \<longrightarrow> c = d) \<and>
     (\<forall>i a. pending b i = Some a \<longrightarrow> (\<exists>c. live (ps c) = Some (i, a)))"

definition sys_inv :: "call_sys \<Rightarrow> bool" where
  "sys_inv s \<longleftrightarrow>
     inv_bridge (bridge s) (closing s) \<and> inv_ids s \<and>
     inv_live (bridge s) (closing s) (callers s) \<and> (\<forall>c. callers s c \<noteq> Crashed)"

text \<open>
  The part that holds whatever the random source gives. A select waits on an entry there is, under a context that has a deadline.
\<close>

definition sys_safe :: "call_sys \<Rightarrow> bool" where
  "sys_safe s \<longleftrightarrow>
     inv_bridge (bridge s) (closing s) \<and> inv_ids s \<and> (\<forall>c. callers s c \<noteq> Crashed) \<and>
     (\<forall>c i a. live (callers s c) = Some (i, a) \<longrightarrow> a < length (store (bridge s))) \<and>
     (\<forall>c call dl i a. callers s c = Selecting call dl i a \<longrightarrow> dl \<noteq> None)"

lemma sys_inv_init: "sys_inv init_sys"
  by (simp add: sys_inv_def inv_bridge_def inv_ids_def inv_live_def init_sys_def)
    (simp add: NewToolCallBridge_def)

section \<open>The bridge part of the invariant\<close>

lemma inv_bridge_register: "inv_bridge b cl \<Longrightarrow> inv_bridge (snd (register i b)) cl"
  using bridge_wf_register [of b i]
  by (auto simp: inv_bridge_def register_def nth_append fresh_entry_def less_Suc_eq)

lemma inv_bridge_delete: "inv_bridge b cl \<Longrightarrow> inv_bridge (delete_pending i b) cl"
  using bridge_wf_delete [of b i] by (auto simp: inv_bridge_def)

lemma inv_bridge_cache: "inv_bridge b cl \<Longrightarrow> inv_bridge (cacheUnsupported sid b) cl"
  using bridge_wf_cache [of b sid] by (auto simp: inv_bridge_def cacheUnsupported_def)

lemma inv_bridge_pendingD:
  assumes "inv_bridge b cl" "pending b i = Some a"
  shows "a < length (store b)" "\<not> closed (store b ! a)" "a \<notin> set cl"
  using assms bridge_wf_pendingD(1,2) [of b i a] by (auto simp: inv_bridge_def)

lemma inv_bridge_touch:
  assumes "inv_bridge b cl" "pending b i = Some a" "touches i f"
  shows "inv_bridge (update_entry a f b) cl"
proof -
  have "bridge_wf (update_entry a f b)"
    using assms by (intro bridge_wf_update) (auto simp: inv_bridge_def touches_def bridge_wf_pendingD)
  then show ?thesis
    using assms inv_bridge_pendingD [OF assms(1,2)]
    by (auto simp: inv_bridge_def store_update_entry touches_def)
qed

lemma bridge_wf_update_resolved:
  assumes "bridge_wf b" "\<forall>j. pending b j \<noteq> Some a"
  shows "bridge_wf (update_entry a f b)"
proof -
  have "store (update_entry a f b) ! c = store b ! c" if "pending b i = Some c" for i c
    using assms(2) that by (cases "c = a") (auto simp: update_entry_def)
  with assms(1) show ?thesis by (auto simp: bridge_wf_def)
qed

lemma inv_bridge_resolve:
  assumes "inv_bridge b cl" "pending b i = Some a" "resolves i f"
  shows "inv_bridge (update_entry a f (delete_pending i b)) cl"
proof -
  have wf: "bridge_wf b" using assms(1) by (simp add: inv_bridge_def)
  have "bridge_wf (update_entry a f (delete_pending i b))"
    using deleted_address [OF wf assms(2)]
    by (intro bridge_wf_update_resolved bridge_wf_delete [OF wf]) simp
  then show ?thesis
    using assms inv_bridge_pendingD [OF assms(1,2)]
    by (auto simp: inv_bridge_def store_update_entry resolves_def)
qed

lemma inv_bridge_dispatch:
  assumes "inv_bridge b cl"
  shows "inv_bridge (dispatch_event b ev) cl"
proof -
  have "bridge_wf b" using assms by (simp add: inv_bridge_def)
  then show ?thesis
    by (cases rule: dispatch_cases [of b ev])
      (simp_all add: assms inv_bridge_touch [OF assms] inv_bridge_resolve [OF assms])
qed

lemma inv_bridge_collect:
  assumes "inv_bridge b cl" "distinct ids" "set ids = dom (pending b)"
  shows "inv_bridge (snd (closeAll_collect ids b)) (cl @ fst (closeAll_collect ids b))"
proof -
  have wf: "bridge_wf b" using assms(1) by (simp add: inv_bridge_def)
  have empty: "pending (snd (closeAll_collect ids b)) = Map.empty"
    using assms(3) by (auto simp: closeAll_collect_def fun_eq_iff)
  have "set cl \<inter> ran (pending b) = {}"
    using assms(1) by (auto simp: inv_bridge_def ran_def)
  moreover have "range_order ids (pending b)" using assms(2,3) by (simp add: range_order_def)
  ultimately show ?thesis
    using collect_addresses [OF _ wf, of ids] assms(1) empty
    by (auto simp: inv_bridge_def bridge_wf_def closeAll_collect_def ran_def)
qed

lemma close_entry_open:
  "a < length (store b) \<Longrightarrow> \<not> closed (store b ! a) \<Longrightarrow>
   close_entry a b =
     update_entry a (\<lambda>e. e\<lparr>entry_err := Some (Sentinel ErrPermissionsClosed), closed := True\<rparr>) b"
  by (simp add: close_entry_def close_updated)

lemma inv_bridge_close:
  assumes "inv_bridge b cl" "a \<in> set cl"
  shows "inv_bridge (close_entry a b) (remove1 a cl)"
proof -
  have a: "a < length (store b)" "\<not> closed (store b ! a)" "\<forall>i. pending b i \<noteq> Some a"
    using assms by (auto simp: inv_bridge_def)
  have "bridge_wf (close_entry a b)"
    using assms(1) a by (simp add: close_entry_open bridge_wf_update_resolved inv_bridge_def)
  with assms(1) a show ?thesis
    by (auto simp: inv_bridge_def close_entry_open store_update_entry reported_def)
qed

section \<open>The part about calls\<close>

lemma inv_live_callers:
  assumes "\<And>c. live (ps' c) = live (ps c)"
  shows "inv_live b cl ps' = inv_live b cl ps"
  by (simp add: inv_live_def assms)

lemma live_unique:
  assumes "inv_live b cl ps" "pending b i = Some a" "live (ps c) = Some (j, a)"
  shows "j = i"
proof -
  obtain d where "live (ps d) = Some (i, a)" using assms(1,2) unfolding inv_live_def by blast
  moreover from this assms(1,3) have "d = c" unfolding inv_live_def by blast
  ultimately show ?thesis using assms(3) by simp
qed

lemma inv_liveD:
  assumes "inv_live b cl ps" "live (ps c) = Some (i, a)"
  shows "a < length (store b)" "pending b i = Some a \<or> a \<in> set cl \<or> closed (store b ! a)"
    and "x \<in> set (fragments (store b ! a)) \<Longrightarrow> tcr_request_id x = i"
  using assms unfolding inv_live_def by blast+

lemma inv_live_same:
  assumes "inv_live b cl ps" "live (ps c) = Some (i, a)" "live (ps d) = Some (j, a)"
  shows "c = d"
  using assms unfolding inv_live_def by blast

lemma inv_live_pending:
  assumes "inv_live b cl ps" "pending b i = Some a"
  obtains c where "live (ps c) = Some (i, a)"
  using assms unfolding inv_live_def by blast

lemma inv_liveI:
  assumes "\<And>c i a. live (ps c) = Some (i, a) \<Longrightarrow> a < length (store b)"
    and "\<And>c i a. live (ps c) = Some (i, a) \<Longrightarrow> pending b i = Some a \<or> a \<in> set cl \<or> closed (store b ! a)"
    and "\<And>c i a x. live (ps c) = Some (i, a) \<Longrightarrow> x \<in> set (fragments (store b ! a)) \<Longrightarrow> tcr_request_id x = i"
    and "\<And>c d i j a. live (ps c) = Some (i, a) \<Longrightarrow> live (ps d) = Some (j, a) \<Longrightarrow> c = d"
    and "\<And>i a. pending b i = Some a \<Longrightarrow> \<exists>c. live (ps c) = Some (i, a)"
  shows "inv_live b cl ps"
  unfolding inv_live_def
proof (intro conjI allI impI ballI)
  fix c i a
  assume "live (ps c) = Some (i, a)"
  from assms(1,2,3) [OF this]
  show "a < length (store b)" "pending b i = Some a \<or> a \<in> set cl \<or> closed (store b ! a)"
    "\<And>x. x \<in> set (fragments (store b ! a)) \<Longrightarrow> tcr_request_id x = i" .
next
  fix c d i j a
  assume "live (ps c) = Some (i, a) \<and> live (ps d) = Some (j, a)"
  then show "c = d" using assms(4) by blast
next
  fix i a
  assume "pending b i = Some a"
  then show "\<exists>c. live (ps c) = Some (i, a)" by (rule assms(5))
qed

lemma inv_live_touch:
  assumes inv: "inv_live b cl ps" and a: "pending b i = Some a" "a < length (store b)"
    and f: "touches i f"
  shows "inv_live (update_entry a f b) cl ps"
proof (rule inv_liveI)
  fix c j x r
  assume live: "live (ps c) = Some (j, x)"
  show "x < length (store (update_entry a f b))" using inv_liveD(1) [OF inv live] by simp
  show "pending (update_entry a f b) j = Some x \<or> x \<in> set cl \<or> closed (store (update_entry a f b) ! x)"
    using inv_liveD(2) [OF inv live] f a by (auto simp: store_update_entry touches_def)
  show "tcr_request_id r = j" if "r \<in> set (fragments (store (update_entry a f b) ! x))"
  proof (cases "x = a")
    case True
    with live_unique [OF inv a(1)] live have "j = i" by simp
    with that True f a inv_liveD(3) [OF inv live] show ?thesis
      by (auto simp: store_update_entry touches_def own_fragments_def)
  next
    case False
    with that a inv_liveD(3) [OF inv live] show ?thesis by (simp add: store_update_entry)
  qed
next
  show "c = d" if "live (ps c) = Some (i, a)" "live (ps d) = Some (j, a)" for c d i j a
    using inv_live_same [OF inv that] .
  show "\<exists>c. live (ps c) = Some (i, x)" if "pending (update_entry a f b) i = Some x" for i x
    using inv_live_pending [OF inv, of i x] that by auto
qed

lemma inv_live_resolve:
  assumes inv: "inv_live b cl ps" and a: "pending b i = Some a" "a < length (store b)"
    and f: "resolves i f"
  shows "inv_live (update_entry a f (delete_pending i b)) cl ps"
proof (rule inv_liveI)
  let ?b = "update_entry a f (delete_pending i b)"
  fix c j x r
  assume live: "live (ps c) = Some (j, x)"
  show "x < length (store ?b)" using inv_liveD(1) [OF inv live] by simp
  show "pending ?b j = Some x \<or> x \<in> set cl \<or> closed (store ?b ! x)"
    using inv_liveD(2) [OF inv live] f a by (auto simp: store_update_entry resolves_def)
  show "tcr_request_id r = j" if "r \<in> set (fragments (store ?b ! x))"
  proof (cases "x = a")
    case True
    with live_unique [OF inv a(1)] live have "j = i" by simp
    with that True f a inv_liveD(3) [OF inv live] show ?thesis
      by (auto simp: store_update_entry resolves_def own_fragments_def)
  next
    case False
    with that a inv_liveD(3) [OF inv live] show ?thesis by (simp add: store_update_entry)
  qed
next
  show "c = d" if "live (ps c) = Some (i, a)" "live (ps d) = Some (j, a)" for c d i j a
    using inv_live_same [OF inv that] .
  show "\<exists>c. live (ps c) = Some (j, x)" if "pending (update_entry a f (delete_pending i b)) j = Some x" for j x
    using inv_live_pending [OF inv, of j x] that by (auto split: if_splits)
qed

lemma inv_live_dispatch:
  assumes "inv_live b cl ps" "bridge_wf b"
  shows "inv_live (dispatch_event b ev) cl ps"
  using assms(2)
proof (cases rule: dispatch_cases [of b ev])
  case same
  with assms show ?thesis by simp
next
  case (touch i a f)
  with assms show ?thesis by (simp add: inv_live_touch bridge_wf_pendingD(1))
next
  case (resolve i a f)
  with assms show ?thesis by (simp add: inv_live_resolve bridge_wf_pendingD(1))
qed

text \<open>A call gets its entry: nobody else has its id, so the map has no entry under it.\<close>

lemma inv_live_register:
  assumes inv: "inv_live b cl ps" and p: "live p = Some (i, length (store b))"
    and c: "live (ps c) = None" and fresh: "\<And>d. d \<noteq> c \<Longrightarrow> holds_id (ps d) \<noteq> Some i"
    and cl: "\<And>a. a \<in> set cl \<Longrightarrow> a < length (store b)"
  shows "inv_live (snd (register i b)) cl (ps(c := p))"
proof -
  have other: "d \<noteq> c \<Longrightarrow> live (ps d) = Some (j, a) \<Longrightarrow> j \<noteq> i \<and> a < length (store b)" for d j a
    using fresh live_holds_id inv_liveD(1) [OF inv] by metis
  have none: "pending b j = Some a \<Longrightarrow> \<exists>d. d \<noteq> c \<and> live (ps d) = Some (j, a)" for j a
    using inv_live_pending [OF inv] c by (metis option.distinct(1))
  let ?b = "snd (register i b)" and ?ps = "ps(c := p)"
  have new: "live (?ps d) = Some (j, a) \<Longrightarrow>
      (d = c \<and> j = i \<and> a = length (store b)) \<or> (d \<noteq> c \<and> live (ps d) = Some (j, a))" for d j a
    using p by (auto split: if_splits)
  have st: "store ?b ! a = (if a = length (store b) then fresh_entry else store b ! a)"
    if "a \<le> length (store b)" for a
    using that by (simp add: register_def nth_append)
  have pend: "pending ?b = (pending b)(i \<mapsto> length (store b))" "length (store ?b) = Suc (length (store b))"
    by (simp_all add: register_def)
  show ?thesis
  proof (rule inv_liveI)
    fix d j a r
    assume "live (?ps d) = Some (j, a)"
    note d = new [OF this]
    show "a < length (store ?b)" using d other pend by (auto simp: less_SucI)
    show "pending ?b j = Some a \<or> a \<in> set cl \<or> closed (store ?b ! a)"
      using d other [of d j a] inv_liveD(2) [OF inv, of d j a] by (auto simp: pend st)
    show "r \<in> set (fragments (store ?b ! a)) \<Longrightarrow> tcr_request_id r = j"
      using d other [of d j a] inv_liveD(3) [OF inv, of d j a r] by (auto simp: st fresh_entry_def)
    show "d = e" if "live (?ps e) = Some (k, a)" for e k
      using d new [OF that] other inv_live_same [OF inv, of d j a e k] by auto
  next
    fix j a
    assume "pending ?b j = Some a"
    then show "\<exists>d. live (?ps d) = Some (j, a)"
      using p none [of j a] by (auto simp: pend split: if_splits)
  qed
qed

text \<open>A call gives its entry up: with it the map entry of its id goes.\<close>

lemma inv_live_drop:
  assumes inv: "inv_live b cl ps" and p: "live p = None"
    and fresh: "\<And>d. d \<noteq> c \<Longrightarrow> holds_id (ps d) \<noteq> Some i"
    and only: "\<And>a j. live (ps c) = Some (j, a) \<Longrightarrow> j = i"
  shows "inv_live (delete_pending i b) cl (ps(c := p))"
proof -
  have other: "d \<noteq> c \<Longrightarrow> live (ps d) = Some (j, a) \<Longrightarrow> j \<noteq> i" for d j a
    using fresh live_holds_id by metis
  show ?thesis
  proof (rule inv_liveI)
    fix d j a r
    assume d: "live ((ps(c := p)) d) = Some (j, a)"
    then have dc: "d \<noteq> c" and live: "live (ps d) = Some (j, a)" using p by (auto split: if_splits)
    show "a < length (store (delete_pending i b))" using inv_liveD(1) [OF inv live] by simp
    show "pending (delete_pending i b) j = Some a \<or> a \<in> set cl \<or> closed (store (delete_pending i b) ! a)"
      using inv_liveD(2) [OF inv live] other [OF dc live] by simp
    show "r \<in> set (fragments (store (delete_pending i b) ! a)) \<Longrightarrow> tcr_request_id r = j"
      using inv_liveD(3) [OF inv live] by simp
    show "d = e" if "live ((ps(c := p)) e) = Some (k, a)" for e k
      using inv_live_same [OF inv live] that p by (auto split: if_splits)
  next
    fix j a
    assume "pending (delete_pending i b) j = Some a"
    then have j: "j \<noteq> i" "pending b j = Some a" by (auto split: if_splits)
    then obtain d where "live (ps d) = Some (j, a)" using inv_live_pending [OF inv] by blast
    moreover from this only j(1) have "d \<noteq> c" by blast
    ultimately show "\<exists>d. live ((ps(c := p)) d) = Some (j, a)" by auto
  qed
qed

lemma inv_live_collect:
  assumes "inv_live b cl ps" "set ids = dom (pending b)" "distinct ids" "bridge_wf b"
  shows "inv_live (snd (closeAll_collect ids b)) (cl @ fst (closeAll_collect ids b)) ps"
proof (intro inv_liveI)
  fix c i a r
  assume live: "live (ps c) = Some (i, a)"
  note facts = inv_liveD [OF assms(1) live]
  show "a < length (store (snd (closeAll_collect ids b)))"
    using facts(1) by (simp add: closeAll_collect_def)
  show "pending (snd (closeAll_collect ids b)) i = Some a \<or>
      a \<in> set (cl @ fst (closeAll_collect ids b)) \<or> closed (store (snd (closeAll_collect ids b)) ! a)"
    using facts(2) collect_addresses(2) [of ids b] assms(2,3,4) by (auto simp: closeAll_collect_def ran_def range_order_def)
  show "r \<in> set (fragments (store (snd (closeAll_collect ids b)) ! a)) \<Longrightarrow> tcr_request_id r = i"
    using facts(3) by (simp add: closeAll_collect_def)
  show "c = d" if "live (ps d) = Some (j, a)" for d j
    using inv_live_same [OF assms(1) live that] .
next
  show "\<exists>c. live (ps c) = Some (i, a)" if "pending (snd (closeAll_collect ids b)) i = Some a" for i a
    using that assms(2) by (auto simp: closeAll_collect_def split: if_splits)
qed

lemma inv_live_close:
  assumes inv: "inv_live b cl ps" and a: "a < length (store b)" "\<not> closed (store b ! a)"
  shows "inv_live (close_entry a b) (remove1 a cl) ps"
proof (rule inv_liveI)
  fix c i x r
  assume live: "live (ps c) = Some (i, x)"
  note facts = inv_liveD [OF inv live]
  show "x < length (store (close_entry a b))" using facts(1) a by (simp add: close_entry_open)
  show "pending (close_entry a b) i = Some x \<or> x \<in> set (remove1 a cl) \<or> closed (store (close_entry a b) ! x)"
    using facts(2) a by (auto simp: close_entry_open store_update_entry in_set_remove1)
  show "r \<in> set (fragments (store (close_entry a b) ! x)) \<Longrightarrow> tcr_request_id r = i"
    using facts(3) a by (auto simp: close_entry_open store_update_entry split: if_splits)
  show "c = d" if "live (ps d) = Some (j, x)" for d j
    using inv_live_same [OF inv live that] .
next
  show "\<exists>c. live (ps c) = Some (i, x)" if "pending (close_entry a b) i = Some x" for i x
    using that inv_live_pending [OF inv, of i x] a by (auto simp: close_entry_open)
qed

section \<open>The part about ids\<close>

lemma issued_snoc:
  "issued (ds @ [Some buf]) = insert (''adapter-tool-'' @ hex_encode buf) (issued ds)"
  "issued (ds @ [None]) =
     insert (''adapter-tool-fallback-'' @ dec_nat (Suc (count_list ds None))) (issued ds)"
  by (auto simp: issued_def le_Suc_eq)

lemma count_snoc_simps [simp]:
  "count_list (ds @ [Some buf]) None = count_list ds None"
  "count_list (ds @ [None]) None = Suc (count_list ds None)"
  by simp_all

text \<open>The id of a draw is one of those issued, and if it was issued before it is a repeated one.\<close>

lemma repeated_mono: "repeated ds i \<Longrightarrow> repeated (ds @ es) i"
  by (fastforce simp: repeated_def)

lemma issued_mono: "i \<in> issued ds \<Longrightarrow> i \<in> issued (ds @ es)"
  by (fastforce simp: issued_def)

lemma new_id:
  assumes "n = of_nat (count_list ds None)" "newToolCallRequestID rnd n = (i, n')"
  shows "n' = of_nat (count_list (ds @ [rnd]) None)"
    and "i \<in> issued (ds @ [rnd]) \<or> 2 ^ 64 \<le> count_list (ds @ [rnd]) None"
    and "i \<in> issued ds \<or> 2 ^ 64 \<le> count_list ds None \<Longrightarrow> repeated (ds @ [rnd]) i"
proof -
  let ?k = "count_list ds None"
  have "n' = of_nat (count_list (ds @ [rnd]) None) \<and>
    (i \<in> issued (ds @ [rnd]) \<or> 2 ^ 64 \<le> count_list (ds @ [rnd]) None) \<and>
    (i \<in> issued ds \<or> 2 ^ 64 \<le> count_list ds None \<longrightarrow> repeated (ds @ [rnd]) i)"
  proof (cases rnd)
    case (Some buf)
    have "1 \<le> count_list ds (Some buf)" if "Some buf \<in> set ds" for buf
      using that by (metis count_list_0_iff less_one not_le)
    with Some assms show ?thesis
      by (auto simp: issued_snoc repeated_def)
        (auto simp: issued_def hex_encode_inject random_id_not_fallback [simplified])
  next
    case None
    show ?thesis
    proof (cases "Suc ?k < 2 ^ 64")
      case True
      have "n + 1 = of_nat (Suc ?k)" by (simp add: assms(1))
      with True have "unat (n + 1) = Suc ?k" by (simp only: unat_of_nat) simp
      with assms None True show ?thesis
        by (auto simp: issued_snoc) (auto simp: issued_def random_id_not_fallback [symmetric, simplified])
    next
      case False
      with assms None show ?thesis by (auto simp: repeated_def)
    qed
  qed
  then show "n' = of_nat (count_list (ds @ [rnd]) None)"
    "i \<in> issued (ds @ [rnd]) \<or> 2 ^ 64 \<le> count_list (ds @ [rnd]) None"
    "i \<in> issued ds \<or> 2 ^ 64 \<le> count_list ds None \<Longrightarrow> repeated (ds @ [rnd]) i"
    by blast+
qed

text \<open>With a fresh history no two calls hold the same id.\<close>

lemma fresh_not_repeated: "draws_fresh ds \<Longrightarrow> \<not> repeated ds i"
proof -
  have "count_list xs (Some x) \<le> 1" if "distinct (filter (\<lambda>d. d \<noteq> None) xs)" for xs and x :: "8 word list"
    using that by (induction xs) (auto simp: count_list_0_iff split: if_splits)
  then show "draws_fresh ds \<Longrightarrow> \<not> repeated ds i"
    unfolding draws_fresh_def repeated_def by (metis not_less numeral_le_one_iff order_trans semiring_norm(69))
qed

lemma ids_apart:
  assumes "inv_ids s" "draws_fresh (draws s)" "holds_id (callers s c) = Some i" "holds_id (callers s d) = Some i"
  shows "c = d"
  using assms fresh_not_repeated unfolding inv_ids_def by blast

lemma inv_ids_set_caller:
  assumes "inv_ids s" "holds_id p = None \<or> holds_id p = holds_id (callers s c)"
    and "draws t = draws s" "fallback t = fallback s" "callers t = (callers s)(c := p)"
  shows "inv_ids t"
proof -
  have "holds_id (callers t d) = Some i \<Longrightarrow> holds_id (callers s d) = Some i" for d i
    using assms(2,5) by (auto split: if_splits)
  with assms(1,3,4) show ?thesis unfolding inv_ids_def by metis
qed

lemma inv_ids_callers:
  assumes "inv_ids s" "draws t = draws s" "fallback t = fallback s" "callers t = callers s"
  shows "inv_ids t"
  using assms by (simp add: inv_ids_def)

lemma inv_ids_mint:
  assumes inv: "inv_ids s" and id: "newToolCallRequestID rnd (fallback s) = (i, n)"
    and p: "holds_id p = None \<or> holds_id p = Some i"
  shows "inv_ids (set_caller c p (s\<lparr>fallback := n, draws := draws s @ [rnd]\<rparr>))"
proof -
  have counter: "fallback s = of_nat (count_list (draws s) None)" using inv by (simp add: inv_ids_def)
  note new = new_id [OF counter id]
  let ?t = "set_caller c p (s\<lparr>fallback := n, draws := draws s @ [rnd]\<rparr>)"
  have old: "holds_id (callers s d) = Some j \<Longrightarrow> j \<in> issued (draws s) \<or> 2 ^ 64 \<le> count_list (draws s) None" for d j
    using inv unfolding inv_ids_def by blast
  have apart: "d \<noteq> e \<Longrightarrow> holds_id (callers s d) = Some j \<Longrightarrow> holds_id (callers s e) = Some j \<Longrightarrow> repeated (draws s @ [rnd]) j"
    for d e j
    using inv repeated_mono unfolding inv_ids_def by blast
  have now: "holds_id (callers ?t d) = Some j \<Longrightarrow>
      d = c \<and> j = i \<or> d \<noteq> c \<and> holds_id (callers s d) = Some j" for d j
    using p by (auto simp: set_caller_def split: if_splits)
  have draws_t: "draws ?t = draws s @ [rnd]" "fallback ?t = n"
    by (simp_all add: set_caller_def)
  have "j \<in> issued (draws s @ [rnd]) \<or> 2 ^ 64 \<le> count_list (draws s @ [rnd]) None"
    if "holds_id (callers ?t d) = Some j" for d j
    using now [OF that] old [of d j] new(2) issued_mono [of j "draws s" "[rnd]"] by auto
  moreover have "repeated (draws s @ [rnd]) j"
    if "d \<noteq> e" "holds_id (callers ?t d) = Some j" "holds_id (callers ?t e) = Some j" for d e j
    using now [OF that(2)] now [OF that(3)] that(1) old new(3) apart by blast
  ultimately show ?thesis
    unfolding inv_ids_def draws_t using new(1) by blast
qed

section \<open>Every step keeps the invariant\<close>

lemma call_begin_states:
  "live (call_begin b ctx sink call) = None" "holds_id (call_begin b ctx sink call) = None"
  "call_begin b ctx sink call \<noteq> Crashed"
  by (auto simp: call_begin_def split: option.splits)

lemma call_payload_states:
  "live (call_payload env call dl i) = None"
  "holds_id (call_payload env call dl i) = None \<or> holds_id (call_payload env call dl i) = Some i"
  "call_payload env call dl i \<noteq> Crashed"
  by (auto simp: call_payload_def split: sum.splits)

lemma finishToolCall_reported: "reported e \<Longrightarrow> finishToolCall join call e \<noteq> None"
  by (auto simp: reported_def finishToolCall_def Let_def split: option.splits list.splits sum.splits)

lemma call_resolved_states:
  "reported e \<Longrightarrow> call_resolved env call e \<noteq> Crashed"
  "live (call_resolved env call e) = None" "holds_id (call_resolved env call e) = None"
  using finishToolCall_reported [of e]
  by (auto simp: call_resolved_def split: option.splits)

lemma set_caller_simps [simp]:
  "bridge (set_caller c p s) = bridge s" "closing (set_caller c p s) = closing s"
  "callers (set_caller c p s) = (callers s)(c := p)" "draws (set_caller c p s) = draws s"
  "fallback (set_caller c p s) = fallback s" "sent (set_caller c p s) = sent s"
  "clock (set_caller c p s) = clock s" "ctx_ended (set_caller c p s) = ctx_ended s"
  by (simp_all add: set_caller_def)

text \<open>A step that moves one call from a point with no entry to another such point, bridge untouched.\<close>

lemma sys_inv_move:
  assumes "sys_inv s" "live p = None" "live (callers s c) = None" "p \<noteq> Crashed"
    and "bridge t = bridge s" "closing t = closing s" "callers t = (callers s)(c := p)" "inv_ids t"
  shows "sys_inv t"
proof -
  have "inv_live (bridge s) (closing s) ((callers s)(c := p)) =
      inv_live (bridge s) (closing s) (callers s)"
    by (rule inv_live_callers) (simp add: assms(2,3))
  with assms show ?thesis by (simp add: sys_inv_def)
qed

text \<open>A step that ends the claim of a call on its entry and drops its id from the map.\<close>

lemma sys_inv_drop:
  assumes inv: "sys_inv s" "draws_fresh (draws s)" and p: "live p = None" "p \<noteq> Crashed"
    and i: "holds_id (callers s c) = Some i"
    and t: "bridge t = delete_pending i (bridge s)" "closing t = closing s"
      "callers t = (callers s)(c := p)" "inv_ids t"
  shows "sys_inv t"
proof -
  have "holds_id (callers s d) \<noteq> Some i" if "d \<noteq> c" for d
    using ids_apart [of s c i d] inv i that by (auto simp: sys_inv_def)
  moreover have "j = i" if "live (callers s c) = Some (j, a)" for j a
    using live_holds_id [OF that] i by simp
  ultimately have "inv_live (delete_pending i (bridge s)) (closing s) ((callers s)(c := p))"
    using inv p by (intro inv_live_drop) (auto simp: sys_inv_def)
  with inv p t show ?thesis by (simp add: sys_inv_def inv_bridge_delete)
qed

lemma sys_inv_ids: "sys_inv s \<Longrightarrow> inv_ids s"
  by (simp add: sys_inv_def)

lemma sys_inv_Call:
  assumes inv: "sys_inv s" and step: "sys_step env s (Call c ctx sink call) = Some t"
  shows "sys_inv t"
proof -
  from step have c: "callers s c = Idle"
    and t: "t = set_caller c (call_begin (bridge s) ctx sink call) s"
    by (auto split: caller.splits)
  have "inv_ids t"
    using t
    by (intro inv_ids_set_caller [OF sys_inv_ids [OF inv], of "call_begin (bridge s) ctx sink call" c])
      (simp_all add: sys_inv_def call_begin_states)
  then show ?thesis
    using c t
    by (intro sys_inv_move [OF inv, of "call_begin (bridge s) ctx sink call" c t])
      (simp_all add: call_begin_states)
qed

lemma sys_inv_Mint:
  assumes "sys_inv s" "sys_step env s (Mint c rnd) = Some t"
  shows "sys_inv t"
proof -
  obtain i n where id: "newToolCallRequestID rnd (fallback s) = (i, n)" by force
  from assms(2) id obtain call dl where c: "callers s c = Checked call dl"
    and t: "t = set_caller c (call_payload env call dl i) (s\<lparr>fallback := n, draws := draws s @ [rnd]\<rparr>)"
    by (auto split: caller.splits)
  have "inv_ids t"
    unfolding t
    by (rule inv_ids_mint [OF sys_inv_ids [OF assms(1)] id]) (rule call_payload_states)
  then show ?thesis
    using c t by (intro sys_inv_move [OF assms(1), of "call_payload env call dl i" c t])
      (simp_all add: call_payload_states)
qed

lemma sys_inv_Register:
  assumes inv: "sys_inv s" and fresh: "draws_fresh (draws s)" and step: "sys_step env s (Register c) = Some t"
  shows "sys_inv t"
proof -
  from step obtain call dl i payload where c: "callers s c = Minted call dl i payload"
    and t: "t = set_caller c (Registered call dl i payload (length (store (bridge s))))
      (s\<lparr>bridge := snd (register i (bridge s))\<rparr>)"
    by (auto simp: register_def split: caller.splits)
  have "holds_id (callers s d) \<noteq> Some i" if "d \<noteq> c" for d
    using ids_apart [OF sys_inv_ids [OF inv] fresh, of c i d] c that by auto
  then have "inv_live (bridge t) (closing t) (callers t)"
    using inv c unfolding t
    by (simp add: sys_inv_def) (intro inv_live_register, auto simp: inv_bridge_def)
  moreover have "inv_ids t"
    using inv c unfolding t
    by (intro inv_ids_set_caller [OF sys_inv_ids [OF inv], of "Registered call dl i payload (length (store (bridge s)))" c])
      (simp_all add: sys_inv_def)
  ultimately show ?thesis
    using inv unfolding t by (simp add: sys_inv_def inv_bridge_register)
qed

lemma sys_inv_SinkSend:
  assumes inv: "sys_inv s" and fresh: "draws_fresh (draws s)" and step: "sys_step env s (SinkSend c err) = Some t"
  shows "sys_inv t"
proof -
  from step obtain call dl i payload a where c: "callers s c = Registered call dl i payload a"
    by (auto split: caller.splits)
  show ?thesis
  proof (cases err)
    case None
    with step c have t: "bridge t = bridge s" "closing t = closing s" "draws t = draws s"
      "fallback t = fallback s"
      "callers t = (callers s)(c := Selecting call (call_bound (clock s) dl call) i a)"
      by (auto simp: call_sent_def)
    have "inv_ids t"
      using inv c t
      by (intro inv_ids_set_caller [OF sys_inv_ids [OF inv], of "Selecting call (call_bound (clock s) dl call) i a" c])
        (simp_all add: sys_inv_def)
    moreover have "live (callers t d) = live (callers s d)" for d
      using t c by simp
    ultimately show ?thesis
      using inv t inv_live_callers [of "callers t" "callers s"] by (simp add: sys_inv_def)
  next
    case (Some e)
    with step c obtain r where t: "bridge t = delete_pending i (bridge s)" "closing t = closing s"
      "draws t = draws s" "fallback t = fallback s" "callers t = (callers s)(c := Finished r)"
      by (auto simp: call_sent_def remove_def)
    have "inv_ids t"
      using inv t by (intro inv_ids_set_caller [OF sys_inv_ids [OF inv], of "Finished r" c]) (simp_all add: sys_inv_def)
    then show ?thesis using c t by (intro sys_inv_drop [OF inv fresh, of "Finished r" c i t]) simp_all
  qed
qed

lemma sys_inv_WakeDone:
  assumes inv: "sys_inv s" and fresh: "draws_fresh (draws s)" and step: "sys_step env s (WakeDone c) = Some t"
  shows "sys_inv t"
proof -
  from step obtain call w i a where c: "callers s c = Selecting call w i a"
    and closed: "closed (store (bridge s) ! a)"
    and t: "t = set_caller c (call_resolved env call (store (bridge s) ! a)) s"
    by (auto split: caller.splits if_splits)
  let ?p = "call_resolved env call (store (bridge s) ! a)"
  have live: "live (callers s c) = Some (i, a)" using c by simp
  have il: "inv_live (bridge s) (closing s) (callers s)" and ib: "inv_bridge (bridge s) (closing s)"
    using inv by (simp_all add: sys_inv_def)
  have "a < length (store (bridge s))" using inv_liveD(1) [OF il live] .
  with ib closed have reported: "reported (store (bridge s) ! a)" by (simp add: inv_bridge_def)
  have "pending (bridge s) i = None"
  proof (rule ccontr)
    assume "pending (bridge s) i \<noteq> None"
    then obtain x where x: "pending (bridge s) i = Some x" by blast
    then obtain d where "live (callers s d) = Some (i, x)" using inv_live_pending [OF il] by blast
    moreover from this live have "d = c"
      using ids_apart [OF sys_inv_ids [OF inv] fresh] live_holds_id by metis
    ultimately have "x = a" using live by simp
    with x closed inv_bridge_pendingD(2) [OF ib] show False by blast
  qed
  then have "bridge s = delete_pending i (bridge s)"
    by (simp add: delete_pending_def fun_upd_idem)
  moreover have "inv_ids t"
    using inv t by (intro inv_ids_set_caller [OF sys_inv_ids [OF inv], of ?p c]) (simp_all add: sys_inv_def call_resolved_states)
  ultimately show ?thesis
    using c t by (intro sys_inv_drop [OF inv fresh, of ?p c i t])
      (simp_all add: call_resolved_states reported)
qed

lemma sys_inv_WakeCtx:
  assumes inv: "sys_inv s" and fresh: "draws_fresh (draws s)" and step: "sys_step env s (WakeCtx c deadline) = Some t"
  shows "sys_inv t"
proof -
  from step obtain call w i a where c: "callers s c = Selecting call w i a"
    by (auto split: caller.splits)
  with step obtain g where t: "bridge t = delete_pending i (bridge s)" "closing t = closing s"
    "draws t = draws s" "fallback t = fallback s"
    "callers t = (callers s)(c := TookGrant call i g deadline)"
    by (auto simp: call_ctx_done_def takeGrant_def split: if_splits)
  have "inv_ids t"
    using inv c t
    by (intro inv_ids_set_caller [OF sys_inv_ids [OF inv], of "TookGrant call i g deadline" c]) (simp_all add: sys_inv_def)
  then show ?thesis
    using c t by (intro sys_inv_drop [OF inv fresh, of "TookGrant call i g deadline" c i t]) simp_all
qed

lemma sys_inv_AfterGrant:
  assumes inv: "sys_inv s" and fresh: "draws_fresh (draws s)" and step: "sys_step env s (AfterGrant c) = Some t"
  shows "sys_inv t"
proof -
  from step obtain call i g deadline where c: "callers s c = TookGrant call i g deadline"
    by (auto split: caller.splits)
  from step c obtain r where callers: "callers t = (callers s)(c := Finished r)" "closing t = closing s"
    "draws t = draws s" "fallback t = fallback s"
    by (auto simp: call_after_grant_def split: if_splits)
  have ids: "inv_ids t"
    using inv callers by (intro inv_ids_set_caller [OF sys_inv_ids [OF inv], of "Finished r" c]) (simp_all add: sys_inv_def)
  show ?thesis
  proof (cases "g \<and> deadline")
    case True
    with step c have b: "bridge t = cacheUnsupported (SessionID call) (bridge s)"
      by (auto simp: call_after_grant_def)
    have "inv_live (bridge s) (closing s) (callers t)"
      using inv callers c inv_live_callers [of "callers t" "callers s"] by (simp add: sys_inv_def)
    then have "inv_live (bridge t) (closing t) (callers t)"
      by (simp add: b callers inv_live_def cacheUnsupported_def)
    with inv ids b callers show ?thesis by (simp add: sys_inv_def inv_bridge_cache)
  next
    case False
    with step c have "bridge t = delete_pending i (bridge s)"
      by (auto simp: call_after_grant_def remove_def)
    with ids c callers show ?thesis
      by (intro sys_inv_drop [OF inv fresh, of "Finished r" c i t]) simp_all
  qed
qed

lemma sys_inv_dispatch_side:
  assumes "sys_inv s"
  shows "sys_step env s (Dispatch ev) = Some t \<Longrightarrow> sys_inv t"
    and "sys_step env s (StreamEnd ids) = Some t \<Longrightarrow> sys_inv t"
    and "sys_step env s (CloseOne a) = Some t \<Longrightarrow> sys_inv t"
    and "sys_step env s (Tick n) = Some t \<Longrightarrow> sys_inv t"
    and "sys_step env s (CtxEnd c deadline) = Some t \<Longrightarrow> sys_inv t"
proof -
  have b: "inv_bridge (bridge s) (closing s)" "bridge_wf (bridge s)"
    and l: "inv_live (bridge s) (closing s) (callers s)"
    using assms by (auto simp: sys_inv_def inv_bridge_def)
  have ids: "inv_ids t" if "draws t = draws s" "fallback t = fallback s" "callers t = callers s"
    using inv_ids_callers [of s t] assms that by (simp add: sys_inv_def)
  show "sys_inv t" if "sys_step env s (Tick n) = Some t"
    using that assms ids by (auto simp: sys_inv_def)
  show "sys_inv t" if "sys_step env s (CtxEnd c deadline) = Some t"
    using that assms ids by (auto simp: sys_inv_def split: if_splits)
  show "sys_inv t" if "sys_step env s (Dispatch ev) = Some t"
    using that assms ids inv_bridge_dispatch [OF b(1)] inv_live_dispatch [OF l b(2)]
    by (auto simp: sys_inv_def)
  show "sys_inv t" if "sys_step env s (StreamEnd ids) = Some t"
    using that assms ids inv_bridge_collect [OF b(1)] inv_live_collect [OF l _ _ b(2)]
    by (auto simp: sys_inv_def case_prod_beta split: if_splits)
  show "sys_inv t" if "sys_step env s (CloseOne a) = Some t"
  proof -
    from that have a: "a \<in> set (closing s)"
      and t: "t = s\<lparr>bridge := close_entry a (bridge s), closing := remove1 a (closing s)\<rparr>"
      by (auto split: if_splits)
    from a b have "a < length (store (bridge s))" "\<not> closed (store (bridge s) ! a)"
      by (auto simp: inv_bridge_def)
    with assms ids t inv_bridge_close [OF b(1) a] inv_live_close [OF l] show ?thesis
      by (auto simp: sys_inv_def)
  qed
qed

lemma sys_inv_step:
  assumes "sys_inv s" "draws_fresh (draws s)" "sys_step env s a = Some t"
  shows "sys_inv t"
proof (cases a)
  case (Call c ctx sink call)
  show ?thesis using assms(1,3) unfolding Call by (rule sys_inv_Call)
next
  case (Mint c rnd)
  show ?thesis using assms(1,3) unfolding Mint by (rule sys_inv_Mint)
next
  case (Register c)
  show ?thesis using assms unfolding Register by (rule sys_inv_Register)
next
  case (SinkSend c err)
  show ?thesis using assms unfolding SinkSend by (rule sys_inv_SinkSend)
next
  case (WakeDone c)
  show ?thesis using assms unfolding WakeDone by (rule sys_inv_WakeDone)
next
  case (WakeCtx c d)
  show ?thesis using assms unfolding WakeCtx by (rule sys_inv_WakeCtx)
next
  case (AfterGrant c)
  show ?thesis using assms unfolding AfterGrant by (rule sys_inv_AfterGrant)
next
  case (Dispatch ev)
  show ?thesis using assms(1,3) unfolding Dispatch by (rule sys_inv_dispatch_side(1))
next
  case (StreamEnd ids)
  show ?thesis using assms(1,3) unfolding StreamEnd by (rule sys_inv_dispatch_side(2))
next
  case (CloseOne x)
  show ?thesis using assms(1,3) unfolding CloseOne by (rule sys_inv_dispatch_side(3))
next
  case (Tick n)
  show ?thesis using assms(1,3) unfolding Tick by (rule sys_inv_dispatch_side(4))
next
  case (CtxEnd c d)
  show ?thesis using assms(1,3) unfolding CtxEnd by (rule sys_inv_dispatch_side(5))
qed

lemma draws_grow:
  assumes "sys_step env s a = Some t"
  shows "\<exists>ds. draws t = draws s @ ds"
  using assms by (cases a) (auto simp: Let_def case_prod_beta split: caller.splits if_splits)

interpretation fresh_calls: invariant_system init_sys "call_step env" "\<lambda>s. draws_fresh (draws s) \<longrightarrow> sys_inv s" for env
proof unfold_locales
  show "draws_fresh (draws init_sys) \<longrightarrow> sys_inv init_sys" by (simp add: sys_inv_init)
  show "draws_fresh (draws t) \<longrightarrow> sys_inv t"
    if inv: "draws_fresh (draws s) \<longrightarrow> sys_inv s" and step: "call_step env s t" for s t
    using step
  proof cases
    case (step a)
    from draws_grow [OF step] draws_fresh_prefix have "draws_fresh (draws t) \<Longrightarrow> draws_fresh (draws s)" by fastforce
    with sys_inv_step [OF _ _ step] inv show ?thesis by blast
  qed
qed

section \<open>What needs no fresh ids\<close>

lemma length_store_ops [simp]:
  "length (store (dispatch_event b ev)) = length (store b)"
  "length (store (close_entry a b)) = length (store b)"
  "length (store (snd (closeAll_collect ids b))) = length (store b)"
  "length (store (snd (takeGrant i b))) = length (store b)"
  by (auto simp: dispatch_event_def markGranted_def routeCancel_def routeResult_def close_entry_def close_done_def
      update_entry_def delete_pending_def closeAll_collect_def takeGrant_def Let_def
      split: PermissionEvent.splits option.splits)

lemma sys_safe_move:
  assumes "sys_safe s" "inv_bridge (bridge t) (closing t)" "inv_ids t" "callers t = (callers s)(c := p)"
    and "length (store (bridge s)) \<le> length (store (bridge t))" "p \<noteq> Crashed"
    and "\<And>i a. live p = Some (i, a) \<Longrightarrow> a < length (store (bridge t))"
    and "\<And>call dl i a. p = Selecting call dl i a \<Longrightarrow> dl \<noteq> None"
  shows "sys_safe t"
  using assms unfolding sys_safe_def by (auto split: if_splits) fastforce

lemma sys_safe_set:
  assumes inv: "sys_safe s" and t: "callers t = (callers s)(c := p)" "draws t = draws s" "fallback t = fallback s"
    and p: "holds_id p = None \<or> holds_id p = holds_id (callers s c)" "p \<noteq> Crashed"
    and b: "inv_bridge (bridge t) (closing t)" "length (store (bridge s)) \<le> length (store (bridge t))"
    and live: "\<And>i a. live p = Some (i, a) \<Longrightarrow> a < length (store (bridge t))"
    and bound: "\<And>call dl i a. p = Selecting call dl i a \<Longrightarrow> dl \<noteq> None"
  shows "sys_safe t"
proof -
  have "inv_ids t" using inv by (intro inv_ids_set_caller [OF _ p(1) t(2,3,1)]) (simp add: sys_safe_def)
  from sys_safe_move [OF inv b(1) this t(1) b(2) p(2)] live bound show ?thesis by blast
qed

lemma sys_safe_others:
  assumes "sys_safe s" "callers t = callers s" "draws t = draws s" "fallback t = fallback s"
    and "inv_bridge (bridge t) (closing t)" "length (store (bridge t)) = length (store (bridge s))"
  shows "sys_safe t"
  using assms inv_ids_callers [of s t] by (simp add: sys_safe_def)

text \<open>What the points a call moves to are not.\<close>

lemma call_bound_Some: "call_bound time dl call \<noteq> None"
  by (simp add: call_bound_def Let_def split: option.splits)

lemma not_selecting:
  "call_begin b ctx sink call \<noteq> Selecting call' dl' i' a'" "call_payload env call dl i \<noteq> Selecting call' dl' i' a'"
  "call_resolved env call e \<noteq> Selecting call' dl' i' a'"
  by (auto simp: call_begin_def call_payload_def call_resolved_def split: option.splits sum.splits)

lemmas point_facts = call_begin_states call_payload_states call_resolved_states not_selecting

lemma sys_safe_step:
  assumes inv: "sys_safe s" and step: "sys_step env s a = Some t"
  shows "sys_safe t"
proof -
  have ib: "inv_bridge (bridge s) (closing s)" and ids: "inv_ids s" using inv by (simp_all add: sys_safe_def)
  have addr: "live (callers s c) = Some (i, x) \<Longrightarrow> x < length (store (bridge s))" for c i x
    using inv unfolding sys_safe_def by blast
  note set = sys_safe_set [OF inv, of t]
  show ?thesis
  proof (cases a)
    case (Call c ctx sink call)
    with step ib show ?thesis
      by (intro set [of c "call_begin (bridge s) ctx sink call"]) (auto simp: point_facts split: caller.splits)
  next
    case (Mint c rnd)
    obtain i n where id: "newToolCallRequestID rnd (fallback s) = (i, n)" by force
    with step Mint obtain call dl where t: "t = set_caller c (call_payload env call dl i) (s\<lparr>fallback := n, draws := draws s @ [rnd]\<rparr>)"
      by (auto split: caller.splits)
    have "inv_ids t" unfolding t by (rule inv_ids_mint [OF ids id]) (rule call_payload_states)
    with ib t show ?thesis
      by (intro sys_safe_move [OF inv, of t c "call_payload env call dl i"]) (simp_all add: point_facts)
  next
    case (Register c)
    with step obtain call dl i payload where c: "callers s c = Minted call dl i payload"
      and t: "t = set_caller c (Registered call dl i payload (length (store (bridge s)))) (s\<lparr>bridge := snd (register i (bridge s))\<rparr>)"
      by (auto simp: register_def split: caller.splits)
    with inv_bridge_register [OF ib, of i] show ?thesis
      by (intro set [of c "Registered call dl i payload (length (store (bridge s)))"]) (auto simp: register_def)
  next
    case (SinkSend c err)
    with step obtain call dl i payload x where c: "callers s c = Registered call dl i payload x"
      by (auto split: caller.splits)
    with addr [of c i x] step SinkSend ib inv_bridge_delete [OF ib, of i] call_bound_Some [of "clock s" dl call] show ?thesis
      by (intro set [of c "fst (call_sent (clock s) call dl i x err (bridge s))"])
        (auto simp: call_sent_def remove_def split: option.splits)
  next
    case (WakeDone c)
    with step obtain call dl i x where c: "callers s c = Selecting call dl i x" "closed (store (bridge s) ! x)"
      and t: "t = set_caller c (call_resolved env call (store (bridge s) ! x)) s"
      by (auto split: caller.splits if_splits)
    have "reported (store (bridge s) ! x)" using ib c addr [of c i x] by (simp add: inv_bridge_def)
    with t ib show ?thesis
      by (intro set [of c "call_resolved env call (store (bridge s) ! x)"]) (simp_all add: point_facts)
  next
    case (WakeCtx c d)
    with step obtain call dl i x where c: "callers s c = Selecting call dl i x"
      by (auto split: caller.splits)
    with step WakeCtx inv_bridge_delete [OF ib, of i] show ?thesis
      by (intro set [of c "fst (call_ctx_done call i d (bridge s))"])
        (auto simp: call_ctx_done_def takeGrant_def split: if_splits)
  next
    case (AfterGrant c)
    with step obtain call i g d where c: "callers s c = TookGrant call i g d"
      by (auto split: caller.splits)
    with step AfterGrant inv_bridge_delete [OF ib, of i] inv_bridge_cache [OF ib, of "SessionID call"] show ?thesis
      by (intro set [of c "fst (call_after_grant call i g d (bridge s))"])
        (auto simp: call_after_grant_def remove_def cacheUnsupported_def split: if_splits)
  next
    case (CloseOne x)
    with step inv_bridge_close [OF ib, of x] show ?thesis
      by (intro sys_safe_others [OF inv]) (auto split: if_splits)
  next
    case (StreamEnd ks)
    with step inv_bridge_collect [OF ib, of ks] show ?thesis
      by (intro sys_safe_others [OF inv]) (auto simp: case_prod_beta split: if_splits)
  next
    case (Dispatch ev)
    with step inv_bridge_dispatch [OF ib, of ev] show ?thesis
      by (intro sys_safe_others [OF inv]) auto
  next
    case (Tick n)
    with step ib show ?thesis by (intro sys_safe_others [OF inv]) auto
  next
    case (CtxEnd c d)
    with step ib show ?thesis by (intro sys_safe_others [OF inv]) (auto split: if_splits)
  qed
qed

interpretation calls: invariant_system init_sys "call_step env" sys_safe for env
proof unfold_locales
  show "sys_safe init_sys"
    using sys_inv_init by (auto simp: sys_safe_def sys_inv_def) (auto simp: init_sys_def)
  show "sys_safe t" if "sys_safe s" "call_step env s t" for s t
    using that(2) by cases (rule sys_safe_step [OF that(1)])
qed

section \<open>Runs\<close>

lemma sys_run_steps: "sys_run env s as = Some t \<Longrightarrow> (call_step env)\<^sup>*\<^sup>* s t"
proof (induction as arbitrary: s)
  case Nil
  then show ?case by simp
next
  case (Cons a as)
  then obtain u where "sys_step env s a = Some u" "sys_run env u as = Some t"
    by (auto split: option.splits)
  with Cons.IH show ?case
    by (meson call_step.step converse_rtranclp_into_rtranclp)
qed

text \<open>
  A small run for the examples below: one call, granted ids drawn from two random bytes, until it
  waits in its select.
\<close>

definition sample_env :: call_env where
  "sample_env =
     \<lparr>payload_env_of = \<lparr>CanonicalJSON = (\<lambda>_. Ok ''{}''), ArgsDigest = (\<lambda>_. Ok ''digest''),
        NewStruct = Ok, AsMap = (\<lambda>m. m)\<rparr>,
      JoinToolCallResultOutputs = (\<lambda>_. Ok [])\<rparr>"

definition sample_call :: AdapterToolCall where
  "sample_call = \<lparr>SessionID = ''s'', Target = ''adapter.shell.w.tools.t'', Tool = ''t'',
     Args = GNil, Preview = [], Timeout = 0\<rparr>"

definition sample_id :: string where
  "sample_id = fst (newToolCallRequestID (Some [1, 2]) 0)"

definition sample_run :: "action list" where
  "sample_run = [Call 0 (Some None) True sample_call, Mint 0 (Some [1, 2]), Register 0, SinkSend 0 None]"

definition sample_payload :: gobj where
  "sample_payload = payload_fields (payload_env_of sample_env) sample_call sample_id [] ''digest''"

definition sample_state :: call_sys where
  "sample_state =
     \<lparr>bridge = \<lparr>store = [fresh_entry], pending = [sample_id \<mapsto> 0], unsupportedSessions = {}, panicked = False\<rparr>,
      fallback = 0,
      callers = (\<lambda>_. Idle)(0 := Selecting sample_call (Some (unat DefaultToolCallTimeout)) sample_id 0),
      closing = [], clock = 0, ctx_ended = (\<lambda>_. None), draws = [Some [1, 2]], sent = [(0, tool_call_event sample_payload)]\<rparr>"

lemma sample_call_simps:
  "validate_call sample_call = None" "Timeout sample_call = 0" "SessionID sample_call = ''s''"
  by (simp_all add: sample_call_def validate_call_def)

lemma sample_mint: "newToolCallRequestID (Some [1, 2]) n = (sample_id, n)"
  by (simp add: sample_id_def)

lemma sample_build:
  "buildToolCallPayload (payload_env_of sample_env) sample_call sample_id = Ok sample_payload"
proof -
  have "unmarshal_map ''{}'' = Ok (Some [])" by code_simp
  then show ?thesis by (simp add: buildToolCallPayload_def sample_env_def sample_payload_def)
qed

lemma sample_run: "sys_run sample_env init_sys sample_run = Some sample_state"
  by (simp add: sample_run_def init_sys_def call_begin_def NewToolCallBridge_def sessionUnsupported_def
      sample_call_simps sample_mint call_payload_def sample_build register_def call_sent_def
      call_bound_def sample_state_def set_caller_def del: newToolCallRequestID_random)

lemma sample_reachable: "(call_step sample_env)\<^sup>*\<^sup>* init_sys sample_state"
  by (rule sys_run_steps [OF sample_run])

lemma sample_selecting:
  "callers sample_state 0 = Selecting sample_call (Some (unat DefaultToolCallTimeout)) sample_id 0"
  by (simp add: sample_state_def)

section \<open>Properties of concurrent calls\<close>

lemmas reachable_safe = calls.reachable_inv

lemma reachable_sys_inv:
  assumes "(call_step env)\<^sup>*\<^sup>* init_sys s" "draws_fresh (draws s)"
  shows "sys_inv s"
  using fresh_calls.reachable_inv [OF assms(1)] assms(2) by blast

text \<open>Facts about reachable states the properties share.\<close>

lemma reachable_bridge: "(call_step env)\<^sup>*\<^sup>* init_sys s \<Longrightarrow> inv_bridge (bridge s) (closing s)"
  using reachable_safe [of env s] by (simp add: sys_safe_def)

lemma reachable_address:
  assumes "(call_step env)\<^sup>*\<^sup>* init_sys s" "callers s c = Selecting call w i a"
  shows "a < length (store (bridge s))"
proof -
  have "live (callers s c) = Some (i, a)" using assms(2) by simp
  with reachable_safe [OF assms(1)] show ?thesis unfolding sys_safe_def by blast
qed

lemma reachable_bounded:
  assumes "(call_step env)\<^sup>*\<^sup>* init_sys s" "callers s c = Selecting call w i a"
  shows "\<exists>t. w = Some t"
  using reachable_safe [OF assms(1)] assms(2) unfolding sys_safe_def by blast

text \<open>C1: in every reachable state of the tool-call bridge, however calls, permission events and
  stream ends interleave, and whatever the random source gives, no \<open>done\<close> channel was closed twice and no call read a fragment of an entry
  that has none: neither of the two panics the code could raise happens.\<close>

theorem bridge_never_panics:
  assumes "(call_step env)\<^sup>*\<^sup>* init_sys s"
  shows "\<not> panicked (bridge s) \<and> (\<forall>c. callers s c \<noteq> Crashed)"
  using reachable_safe [OF assms] by (simp add: sys_safe_def inv_bridge_def bridge_wf_def)

theorem bridge_never_panics_witness:
  "(call_step sample_env)\<^sup>*\<^sup>* init_sys sample_state \<and> \<not> panicked (bridge sample_state) \<and>
   (\<forall>c. callers sample_state c \<noteq> Crashed)"
  using sample_reachable bridge_never_panics [OF sample_reachable] by blast

text \<open>C2: no call is ever lost. The entry a waiting call selects on is still in the pending map
  under the call's own id (so a reply can reach it), or a \<open>closeAll\<close> is about to close it, or it is already
  resolved; and every fragment it has collected carries that call's request id. This needs a random source that has not repeated its 16
  bytes so far, since a repeated id takes over the map entry.\<close>

theorem waiting_call_not_lost:
  assumes "(call_step env)\<^sup>*\<^sup>* init_sys s" "draws_fresh (draws s)" "callers s c = Selecting call w i a"
  shows "(pending (bridge s) i = Some a \<or> a \<in> set (closing s) \<or> closed (store (bridge s) ! a)) \<and>
    (\<forall>x \<in> set (fragments (store (bridge s) ! a)). tcr_request_id x = i)"
proof -
  have il: "inv_live (bridge s) (closing s) (callers s)" using reachable_sys_inv [OF assms(1,2)] by (simp add: sys_inv_def)
  have "live (callers s c) = Some (i, a)" by (simp add: assms(3))
  from inv_liveD(2,3) [OF il this] show ?thesis by blast
qed

lemma sample_fresh: "draws_fresh (draws sample_state)"
  by (simp add: sample_state_def draws_fresh_def)

theorem waiting_call_not_lost_witness:
  "(pending (bridge sample_state) sample_id = Some 0 \<or> 0 \<in> set (closing sample_state) \<or>
      closed (store (bridge sample_state) ! 0)) \<and>
   list_all (\<lambda>x. tcr_request_id x = sample_id) (fragments (store (bridge sample_state) ! 0))"
  using waiting_call_not_lost [OF sample_reachable sample_fresh sample_selecting] by (simp add: list_all_iff)

text \<open>
  Every entry of the map belongs to a call that will delete it, also when ids repeat: a later call with the same id takes the place of the
  earlier one in the map, and whichever returns deletes it.
\<close>

definition owned :: "ToolCallBridge \<Rightarrow> (nat \<Rightarrow> caller) \<Rightarrow> bool" where
  "owned b ps \<longleftrightarrow> (\<forall>i a. pending b i = Some a \<longrightarrow> (\<exists>c. live (ps c) = Some (i, a)))"

lemma dispatch_pending_shrinks: "pending (dispatch_event b ev) i = Some a \<Longrightarrow> pending b i = Some a"
  by (cases ev) (auto simp: dispatch_event_def markGranted_def routeCancel_def routeResult_def Let_def
      split: option.splits if_splits)

text \<open>A step that adds nothing to the map, of a caller that keeps its entry or whose entry is not in the map afterwards.\<close>

lemma owned_shrinks:
  assumes "owned b ps" "\<And>j x. pending b' j = Some x \<Longrightarrow> pending b j = Some x"
    and "live p = live (ps c) \<or> (\<forall>j x. pending b' j = Some x \<longrightarrow> live (ps c) \<noteq> Some (j, x))"
  shows "owned b' (ps(c := p))"
  unfolding owned_def
proof (intro allI impI)
  fix j x assume "pending b' j = Some x"
  moreover from this assms(1,2) obtain d where "live (ps d) = Some (j, x)" unfolding owned_def by blast
  ultimately show "\<exists>c'. live ((ps(c := p)) c') = Some (j, x)" using assms(3) by (intro exI [of _ d]) auto
qed

lemma owned_register:
  assumes "owned b ps" "live (ps c) = None" "live p = Some (i, length (store b))"
  shows "owned (snd (register i b)) (ps(c := p))"
  unfolding owned_def
proof (intro allI impI)
  fix j x assume "pending (snd (register i b)) j = Some x"
  then consider "j = i" "x = length (store b)" | "pending b j = Some x" by (cases "j = i") (simp_all add: register_def)
  then show "\<exists>c'. live ((ps(c := p)) c') = Some (j, x)"
  proof cases
    case 1
    with assms(3) show ?thesis by (intro exI [of _ c]) simp
  next
    case 2
    with assms(1) obtain d where "live (ps d) = Some (j, x)" unfolding owned_def by blast
    with assms(2) show ?thesis by (intro exI [of _ d]) auto
  qed
qed

lemma owned_step:
  assumes "owned (bridge s) (callers s)" "sys_safe s" "sys_step env s a = Some t"
  shows "owned (bridge t) (callers t)"
proof -
  note own = owned_shrinks [OF assms(1)]
  show ?thesis
  proof (cases a)
    case (Call c ctx sink call)
    with assms(3) show ?thesis by (auto simp: set_caller_def intro!: own split: caller.splits)
  next
    case (Mint c rnd)
    with assms(3) show ?thesis by (auto simp: set_caller_def case_prod_beta intro!: own split: caller.splits)
  next
    case (Register c)
    have "fst (register i b) = length (store b)" for i b by (simp add: register_def)
    with Register assms(3) show ?thesis
      by (auto simp: set_caller_def case_prod_beta intro!: owned_register [OF assms(1)] split: caller.splits)
  next
    case (SinkSend c err)
    with assms(3) show ?thesis
      by (auto simp: set_caller_def case_prod_beta call_sent_def remove_def intro!: own split: caller.splits option.splits if_splits)
  next
    case (WakeDone c)
    have "\<not> closed (store (bridge s) ! x)" if "pending (bridge s) j = Some x" for j x
      using assms(2) inv_bridge_pendingD(2) that by (auto simp: sys_safe_def)
    with WakeDone assms(3) show ?thesis by (auto simp: set_caller_def intro!: own split: caller.splits if_splits)
  next
    case (WakeCtx c d)
    with assms(3) show ?thesis
      by (auto simp: set_caller_def case_prod_beta call_ctx_done_def takeGrant_def intro!: own split: caller.splits if_splits)
  next
    case (AfterGrant c)
    with assms(3) show ?thesis
      by (auto simp: set_caller_def case_prod_beta call_after_grant_def remove_def cacheUnsupported_def intro!: own
          split: caller.splits if_splits)
  next
    case (Dispatch ev)
    with assms(3) have t: "bridge t = dispatch_event (bridge s) ev" "callers t = callers s" by auto
    show ?thesis using assms(1) dispatch_pending_shrinks unfolding owned_def t by blast
  next
    case (StreamEnd ids)
    with assms(1,3) show ?thesis by (auto simp: owned_def closeAll_collect_def split: if_splits)
  next
    case (CloseOne x)
    with assms(1,3) show ?thesis by (auto simp: owned_def close_entry_def close_done_def update_entry_def split: if_splits)
  qed (use assms(1,3) in \<open>auto split: if_splits\<close>)
qed

interpretation owned_calls: invariant_system init_sys "call_step env" "\<lambda>s. sys_safe s \<and> owned (bridge s) (callers s)" for env
proof unfold_locales
  show "sys_safe init_sys \<and> owned (bridge init_sys) (callers init_sys)"
    using calls.inv_init by (simp add: owned_def) (simp add: init_sys_def NewToolCallBridge_def)
  show "sys_safe t \<and> owned (bridge t) (callers t)" if "sys_safe s \<and> owned (bridge s) (callers s)" "call_step env s t" for s t
    using that calls.inv_step [of s env t] owned_step [of s env _ t] by (auto elim: call_step.cases)
qed

text \<open>C3: the pending map does not leak. Every entry in it belongs to a call that is between
  \<open>register\<close> and the end of its select, so once every call has returned the map is empty, whatever the random source gave.\<close>

theorem pending_map_does_not_leak:
  assumes "(call_step env)\<^sup>*\<^sup>* init_sys s" "\<And>c. live (callers s c) = None"
  shows "pending (bridge s) = Map.empty"
proof -
  have "pending (bridge s) i \<noteq> Some a" for i a
    using owned_calls.reachable_inv [OF assms(1)] assms(2) by (auto simp: owned_def)
  then show ?thesis by (auto simp: fun_eq_iff not_Some_eq [symmetric])
qed

theorem pending_map_does_not_leak_witness:
  "\<exists>s. (call_step sample_env)\<^sup>*\<^sup>* init_sys s \<and>
     sent s = [(0, tool_call_event sample_payload)] \<and> pending (bridge s) = Map.empty"
proof -
  obtain s where run: "sys_run sample_env sample_state [CtxEnd 0 False, WakeCtx 0 False, AfterGrant 0] = Some s"
    and s: "\<And>c. live (callers s c) = None" "sent s = [(0, tool_call_event sample_payload)]"
    by (simp add: sample_state_def call_ctx_done_def takeGrant_def call_after_grant_def set_caller_def)
  have "(call_step sample_env)\<^sup>*\<^sup>* init_sys s"
    using sample_reachable sys_run_steps [OF run] by (rule rtranclp_trans)
  with s pending_map_does_not_leak [of sample_env s] show ?thesis by blast
qed

text \<open>C4: when two calls in flight can share a request id. Whatever the random source gives, they do so only if the 16 bytes the
  id was made from came out of the source at least twice, or if the source failed $2^{64}$ times and the fallback counter wrapped around; an id
  from the source is never one from the counter, and two ids from the counter differ until it wraps.\<close>

theorem shared_id_needs_repeated_bytes:
  assumes "(call_step env)\<^sup>*\<^sup>* init_sys s" "c \<noteq> d"
    and "holds_id (callers s c) = Some i" "holds_id (callers s d) = Some i"
  shows "(\<exists>buf. i = fst (newToolCallRequestID (Some buf) 0) \<and> 2 \<le> count_list (draws s) (Some buf)) \<or>
    2 ^ 64 \<le> count_list (draws s) None"
proof -
  have "inv_ids s" using reachable_safe [OF assms(1)] by (simp add: sys_safe_def)
  with assms(2-4) have "repeated (draws s) i" unfolding inv_ids_def by blast
  then show ?thesis by (simp add: repeated_def)
qed

text \<open>The bound is met: a source that gives the same bytes twice makes two calls share an id.\<close>

theorem shared_id_needs_repeated_bytes_witness:
  "\<exists>s. (call_step sample_env)\<^sup>*\<^sup>* init_sys s \<and> holds_id (callers s 0) = Some sample_id \<and>
     holds_id (callers s 1) = Some sample_id \<and> draws s = [Some [1, 2], Some [1, 2]] \<and>
     ((\<exists>buf. sample_id = fst (newToolCallRequestID (Some buf) 0) \<and> 2 \<le> count_list (draws s) (Some buf)) \<or>
      2 ^ 64 \<le> count_list (draws s) None)"
proof -
  obtain s where run: "sys_run sample_env sample_state
      [Call 1 (Some None) True sample_call, Mint 1 (Some [1, 2])] = Some s"
    and s: "holds_id (callers s 0) = Some sample_id" "holds_id (callers s 1) = Some sample_id" "draws s = [Some [1, 2], Some [1, 2]]"
    by (simp add: sample_state_def call_begin_def sample_call_simps sessionUnsupported_def set_caller_def sample_mint
        call_payload_def sample_build del: newToolCallRequestID_random)
  have reach: "(call_step sample_env)\<^sup>*\<^sup>* init_sys s"
    using sample_reachable sys_run_steps [OF run] by (rule rtranclp_trans)
  have "(0 :: nat) \<noteq> 1" by simp
  from reach s shared_id_needs_repeated_bytes [OF reach this s(1,2)] show ?thesis by blast
qed

text \<open>When the context of a waiting call is done, the call returns in its next two steps,
  whatever the rest of the system does. A deadline after a bare grant is the host-unsupported failure and puts the session in the
  cache; everything else is the context's error and leaves the cache alone. The call's id leaves the pending map.\<close>

theorem done_context_ends_call:
  assumes "callers s c = Selecting call w i a" "ctx_ended s c = Some deadline"
  shows "\<exists>t e. sys_run env s [WakeCtx c deadline, AfterGrant c] = Some t \<and>
    callers t c = Finished (failed e) \<and> pending (bridge t) i = None \<and>
    (if deadline \<and> (\<exists>x. pending (bridge s) i = Some x \<and> grant (store (bridge s) ! x))
     then errors_is e ErrHostUnsupported \<and>
       unsupportedSessions (bridge t) = insert (SessionID call) (unsupportedSessions (bridge s))
     else errors_is e (if deadline then DeadlineExceeded else Canceled) \<and>
       unsupportedSessions (bridge t) = unsupportedSessions (bridge s))"
  using assms
  by (auto simp: call_ctx_done_def takeGrant_def call_after_grant_def set_caller_def remove_def
      cacheUnsupported_def ctx_err_def ToolCallError_Is_def split: option.splits)

text \<open>C8: when a permission stream ends, a call that waits on it returns with
  \<open>ErrPermissionsClosed\<close>: \<open>closeAll\<close> collects its entry, closes it, and the select wakes up.\<close>

theorem stream_end_releases_call:
  assumes "(call_step env)\<^sup>*\<^sup>* init_sys s" "callers s c = Selecting call w i a"
    and "pending (bridge s) i = Some a" "range_order ids (pending (bridge s))"
  shows "\<exists>t e. sys_run env s [StreamEnd ids, CloseOne a, WakeDone c] = Some t \<and>
    callers t c = Finished (failed e) \<and> errors_is e ErrPermissionsClosed"
proof -
  note a = inv_bridge_pendingD [OF reachable_bridge [OF assms(1)] assms(3)]
  have collected: "a \<in> set (List.map_filter (pending (bridge s)) ids)"
    using assms(3,4) by (force simp: List.map_filter_def range_order_def)
  let ?b = "snd (closeAll_collect ids (bridge s))"
  have "a < length (store ?b)" "\<not> closed (store ?b ! a)"
    using a by (simp_all add: closeAll_collect_def)
  then have entry: "closed (store (close_entry a ?b) ! a)"
    "entry_err (store (close_entry a ?b) ! a) = Some (Sentinel ErrPermissionsClosed)"
    by (simp_all add: close_entry_open store_update_entry)
  show ?thesis
    using assms(2,4) collected entry
    by (simp add: range_order_def closeAll_collect_def call_resolved_def finishToolCall_def set_caller_def)
qed

theorem stream_end_releases_call_witness:
  "\<exists>t e. sys_run sample_env sample_state [StreamEnd [sample_id], CloseOne 0, WakeDone 0] = Some t \<and>
    callers t 0 = Finished (failed e) \<and> errors_is e ErrPermissionsClosed"
  by (rule stream_end_releases_call [OF sample_reachable sample_selecting])
    (simp_all add: sample_state_def range_order_def)

end
