(* ===== verification/Tool_Call_Results.thy ===== *)
theory Tool_Call_Results
  imports Tool_Call_System
begin

text \<open>
  What a caller of \<open>CallAdapterTool\<close> and the host get to see (\<open>src/adapterhost/toolcall.go\<close>): which
  reply ends a call with which result, when a session is remembered as unsupported, what the dispatch loop sends
  and leaves behind, and what goes out in a payload.
\<close>

section \<open>Events of one call among the events of all\<close>

text \<open>The results addressed to one call, in the order they arrive.\<close>

fun own_result :: "string \<Rightarrow> PermissionEvent \<Rightarrow> ToolCallResult option" where
  "own_result i (PE_ToolCallResult r) = (if tcr_request_id r = i then Some r else None)"
| "own_result i _ = None"

definition own_results :: "string \<Rightarrow> PermissionEvent list \<Rightarrow> ToolCallResult list" where
  "own_results i evs = List.map_filter (own_result i) evs"

fun cancels :: "string \<Rightarrow> PermissionEvent \<Rightarrow> bool" where
  "cancels i (PE_Cancel c) = (cancel_request_id c = i)"
| "cancels i _ = False"

lemma own_results_simps [simp]:
  "own_results i [] = []"
  "own_results i (ev # evs) =
     (case own_result i ev of None \<Rightarrow> own_results i evs | Some r \<Rightarrow> r # own_results i evs)"
  by (auto simp: own_results_def List.map_filter_def split: option.splits)

text \<open>
  A complete reply: it ends with a typed failure, an unchunked result or a final chunk, and every fragment before the
  last is a chunk that is not final and carries no failure.
\<close>

definition last_fragment :: "ToolCallResult \<Rightarrow> bool" where
  "last_fragment r \<longleftrightarrow>
     tcr_call_error r \<noteq> [] \<or> tcr_chunk r = None \<or> (\<exists>ch. tcr_chunk r = Some ch \<and> chunk_final ch)"

definition complete_reply :: "ToolCallResult list \<Rightarrow> bool" where
  "complete_reply rs \<longleftrightarrow> rs \<noteq> [] \<and> last_fragment (last rs) \<and> list_all (\<lambda>r. \<not> last_fragment r) (butlast rs)"

lemma last_fragment_resolving: "last_fragment r \<longleftrightarrow> resolving r"
  by (auto simp: last_fragment_def resolving_def split: option.splits)

lemma complete_reply_Cons:
  "complete_reply (r # rs) \<longleftrightarrow> (if rs = [] then resolving r else \<not> resolving r \<and> complete_reply rs)"
  by (auto simp: complete_reply_def last_fragment_resolving)

lemma dispatch_untracked:
  assumes "bridge_wf b" "\<And>i. pending b i \<noteq> Some a"
  shows "store (dispatch_event b ev) ! a = store b ! a \<and> (\<forall>i. pending (dispatch_event b ev) i \<noteq> Some a)"
  using assms(1)
proof (cases rule: dispatch_cases [of b ev])
  case same
  then show ?thesis using assms by simp
next
  case (touch i x f)
  with assms(2) have "x \<noteq> a" by auto
  with touch assms show ?thesis by (simp add: store_update_entry bridge_wf_pendingD(1))
next
  case (resolve i x f)
  with assms(2) have "x \<noteq> a" by auto
  moreover have "x < length (store (delete_pending i b))"
    using resolve(1) assms(1) by (simp add: bridge_wf_pendingD(1))
  ultimately show ?thesis using resolve(3) assms(2) by (simp add: store_update_entry)
qed

lemma dispatches_untracked:
  assumes "bridge_wf b" "\<And>i. pending b i \<noteq> Some a"
  shows "store (foldl dispatch_event b evs) ! a = store b ! a"
  using assms
proof (induction evs arbitrary: b)
  case (Cons ev evs)
  then show ?case using dispatch_untracked [of b a ev] by (simp add: bridge_wf_dispatch)
qed simp

text \<open>An event that is neither a result nor a cancel for a call changes at most its grant.\<close>

lemma dispatch_other:
  assumes "bridge_wf b" "pending b i = Some a" "own_result i ev = None" "\<not> cancels i ev"
  shows "pending (dispatch_event b ev) i = Some a \<and>
    (\<exists>g. store (dispatch_event b ev) ! a = (store b ! a)\<lparr>grant := g\<rparr>)"
proof -
  note a = bridge_wf_pendingD(1,2) [OF assms(1,2)]
  have ne: "x \<noteq> a" if "pending b j = Some x" "j \<noteq> i" for j x
    using that bridge_wf_pendingD(3) [OF assms(1,2), of j] by auto
  have keep: "\<exists>g. store b ! a = (store b ! a)\<lparr>grant := g\<rparr>"
    by (rule exI [of _ "grant (store b ! a)"]) simp
  show ?thesis
  proof (cases ev)
    case (PE_Request j)
    show ?thesis
    proof (cases "j = i \<and> j \<noteq> []")
      case True
      with PE_Request assms(2) a show ?thesis
        by (auto simp: dispatch_event_def markGranted_def store_update_entry)
    next
      case False
      with PE_Request assms(2) keep ne show ?thesis
        by (auto simp: dispatch_event_def markGranted_def update_entry_def split: option.splits)
    qed
  next
    case (PE_Cancel c)
    with assms(2,4) keep ne [of "cancel_request_id c"] show ?thesis
      by (auto simp: dispatch_event_def routeCancel_def close_done_def update_entry_def split: option.splits)
  next
    case (PE_ToolCallResult r)
    with assms(2,3) keep ne [of "tcr_request_id r"] show ?thesis
      by (auto simp: dispatch_event_def routeResult_def close_done_def update_entry_def Let_def
          split: option.splits if_splits)
  next
    case PE_None
    with assms(2) keep show ?thesis by (simp add: dispatch_event_def)
  qed
qed

lemma dispatch_own:
  assumes "bridge_wf b" "pending b i = Some a" "tcr_request_id r = i"
  shows "store (dispatch_event b (PE_ToolCallResult r)) ! a =
      (store b ! a)\<lparr>fragments := fragments (store b ! a) @ [r], closed := resolving r\<rparr>"
    and "pending (dispatch_event b (PE_ToolCallResult r)) i = (if resolving r then None else Some a)"
    and "resolving r \<Longrightarrow> pending (dispatch_event b (PE_ToolCallResult r)) j \<noteq> Some a"
proof -
  note a = bridge_wf_pendingD(1,2) [OF assms(1,2)]
  have e: "dispatch_event b (PE_ToolCallResult r) = routeResult r b"
    by (simp add: dispatch_event_def)
  show "store (dispatch_event b (PE_ToolCallResult r)) ! a =
      (store b ! a)\<lparr>fragments := fragments (store b ! a) @ [r], closed := resolving r\<rparr>"
    using assms(2,3) a unfolding e
    by (auto simp: routeResult_def Let_def close_done_def store_update_entry update_delete_commute [symmetric])
  show "pending (dispatch_event b (PE_ToolCallResult r)) i = (if resolving r then None else Some a)"
    using assms(2,3) unfolding e by (simp add: routeResult_def Let_def)
  show "resolving r \<Longrightarrow> pending (dispatch_event b (PE_ToolCallResult r)) j \<noteq> Some a"
    using assms(2,3) deleted_address [OF assms(1,2), of j] unfolding e
    by (simp add: routeResult_def Let_def del: fun_upd_apply)
qed

text \<open>
  However the events of other calls are mixed in, a complete reply leaves the entry closed with the
  fragments of that reply and nothing else.
\<close>

lemma reply_collected:
  assumes "bridge_wf b" "pending b i = Some a" "complete_reply (own_results i evs)"
    "\<not> list_ex (cancels i) evs"
  shows "\<exists>g. store (foldl dispatch_event b evs) ! a =
    (store b ! a)\<lparr>fragments := fragments (store b ! a) @ own_results i evs, closed := True, grant := g\<rparr>"
  using assms
proof (induction evs arbitrary: b)
  case Nil
  then show ?case by (simp add: complete_reply_def)
next
  case (Cons ev evs)
  let ?b = "dispatch_event b ev"
  have wf: "bridge_wf ?b" by (rule bridge_wf_dispatch [OF Cons.prems(1)])
  show ?case
  proof (cases "own_result i ev")
    case None
    with dispatch_other [OF Cons.prems(1,2)] Cons.prems(4) obtain g where
      "pending ?b i = Some a" "store ?b ! a = (store b ! a)\<lparr>grant := g\<rparr>" by auto
    with Cons.IH [OF wf] Cons.prems(3,4) None show ?thesis by auto
  next
    case (Some r)
    then have ev: "ev = PE_ToolCallResult r" "tcr_request_id r = i"
      by (cases ev; simp split: if_splits)+
    note own = dispatch_own [OF Cons.prems(1,2) ev(2), folded ev(1)]
    show ?thesis
    proof (cases "own_results i evs = []")
      case True
      with Cons.prems(3) Some have "resolving r" by (simp add: complete_reply_Cons)
      with dispatches_untracked [OF wf own(3), of evs] own(1) Some True show ?thesis
        by (intro exI [of _ "grant (store b ! a)"]) simp
    next
      case False
      with Cons.prems(3) Some have "\<not> resolving r" "complete_reply (own_results i evs)"
        by (simp_all add: complete_reply_Cons)
      with Cons.IH [OF wf] own(1,2) Cons.prems(4) Some show ?thesis by auto
    qed
  qed
qed

lemma run_dispatches:
  "sys_run env s (map Dispatch evs @ as) = sys_run env (s\<lparr>bridge := foldl dispatch_event (bridge s) evs\<rparr>) as"
  by (induction evs arbitrary: s) auto

lemma sys_run_append:
  "sys_run env s as = Some t \<Longrightarrow> sys_run env t bs = Some u \<Longrightarrow> sys_run env s (as @ bs) = Some u"
  by (induction as arbitrary: s) (auto split: if_splits option.splits)

lemma reachable_bridge_wf:
  assumes "(call_step env)\<^sup>*\<^sup>* init_sys s"
  shows "bridge_wf (bridge s)"
  using reachable_bridge [OF assms] by (simp add: inv_bridge_def)


section \<open>Entries that nothing has been written to\<close>

text \<open>
  An entry still in the map carries neither an error nor a cancel, so only its fragments decide the
  result once a reply completes.
\<close>

definition clean_entries :: "ToolCallBridge \<Rightarrow> bool" where
  "clean_entries b \<longleftrightarrow>
     (\<forall>i a. pending b i = Some a \<longrightarrow>
        entry_err (store b ! a) = None \<and> cancelled (store b ! a) = None \<and>
        list_all (\<lambda>r. \<not> resolving r) (fragments (store b ! a)))"

lemma clean_entriesI:
  assumes "clean_entries b" "\<And>i a. pending c i = Some a \<Longrightarrow> pending b i = Some a \<and> store c ! a = store b ! a"
  shows "clean_entries c"
  using assms unfolding clean_entries_def by metis

lemma clean_entries_delete: "clean_entries b \<Longrightarrow> clean_entries (delete_pending i b)"
  by (auto simp: clean_entries_def)

lemma clean_entries_dispatch:
  assumes "bridge_wf b" "clean_entries b"
  shows "clean_entries (dispatch_event b ev)"
  using assms(1)
proof (cases rule: dispatch_cases [of b ev])
  case same
  with assms(2) show ?thesis by simp
next
  case (touch i a f)
  then have "a < length (store b)" using assms(1) by (simp add: bridge_wf_pendingD(1))
  with assms(2) touch show ?thesis
    by (auto simp: clean_entries_def touches_def store_update_entry)
next
  case (resolve j a f)
  show ?thesis
  proof (rule clean_entriesI [OF assms(2)])
    fix i x assume "pending (dispatch_event b ev) i = Some x"
    with resolve(3) have "pending b i = Some x" "i \<noteq> j" by (auto split: if_splits)
    moreover from this bridge_wf_pendingD(3) [OF assms(1) resolve(1), of i] have "x \<noteq> a" by auto
    ultimately show "pending b i = Some x \<and> store (dispatch_event b ev) ! x = store b ! x"
      using resolve(3) by (simp add: update_entry_def)
  qed
qed

lemma clean_entries_close:
  assumes "clean_entries b" "\<forall>i. pending b i \<noteq> Some a"
  shows "clean_entries (close_entry a b)"
proof (rule clean_entriesI [OF assms(1)])
  fix i x assume "pending (close_entry a b) i = Some x"
  then have "pending b i = Some x" by (simp add: close_entry_def)
  moreover from this assms(2) have "x \<noteq> a" by auto
  ultimately show "pending b i = Some x \<and> store (close_entry a b) ! x = store b ! x"
    by (simp add: close_entry_def close_done_def update_entry_def)
qed

lemma clean_entries_step:
  assumes "sys_safe s" "clean_entries (bridge s)" "sys_step env s a = Some t"
  shows "clean_entries (bridge t)"
proof -
  have wf: "inv_bridge (bridge s) (closing s)" "bridge_wf (bridge s)"
    using assms(1) by (auto simp: sys_safe_def inv_bridge_def)
  have reg: "clean_entries (snd (register i (bridge s)))" for i
    using assms(2) bridge_wf_pendingD(1) [OF wf(2)]
    by (auto simp: clean_entries_def register_def fresh_entry_def nth_append)
  have cache: "clean_entries (cacheUnsupported sid (bridge s))" for sid
    using assms(2) by (simp add: clean_entries_def cacheUnsupported_def)
  note del = clean_entries_delete [OF assms(2)]
  have coll: "clean_entries (snd (closeAll_collect ids (bridge s)))" for ids
    using assms(2) by (auto simp: clean_entries_def closeAll_collect_def)
  have close: "clean_entries (close_entry x (bridge s))" if "x \<in> set (closing s)" for x
    using clean_entries_close [OF assms(2)] wf(1) that by (simp add: inv_bridge_def)
  show ?thesis
    using assms(2,3) reg cache del coll close clean_entries_dispatch [OF wf(2) assms(2)]
    by (cases a) (auto simp: set_caller_def call_sent_def call_ctx_done_def call_after_grant_def
        takeGrant_def remove_def case_prod_beta Let_def split: caller.splits option.splits if_splits)
qed

interpretation clean_calls: invariant_system init_sys "call_step env"
  "\<lambda>s. sys_safe s \<and> clean_entries (bridge s)" for env
proof unfold_locales
  show "sys_safe init_sys \<and> clean_entries (bridge init_sys)"
    by (simp add: calls.inv_init) (simp add: init_sys_def NewToolCallBridge_def clean_entries_def)
  show "sys_safe t \<and> clean_entries (bridge t)"
    if "sys_safe s \<and> clean_entries (bridge s)" "call_step env s t" for s t
    using that(2) by cases (use that(1) sys_safe_step clean_entries_step in blast)
qed

section \<open>Which reply ends a call with which result\<close>

text \<open>
  The state after a complete reply, mixed with events of other calls, and the wake-up of the call.
\<close>

lemma reply_wakes_call:
  assumes "(call_step env)\<^sup>*\<^sup>* init_sys s" "callers s c = Selecting call w i a"
    and "pending (bridge s) i = Some a" "complete_reply (own_results i evs)" "\<not> list_ex (cancels i) evs"
  shows "\<exists>t e. sys_run env s (map Dispatch evs @ [WakeDone c]) = Some t \<and>
    callers t c = call_resolved env call e \<and> entry_err e = None \<and> cancelled e = None \<and>
    fragments e = fragments (store (bridge s) ! a) @ own_results i evs"
proof -
  note inv = clean_calls.reachable_inv [OF assms(1)]
  have wf: "bridge_wf (bridge s)" by (rule reachable_bridge_wf [OF assms(1)])
  obtain g where e: "store (foldl dispatch_event (bridge s) evs) ! a = (store (bridge s) ! a)
      \<lparr>fragments := fragments (store (bridge s) ! a) @ own_results i evs, closed := True, grant := g\<rparr>"
    using reply_collected [OF wf assms(3-5)] by blast
  have "entry_err (store (bridge s) ! a) = None" "cancelled (store (bridge s) ! a) = None"
    using inv assms(3) by (auto simp: clean_entries_def)
  with e assms(2) show ?thesis
    by (simp add: run_dispatches set_caller_def)
      (intro exI [of _ "store (foldl dispatch_event (bridge s) evs) ! a"], simp)
qed

text \<open>The outputs of a reply: an unchunked message carries them whole, chunks are joined.\<close>

definition reply_outputs :: "call_env \<Rightarrow> ToolCallResult list \<Rightarrow> string result" where
  "reply_outputs env rs =
     (case rs of [r] \<Rightarrow> (case tcr_chunk r of None \<Rightarrow> Ok (tcr_outputs_json r)
                        | Some _ \<Rightarrow> JoinToolCallResultOutputs env rs)
      | _ \<Rightarrow> JoinToolCallResultOutputs env rs)"

lemma finish_fragments:
  assumes "entry_err e = None" "cancelled e = None" "fragments e = rs" "rs \<noteq> []"
  shows "tcr_call_error (hd rs) \<noteq> [] \<Longrightarrow>
      call_resolved env call e = Finished (failed (ToolCallError (tcr_call_error (hd rs))))"
    and "tcr_call_error (hd rs) = [] \<Longrightarrow> reply_outputs env rs = Ok json \<Longrightarrow>
      decodeToolCallOutputs json = Ok out \<Longrightarrow>
      call_resolved env call e = Finished (tcr_outcome (hd rs), out, None)"
    and "tcr_call_error (hd rs) = [] \<Longrightarrow> call_resolved env call e \<noteq> Finished (failed (ToolCallError code))"
  using assms
  by (auto simp: call_resolved_def finishToolCall_def reply_outputs_def result_defs
      split: list.splits option.splits if_splits sum.splits)

lemma complete_reply_nonempty: "complete_reply rs \<Longrightarrow> fs @ rs \<noteq> []"
  by (simp add: complete_reply_def)

text \<open>C9: a reply reaches the call it belongs to and nothing else does. Once the fragments of
  a call's reply have arrived, in order and up to the resolving one, with any events of other calls (and grants) in
  between, the call returns the outcome of its first fragment and the decoded outputs of exactly those fragments.\<close>

theorem reply_completes_call:
  assumes "(call_step env)\<^sup>*\<^sup>* init_sys s" "callers s c = Selecting call w i a"
    and "pending (bridge s) i = Some a" "complete_reply (own_results i evs)" "\<not> list_ex (cancels i) evs"
    and "rs = fragments (store (bridge s) ! a) @ own_results i evs" "tcr_call_error (hd rs) = []"
    and "reply_outputs env rs = Ok json" "decodeToolCallOutputs json = Ok out"
  shows "\<exists>t. sys_run env s (map Dispatch evs @ [WakeDone c]) = Some t \<and>
    callers t c = Finished (tcr_outcome (hd rs), out, None)"
proof -
  obtain t e where "sys_run env s (map Dispatch evs @ [WakeDone c]) = Some t"
    "callers t c = call_resolved env call e" "entry_err e = None" "cancelled e = None" "fragments e = rs"
    using reply_wakes_call [OF assms(1-5)] assms(6) by blast
  moreover have "rs \<noteq> []" using complete_reply_nonempty [OF assms(4)] assms(6) by simp
  ultimately show ?thesis using finish_fragments(2) [of e rs env json out call] assms(7-9) by auto
qed

definition sample_result :: "string \<Rightarrow> ToolCallResult" where
  "sample_result i = \<lparr>tcr_request_id = i, tcr_outcome = ''done'', tcr_outputs_json = ''{}'',
     tcr_call_error = [], tcr_chunk = None\<rparr>"

definition sample_events :: "PermissionEvent list" where
  "sample_events = [PE_Request sample_id, PE_ToolCallResult (sample_result ''other''),
     PE_ToolCallResult (sample_result sample_id)]"

lemma sample_id_not_other [simp]: "sample_id \<noteq> ''other''" "''other'' \<noteq> sample_id"
  by (simp_all add: sample_id_def)

lemma sample_events_simps:
  "own_results sample_id sample_events = [sample_result sample_id]"
  "\<not> list_ex (cancels sample_id) sample_events"
  "complete_reply [sample_result sample_id]" "tcr_call_error (sample_result i) = []"
  by (simp_all add: sample_events_def sample_result_def complete_reply_def last_fragment_def)

lemma sample_pending:
  "pending (bridge sample_state) sample_id = Some 0" "fragments (store (bridge sample_state) ! 0) = []"
  by (simp_all add: sample_state_def fresh_entry_def)

theorem reply_completes_call_witness:
  "\<exists>t. sys_run sample_env sample_state (map Dispatch sample_events @ [WakeDone 0]) = Some t \<and>
    callers t 0 = Finished (''done'', Some [], None)"
proof -
  let ?r = "sample_result sample_id"
  have decode: "decodeToolCallOutputs ''{}'' = Ok (Some [])" by code_simp
  have r: "complete_reply (own_results sample_id sample_events)"
    "[?r] = fragments (store (bridge sample_state) ! 0) @ own_results sample_id sample_events"
    "tcr_call_error (hd [?r]) = []" "reply_outputs sample_env [?r] = Ok ''{}''" "tcr_outcome (hd [?r]) = ''done''"
    by (simp_all add: sample_pending sample_events_simps reply_outputs_def) (simp_all add: sample_result_def)
  show ?thesis
    using reply_completes_call [OF sample_reachable sample_selecting sample_pending(1) r(1)
        sample_events_simps(2) r(2,3,4) decode] unfolding r(5) .
qed

text \<open>C31: a typed failure of the host in the first fragment of a reply reaches the caller unchanged. If nothing of a waiting call's
  reply has come, then after any events in which the only result for the call carries a code of failure, and none cancels it, the call returns
  a \<open>ToolCallError\<close> with that code, which matches the sentinel \<open>ErrHostUnsupported\<close> exactly for the code \<open>host_unsupported\<close> (and no other sentinel).\<close>

theorem host_failure_is_typed:
  assumes "(call_step env)\<^sup>*\<^sup>* init_sys s" "callers s c = Selecting call w i a"
    and "pending (bridge s) i = Some a" "fragments (store (bridge s) ! a) = []"
    and "own_results i evs = [r]" "\<not> list_ex (cancels i) evs" "tcr_call_error r \<noteq> []"
  shows "\<exists>t e. sys_run env s (map Dispatch evs @ [WakeDone c]) = Some t \<and>
    callers t c = Finished (failed e) \<and> e = ToolCallError (tcr_call_error r) \<and>
    (\<forall>target. errors_is e target \<longleftrightarrow>
       target = ErrHostUnsupported \<and> tcr_call_error r = CallErrHostUnsupported)"
proof -
  have "complete_reply (own_results i evs)" using assms(5,7) by (simp add: complete_reply_def last_fragment_def)
  then obtain t e where "sys_run env s (map Dispatch evs @ [WakeDone c]) = Some t"
    "callers t c = call_resolved env call e" "entry_err e = None" "cancelled e = None" "fragments e = [r]"
    using reply_wakes_call [OF assms(1-3) _ assms(6)] assms(4,5) by auto
  with finish_fragments(1) [of e "[r]" env call] assms(7) show ?thesis
    by (auto simp: ToolCallError_Is_def)
qed

definition sample_failure :: ToolCallResult where
  "sample_failure = (sample_result sample_id)\<lparr>tcr_call_error := CallErrHostUnsupported\<rparr>"

theorem host_failure_is_typed_witness:
  "\<exists>t e. sys_run sample_env sample_state (map Dispatch [PE_ToolCallResult (sample_result ''other''), PE_ToolCallResult sample_failure] @
      [WakeDone 0]) = Some t \<and> callers t 0 = Finished (failed e) \<and> errors_is e ErrHostUnsupported"
proof -
  let ?evs = "[PE_ToolCallResult (sample_result ''other''), PE_ToolCallResult sample_failure]"
  have "sample_id \<noteq> ''other''" by code_simp
  then have own: "own_results sample_id ?evs = [sample_failure]" "\<not> list_ex (cancels sample_id) ?evs"
    by (simp_all add: sample_failure_def sample_result_def)
  have r: "tcr_call_error sample_failure \<noteq> []" "tcr_call_error sample_failure = CallErrHostUnsupported"
    by (simp_all add: sample_failure_def sample_result_def CallErrHostUnsupported_def)
  show ?thesis
    using host_failure_is_typed [OF sample_reachable sample_selecting sample_pending own r(1)] r(2) by blast
qed

text \<open>C32: a denial reaches the caller as \<open>ErrDenied\<close>, with the host's reason at the end of the text
  whenever it gave one.\<close>

theorem denial_is_typed:
  assumes "(call_step env)\<^sup>*\<^sup>* init_sys s" "callers s c = Selecting call w i a"
    and "pending (bridge s) i = Some a" "cancel_request_id pc = i"
  shows "\<exists>t e pre. sys_run env s [Dispatch (PE_Cancel pc), WakeDone c] = Some t \<and>
    callers t c = Finished (failed e) \<and> errors_is e ErrDenied \<and> \<not> errors_is e ErrHostUnsupported \<and>
    (cancel_reason pc \<noteq> [] \<longrightarrow> error_text tenv e = pre @ '': '' @ cancel_reason pc)"
proof -
  have wf: "bridge_wf (bridge s)" by (rule reachable_bridge_wf [OF assms(1)])
  note a = bridge_wf_pendingD(1,2) [OF wf assms(3)]
  have "entry_err (store (bridge s) ! a) = None"
    using clean_calls.reachable_inv [OF assms(1)] assms(3) by (auto simp: clean_entries_def)
  with a have e: "store (dispatch_event (bridge s) (PE_Cancel pc)) ! a =
      (store (bridge s) ! a)\<lparr>cancelled := Some pc, closed := True\<rparr>"
    using assms(3,4)
    by (simp add: dispatch_event_def routeCancel_def close_updated store_update_entry)
  show ?thesis
    using assms(2) e \<open>entry_err _ = None\<close>
    by (auto simp: call_resolved_def finishToolCall_def set_caller_def Let_def args_text_def)
qed

definition sample_denial :: PermissionCancel where
  "sample_denial = \<lparr>cancel_request_id = sample_id, cancel_reason = ''no''\<rparr>"

theorem denial_is_typed_witness:
  "\<exists>t e pre. sys_run sample_env sample_state [Dispatch (PE_Cancel sample_denial), WakeDone 0] = Some t \<and>
    callers t 0 = Finished (failed e) \<and> errors_is e ErrDenied \<and>
    error_text \<lparr>quote_text = (\<lambda>x. x), status_text = (\<lambda>_ x. x)\<rparr> e = pre @ '': '' @ ''no''"
proof -
  have r: "cancel_request_id sample_denial = sample_id" "cancel_reason sample_denial = ''no''" "''no'' \<noteq> []"
    by (simp_all add: sample_denial_def)
  show ?thesis
    using denial_is_typed [OF sample_reachable sample_selecting sample_pending(1) r(1),
      of "\<lparr>quote_text = (\<lambda>x. x), status_text = (\<lambda>_ x. x)\<rparr>"] r(3) unfolding r(2) by blast
qed

text \<open>C35: a failure code that arrives after the first fragment of a chunked reply is not reported as
  such. The dispatch loop resolves the call on it, but only the first fragment is asked for a code, so the call
  never returns a bare \<open>ToolCallError\<close>, although \<open>routeResult\<close> treats the code as the outcome of the call.\<close>

theorem late_failure_is_not_typed:
  assumes "(call_step env)\<^sup>*\<^sup>* init_sys s" "callers s c = Selecting call w i a"
    and "pending (bridge s) i = Some a" "fragments (store (bridge s) ! a) = f # fs" "tcr_call_error f = []"
    and "tcr_request_id r = i" "tcr_call_error r \<noteq> []"
  shows "\<exists>t. sys_run env s [Dispatch (PE_ToolCallResult r), WakeDone c] = Some t \<and>
    pending (bridge t) i = None \<and> (\<forall>code. callers t c \<noteq> Finished (failed (ToolCallError code)))"
proof -
  have wf: "bridge_wf (bridge s)" by (rule reachable_bridge_wf [OF assms(1)])
  have res: "resolving r" using assms(7) by (simp add: resolving_def)
  let ?b = "dispatch_event (bridge s) (PE_ToolCallResult r)"
  note own = dispatch_own [OF wf assms(3,6)]
  have "entry_err (store (bridge s) ! a) = None" "cancelled (store (bridge s) ! a) = None"
    using clean_calls.reachable_inv [OF assms(1)] assms(3) by (auto simp: clean_entries_def)
  then have "call_resolved env call (store ?b ! a) \<noteq> Finished (failed (ToolCallError code))" for code
    using own(1) assms(4,5) by (intro finish_fragments(3) [of _ "f # fs @ [r]"]) simp_all
  with assms(2) own(1,2) res show ?thesis by (simp add: set_caller_def)
qed

definition sample_chunk :: ToolCallResult where
  "sample_chunk = (sample_result sample_id)\<lparr>tcr_chunk := Some \<lparr>chunk_seq = 0, chunk_total = 2, chunk_final = False\<rparr>\<rparr>"

definition sample_chunk_state :: call_sys where
  "sample_chunk_state = sample_state\<lparr>bridge := dispatch_event (bridge sample_state) (PE_ToolCallResult sample_chunk)\<rparr>"

lemma sample_chunk_reachable: "(call_step sample_env)\<^sup>*\<^sup>* init_sys sample_chunk_state"
proof -
  have "sys_run sample_env sample_state [Dispatch (PE_ToolCallResult sample_chunk)] = Some sample_chunk_state"
    by (simp add: sample_chunk_state_def)
  from sample_reachable sys_run_steps [OF this] show ?thesis by (rule rtranclp_trans)
qed

theorem late_failure_is_not_typed_witness:
  "\<exists>t. sys_run sample_env sample_chunk_state [Dispatch (PE_ToolCallResult sample_failure), WakeDone 0] = Some t \<and>
    pending (bridge t) sample_id = None \<and>
    (\<forall>code. callers t 0 \<noteq> Finished (failed (ToolCallError code)))"
proof -
  have s: "callers sample_chunk_state 0 = Selecting sample_call (Some (unat DefaultToolCallTimeout)) sample_id 0"
    "pending (bridge sample_chunk_state) sample_id = Some 0"
    "fragments (store (bridge sample_chunk_state) ! 0) = [sample_chunk]"
    by (simp_all add: sample_chunk_state_def sample_state_def dispatch_event_def routeResult_def
        sample_chunk_def sample_result_def resolving_def update_entry_def fresh_entry_def)
  have r: "tcr_call_error sample_chunk = []" "tcr_request_id sample_failure = sample_id" "tcr_call_error sample_failure \<noteq> []"
    by (simp_all add: sample_chunk_def sample_failure_def sample_result_def CallErrHostUnsupported_def)
  show ?thesis by (rule late_failure_is_not_typed [OF sample_chunk_reachable s r])
qed

section \<open>The session cache\<close>

lemma unsupported_dispatch [simp]:
  "unsupportedSessions (dispatch_event b ev) = unsupportedSessions b"
  by (cases ev) (auto simp: dispatch_event_def markGranted_def routeCancel_def routeResult_def Let_def
      split: option.splits)

lemma unsupported_close [simp]: "unsupportedSessions (close_entry a b) = unsupportedSessions b"
  by (simp add: close_entry_def)

lemma unsupported_ops [simp]:
  "unsupportedSessions (snd (register i b)) = unsupportedSessions b"
  "unsupportedSessions (remove i b) = unsupportedSessions b"
  "unsupportedSessions (snd (takeGrant i b)) = unsupportedSessions b"
  "unsupportedSessions (snd (closeAll_collect ids b)) = unsupportedSessions b"
  "unsupportedSessions (cacheUnsupported sid b) = insert sid (unsupportedSessions b)"
  by (simp_all add: register_def remove_def takeGrant_def closeAll_collect_def cacheUnsupported_def)

text \<open>The cache grows only in the last step of a call that was granted and ran into its deadline.\<close>

lemma unsupported_step:
  assumes "sys_step env s a = Some t"
  shows "unsupportedSessions (bridge t) = unsupportedSessions (bridge s) \<or>
    (\<exists>c call i. a = AfterGrant c \<and> callers s c = TookGrant call i True True \<and>
       unsupportedSessions (bridge t) = insert (SessionID call) (unsupportedSessions (bridge s)))"
  using assms
  by (cases a) (auto simp: set_caller_def call_sent_def call_ctx_done_def call_after_grant_def
      case_prod_beta Let_def split: caller.splits option.splits if_splits)

lemma unsupported_mono:
  "(call_step env)\<^sup>*\<^sup>* s t \<Longrightarrow> unsupportedSessions (bridge s) \<subseteq> unsupportedSessions (bridge t)"
proof (induction rule: rtranclp_induct)
  case (step u v)
  from step.hyps(2) obtain a where "sys_step env u a = Some v" by cases
  with unsupported_step [OF this] step.IH show ?case by auto
qed simp

text \<open>Once a session is in the cache, every later valid call on it fails at once: the call
  returns the host-unsupported failure in its first step, nothing is sent and the bridge is left as it was.\<close>

theorem cached_session_fails_fast:
  assumes "SessionID call \<in> unsupportedSessions (bridge s)" "(call_step env)\<^sup>*\<^sup>* s t"
    and "callers t c = Idle" "validate_call call = None"
  shows "\<exists>u e. sys_run env t [Call c (Some dl) True call] = Some u \<and>
    callers u c = Finished (failed e) \<and> errors_is e ErrHostUnsupported \<and>
    sent u = sent t \<and> bridge u = bridge t"
proof -
  have "sessionUnsupported (SessionID call) (bridge t)"
    using unsupported_mono [OF assms(2)] assms(1) by (auto simp: sessionUnsupported_def)
  with assms(3,4) show ?thesis
    by (simp add: call_begin_def set_caller_def ToolCallError_Is_def)
qed

definition sample_old_host :: "action list" where
  "sample_old_host = [Dispatch (PE_Request sample_id), Tick (unat DefaultToolCallTimeout), CtxEnd 0 True, WakeCtx 0 True, AfterGrant 0]"

lemma sample_id_nonempty [simp]: "sample_id \<noteq> []"
  by (simp add: sample_id_def)

lemma sample_old_host:
  "\<exists>t. sys_run sample_env sample_state sample_old_host = Some t \<and>
     unsupportedSessions (bridge t) = {''s''} \<and> callers t 1 = Idle"
  by (simp add: sample_old_host_def sample_state_def dispatch_event_def markGranted_def update_entry_def
      call_ctx_done_def takeGrant_def call_after_grant_def cacheUnsupported_def set_caller_def
      sample_call_simps)

theorem cached_session_fails_fast_witness:
  "\<exists>t u e. sys_run sample_env sample_state sample_old_host = Some t \<and>
    sys_run sample_env t [Call 1 (Some None) True sample_call] = Some u \<and>
    callers u 1 = Finished (failed e) \<and> errors_is e ErrHostUnsupported \<and>
    sent u = sent t \<and> bridge u = bridge t"
proof -
  obtain t where t: "sys_run sample_env sample_state sample_old_host = Some t"
    "unsupportedSessions (bridge t) = {''s''}" "callers t 1 = Idle" using sample_old_host by blast
  then have "SessionID sample_call \<in> unsupportedSessions (bridge t)" by (simp add: sample_call_simps)
  from cached_session_fails_fast [OF this rtranclp.rtrancl_refl t(3) sample_call_simps(1), of sample_env None] t(1)
  show ?thesis by blast
qed

text \<open>
  What a run so far has to contain for a session to be in the cache. The evidence is carried by the
  entries in the map and by the calls that have taken their grant.
\<close>

definition issued_call :: "action list \<Rightarrow> nat \<Rightarrow> AdapterToolCall \<Rightarrow> bool" where
  "issued_call as c call \<longleftrightarrow> (\<exists>ctx sink. Call c ctx sink call \<in> set as)"

definition minted_id :: "action list \<Rightarrow> nat \<Rightarrow> string \<Rightarrow> bool" where
  "minted_id as c i \<longleftrightarrow> (\<exists>rnd n. Mint c rnd \<in> set as \<and> i = fst (newToolCallRequestID rnd n))"

definition old_host_evidence :: "action list \<Rightarrow> string \<Rightarrow> bool" where
  "old_host_evidence as sid \<longleftrightarrow>
     (\<exists>c call i. issued_call as c call \<and> SessionID call = sid \<and> minted_id as c i \<and>
        Dispatch (PE_Request i) \<in> set as \<and> WakeCtx c True \<in> set as)"

definition grants_seen :: "action list \<Rightarrow> ToolCallBridge \<Rightarrow> bool" where
  "grants_seen as b \<longleftrightarrow>
     (\<forall>i a. pending b i = Some a \<and> grant (store b ! a) \<longrightarrow> Dispatch (PE_Request i) \<in> set as)"

definition call_evidence :: "action list \<Rightarrow> nat \<Rightarrow> AdapterToolCall \<Rightarrow> string \<Rightarrow> bool" where
  "call_evidence as c call i \<longleftrightarrow> issued_call as c call \<and> minted_id as c i"

fun caller_evidence :: "action list \<Rightarrow> nat \<Rightarrow> caller \<Rightarrow> bool" where
  "caller_evidence as c (Checked call dl) = issued_call as c call"
| "caller_evidence as c (Minted call dl i payload) = call_evidence as c call i"
| "caller_evidence as c (Registered call dl i payload a) = call_evidence as c call i"
| "caller_evidence as c (Selecting call w i a) = call_evidence as c call i"
| "caller_evidence as c (TookGrant call i granted deadline) =
     (call_evidence as c call i \<and> (granted \<longrightarrow> Dispatch (PE_Request i) \<in> set as) \<and>
      (deadline \<longrightarrow> WakeCtx c True \<in> set as))"
| "caller_evidence as c _ = True"

definition evidence :: "action list \<Rightarrow> call_sys \<Rightarrow> bool" where
  "evidence as s \<longleftrightarrow>
     grants_seen as (bridge s) \<and> (\<forall>c. caller_evidence as c (callers s c)) \<and>
     (\<forall>sid \<in> unsupportedSessions (bridge s). old_host_evidence as sid)"

lemma evidence_mono:
  assumes "set as \<subseteq> set bs"
  shows "caller_evidence as c p \<Longrightarrow> caller_evidence bs c p"
    and "old_host_evidence as sid \<Longrightarrow> old_host_evidence bs sid"
    and "grants_seen as b \<Longrightarrow> grants_seen bs b"
proof -
  have call: "issued_call as c call \<Longrightarrow> issued_call bs c call" for c call
    using assms by (auto simp: issued_call_def)
  have mint: "minted_id as c i \<Longrightarrow> minted_id bs c i" for c i
    using assms unfolding minted_id_def by blast
  show "caller_evidence as c p \<Longrightarrow> caller_evidence bs c p"
    using assms call mint by (cases p) (auto simp: call_evidence_def)
  show "old_host_evidence as sid \<Longrightarrow> old_host_evidence bs sid"
    using assms call mint unfolding old_host_evidence_def by blast
  show "grants_seen as b \<Longrightarrow> grants_seen bs b"
    using assms by (auto simp: grants_seen_def)
qed

lemma grants_seen_dispatch:
  assumes "bridge_wf b" "grants_seen as b"
  shows "grants_seen (as @ [Dispatch ev]) (dispatch_event b ev)"
proof -
  have "Dispatch (PE_Request i) \<in> set (as @ [Dispatch ev])"
    if "view_of (dispatch_event b ev) i = InFlight True fs" for i fs
  proof (cases "view_of b i")
    case Absent
    with that view_dispatch [OF assms(1), of ev i] show ?thesis by simp
  next
    case (InFlight g gs)
    show ?thesis
    proof (cases g)
      case True
      with InFlight assms(2) show ?thesis
        by (auto simp: grants_seen_def view_of_def split: option.splits)
    next
      case False
      with InFlight that view_dispatch [OF assms(1), of ev i] show ?thesis
        by (cases ev) (auto split: if_splits)
    qed
  qed
  then show ?thesis by (auto simp: grants_seen_def view_of_def split: option.splits)
qed

lemma grants_seen_step:
  assumes "sys_safe s" "grants_seen as (bridge s)" "sys_step env s a = Some t"
  shows "grants_seen (as @ [a]) (bridge t)"
proof (cases "\<exists>ev. a = Dispatch ev")
  case True
  with assms(3) grants_seen_dispatch [OF _ assms(2)] assms(1) show ?thesis
    by (auto simp: sys_safe_def inv_bridge_def)
next
  case False
  have wf: "inv_bridge (bridge s) (closing s)" "bridge_wf (bridge s)"
    using assms(1) by (auto simp: sys_safe_def inv_bridge_def)
  have reg: "grants_seen as (snd (register i (bridge s)))" for i
    using assms(2) bridge_wf_pendingD(1) [OF wf(2)]
    by (auto simp: grants_seen_def register_def fresh_entry_def nth_append)
  have del: "grants_seen as (delete_pending i (bridge s))" for i
    using assms(2) by (auto simp: grants_seen_def)
  have cache: "grants_seen as (cacheUnsupported sid (bridge s))" for sid
    using assms(2) by (simp add: grants_seen_def cacheUnsupported_def)
  have coll: "grants_seen as (snd (closeAll_collect ids (bridge s)))" for ids
    using assms(2) by (auto simp: grants_seen_def closeAll_collect_def)
  have close: "grants_seen as (close_entry x (bridge s))" if "x \<in> set (closing s)" for x
    using assms(2) wf(1) that
    by (auto simp: grants_seen_def inv_bridge_def close_entry_def close_done_def update_entry_def nth_list_update
        split: if_splits)
  have "grants_seen as (bridge t)"
    using assms(2,3) False reg cache del coll close
    by (cases a) (auto simp: set_caller_def call_sent_def call_ctx_done_def call_after_grant_def
        takeGrant_def remove_def case_prod_beta Let_def split: caller.splits option.splits if_splits)
  then show ?thesis by (rule evidence_mono(3) [rotated]) auto
qed

lemma caller_evidence_step:
  assumes "grants_seen as (bridge s)" "caller_evidence as c (callers s c)" "sys_step env s a = Some t"
  shows "caller_evidence (as @ [a]) c (callers t c)"
proof -
  have more: "caller_evidence (as @ [a]) c (callers s c)"
    by (rule evidence_mono(1) [OF _ assms(2)]) auto
  have grant: "Dispatch (PE_Request i) \<in> set as" if "fst (takeGrant i (bridge s))" for i
    using that assms(1) by (auto simp: takeGrant_def grants_seen_def split: option.splits)
  show ?thesis
  proof (cases a)
    case (Call d ctx sink call)
    then have "issued_call (as @ [a]) d call"
      unfolding issued_call_def by (intro exI [of _ ctx] exI [of _ sink]) simp
    with Call assms(3) more show ?thesis
      by (auto simp: set_caller_def call_begin_def split: caller.splits option.splits)
  next
    case (Mint d rnd)
    then have "minted_id (as @ [a]) d (fst (newToolCallRequestID rnd n))" for n
      unfolding minted_id_def by (intro exI [of _ rnd] exI [of _ n]) simp
    with Mint assms(3) more show ?thesis
      by (auto simp: set_caller_def call_payload_def call_evidence_def case_prod_beta
          split: caller.splits sum.splits)
  next
    case (WakeCtx d dl)
    with assms(3) more grant show ?thesis
      by (auto simp: set_caller_def call_ctx_done_def case_prod_beta split: caller.splits if_splits)
  qed (use assms(3) more in \<open>auto simp: set_caller_def call_sent_def call_resolved_def call_after_grant_def
      case_prod_beta Let_def split: caller.splits option.splits if_splits\<close>)
qed

lemma evidence_step:
  assumes "sys_safe s" "evidence as s" "sys_step env s a = Some t"
  shows "evidence (as @ [a]) t"
proof -
  have old: "old_host_evidence (as @ [a]) sid" if "sid \<in> unsupportedSessions (bridge s)" for sid
    using assms(2) that by (intro evidence_mono(2) [of as "as @ [a]" sid]) (auto simp: evidence_def)
  have "old_host_evidence (as @ [a]) (SessionID call)" if "callers s c = TookGrant call i True True" for c call i
  proof -
    have "caller_evidence as c (TookGrant call i True True)"
      using assms(2) that by (metis evidence_def)
    then have "issued_call as c call" "minted_id as c i" "Dispatch (PE_Request i) \<in> set as" "WakeCtx c True \<in> set as"
      by (simp_all add: call_evidence_def)
    then have "old_host_evidence as (SessionID call)" unfolding old_host_evidence_def by blast
    then show ?thesis by (rule evidence_mono(2) [rotated]) auto
  qed
  with old unsupported_step [OF assms(3)]
  have "\<forall>sid \<in> unsupportedSessions (bridge t). old_host_evidence (as @ [a]) sid" by auto
  with assms grants_seen_step [OF assms(1) _ assms(3)] caller_evidence_step [OF _ _ assms(3)]
  show ?thesis by (simp add: evidence_def)
qed

lemma evidence_run:
  "sys_safe s \<Longrightarrow> evidence as s \<Longrightarrow> sys_run env s bs = Some t \<Longrightarrow> evidence (as @ bs) t"
proof (induction bs arbitrary: s as)
  case (Cons b bs)
  then obtain u where u: "sys_step env s b = Some u" "sys_run env u bs = Some t"
    by (auto split: option.splits)
  have "evidence ((as @ [b]) @ bs) t"
    by (rule Cons.IH [OF sys_safe_step [OF Cons.prems(1) u(1)] evidence_step [OF Cons.prems(1,2) u(1)] u(2)])
  then show ?case by simp
qed simp

text \<open>C33: a session is only ever put in the cache on the signature of an old host: in the run up to
  that point some call was made on the session, the permission stream delivered an allow-grant for the id minted for
  that call, and the call then ran into its deadline. A cancelled context, a denial or a reply never marks a session.\<close>

theorem session_cached_only_on_evidence:
  assumes "sys_run env init_sys as = Some s" "sessionUnsupported sid (bridge s)"
  shows "\<exists>c ctx sink call rnd n i. Call c ctx sink call \<in> set as \<and> SessionID call = sid \<and>
    Mint c rnd \<in> set as \<and> i = fst (newToolCallRequestID rnd n) \<and>
    Dispatch (PE_Request i) \<in> set as \<and> WakeCtx c True \<in> set as"
proof -
  have "evidence [] init_sys"
    by (simp add: evidence_def init_sys_def NewToolCallBridge_def grants_seen_def)
  from evidence_run [OF calls.inv_init this assms(1)] assms(2) have "old_host_evidence as sid"
    by (auto simp: evidence_def sessionUnsupported_def)
  then show ?thesis unfolding old_host_evidence_def issued_call_def minted_id_def by blast
qed

theorem session_cached_only_on_evidence_witness:
  "\<exists>s. sys_run sample_env init_sys (sample_run @ sample_old_host) = Some s \<and> sessionUnsupported ''s'' (bridge s) \<and>
    (\<exists>c ctx sink call rnd n i. Call c ctx sink call \<in> set (sample_run @ sample_old_host) \<and> SessionID call = ''s'' \<and>
       Mint c rnd \<in> set (sample_run @ sample_old_host) \<and> i = fst (newToolCallRequestID rnd n) \<and>
       Dispatch (PE_Request i) \<in> set (sample_run @ sample_old_host) \<and>
       WakeCtx c True \<in> set (sample_run @ sample_old_host))"
proof -
  obtain t where t: "sys_run sample_env sample_state sample_old_host = Some t"
    "unsupportedSessions (bridge t) = {''s''}" using sample_old_host by blast
  have run: "sys_run sample_env init_sys (sample_run @ sample_old_host) = Some t"
    by (rule sys_run_append [OF sample_run t(1)])
  have "sessionUnsupported ''s'' (bridge t)" using t(2) by (simp add: sessionUnsupported_def)
  with run session_cached_only_on_evidence [OF run this] show ?thesis by blast
qed

section \<open>A reply that was cut short\<close>

text \<open>C34: a reply that is late is taken for no reply. If a call was granted and the first chunk of its result has
  arrived, and the deadline passes before the last chunk, the call fails with the host-unsupported code and its session is cached, although the
  host did send a tool-call result: the chunk is in the entry, and a later valid call on the session fails without being sent.\<close>

theorem partial_reply_marks_session:
  assumes "(call_step env)\<^sup>*\<^sup>* init_sys s" "callers s c = Selecting call (Some d) i a" "ctx_ended s c = None"
    and "pending (bridge s) i = Some a" "i \<noteq> []"
    and "tcr_request_id r = i" "tcr_call_error r = []" "tcr_chunk r = Some ch" "\<not> chunk_final ch"
    and "SessionID call' = SessionID call" "validate_call call' = None"
  shows "\<exists>t. sys_run env s [Dispatch (PE_Request i), Dispatch (PE_ToolCallResult r), Tick d, CtxEnd c True, WakeCtx c True, AfterGrant c] = Some t \<and>
    callers t c = Finished (failed (ToolCallError CallErrHostUnsupported)) \<and>
    r \<in> set (fragments (store (bridge t) ! a)) \<and>
    call_begin (bridge t) (Some dl) True call' = Finished (failed (ToolCallError CallErrHostUnsupported))"
proof -
  have a: "a < length (store (bridge s))" by (rule reachable_address [OF assms(1,2)])
  have "\<not> resolving r" using assms(7-9) by (simp add: resolving_def)
  with a assms(2-6,10,11) show ?thesis
    by (simp add: dispatch_event_def markGranted_def routeResult_def update_entry_def call_ctx_done_def takeGrant_def
        call_after_grant_def set_caller_def cacheUnsupported_def call_begin_def sessionUnsupported_def)
qed

theorem partial_reply_marks_session_witness:
  "\<exists>t. sys_run sample_env sample_state [Dispatch (PE_Request sample_id), Dispatch (PE_ToolCallResult sample_chunk),
       Tick (unat DefaultToolCallTimeout), CtxEnd 0 True, WakeCtx 0 True, AfterGrant 0] = Some t \<and>
     callers t 0 = Finished (failed (ToolCallError CallErrHostUnsupported)) \<and>
     call_begin (bridge t) (Some None) True sample_call = Finished (failed (ToolCallError CallErrHostUnsupported))"
proof -
  have i: "sample_id \<noteq> []" by (simp add: sample_id_def)
  have running: "ctx_ended sample_state 0 = None" by (simp add: sample_state_def)
  have r: "tcr_request_id sample_chunk = sample_id" "tcr_call_error sample_chunk = []"
    "tcr_chunk sample_chunk = Some \<lparr>chunk_seq = 0, chunk_total = 2, chunk_final = False\<rparr>"
    by (simp_all add: sample_chunk_def sample_result_def)
  have open_chunk: "\<not> chunk_final \<lparr>chunk_seq = 0, chunk_total = 2, chunk_final = False\<rparr>" by simp
  show ?thesis
    using partial_reply_marks_session [OF sample_reachable sample_selecting running sample_pending(1) i r open_chunk refl
        sample_call_simps(1), of None] by blast
qed

end
