(* ===== verification/Tool_Call_Termination.thy ===== *)
theory Tool_Call_Termination
  imports Tool_Call_System
begin

text \<open>
  Why a call of \<open>CallAdapterTool\<close> (\<open>src/adapterhost/toolcall.go\<close>) returns. Its goroutine has no loop, so each
  of its steps brings it closer to its return, and nothing another goroutine does moves it back. The only point where it
  waits is its select, and there the context it waits under always has a deadline.
\<close>

section \<open>The steps a call has left\<close>

fun steps_left :: "caller \<Rightarrow> nat" where
  "steps_left Idle = 6"
| "steps_left (Checked call dl) = 5"
| "steps_left (Minted call dl i payload) = 4"
| "steps_left (Registered call dl i payload a) = 3"
| "steps_left (Selecting call w i a) = 2"
| "steps_left (TookGrant call i granted deadline) = 1"
| "steps_left (Finished r) = 0"
| "steps_left Crashed = 0"

fun caller_of :: "action \<Rightarrow> nat option" where
  "caller_of (Call c ctx sink call) = Some c"
| "caller_of (Mint c rnd) = Some c"
| "caller_of (Register c) = Some c"
| "caller_of (SinkSend c err) = Some c"
| "caller_of (WakeDone c) = Some c"
| "caller_of (WakeCtx c deadline) = Some c"
| "caller_of (AfterGrant c) = Some c"
| "caller_of (Dispatch ev) = None"
| "caller_of (StreamEnd ids) = None"
| "caller_of (CloseOne a) = None"
| "caller_of (Tick n) = None"
| "caller_of (CtxEnd c deadline) = None"

lemma run_steps_sys_run: "run_steps (sys_step env) s as = sys_run env s as"
  by (induction as arbitrary: s) (auto split: option.splits)

lemma callers_set_caller [simp]: "callers (set_caller c p s) d = (if d = c then p else callers s d)"
  by (simp add: set_caller_def)

lemma steps_left_operations:
  "steps_left (call_begin b ctx sink call) < 6"
  "steps_left (call_payload env call dl i) < 5"
  "steps_left (fst (call_sent time call dl i a err b)) < 3"
  "steps_left (call_resolved env call entry) < 2"
  "steps_left (fst (call_ctx_done call i deadline b)) < 2"
  "steps_left (fst (call_after_grant call i granted deadline b)) = 0"
  by (auto simp: call_begin_def call_payload_def call_sent_def call_resolved_def call_ctx_done_def
      call_after_grant_def split: option.splits sum.splits prod.splits)

lemma own_step_descends:
  assumes "sys_step env s a = Some t" "caller_of a = Some c"
  shows "steps_left (callers t c) < steps_left (callers s c)"
proof (cases a)
  case (Call d ctx sink call)
  with assms show ?thesis
    by (cases "callers s c") (auto simp: Let_def case_prod_beta steps_left_operations split: if_splits)
next
  case (Mint d rnd)
  with assms show ?thesis
    by (cases "callers s c") (auto simp: Let_def case_prod_beta steps_left_operations split: if_splits)
next
  case (Register d)
  with assms show ?thesis
    by (cases "callers s c") (auto simp: Let_def case_prod_beta steps_left_operations split: if_splits)
next
  case (SinkSend d err)
  with assms show ?thesis
    by (cases "callers s c") (auto simp: Let_def case_prod_beta steps_left_operations split: if_splits)
next
  case (WakeDone d)
  with assms show ?thesis
    by (cases "callers s c") (auto simp: Let_def case_prod_beta steps_left_operations split: if_splits)
next
  case (WakeCtx d dl)
  with assms show ?thesis
    by (cases "callers s c") (auto simp: Let_def case_prod_beta steps_left_operations split: if_splits)
next
  case (AfterGrant d)
  with assms show ?thesis
    by (cases "callers s c") (auto simp: Let_def case_prod_beta steps_left_operations split: if_splits)
qed (use assms in auto)

lemma other_step_keeps:
  assumes "sys_step env s a = Some t" "caller_of a \<noteq> Some c"
  shows "callers t c = callers s c"
  using assms by (cases a) (auto simp: Let_def case_prod_beta split: caller.splits if_splits)

interpretation call_turns: counted_system "sys_step env" "\<lambda>a. caller_of a = Some c"
  "\<lambda>s. steps_left (callers s c)" for env c
proof unfold_locales
  show "wf less_than" by (rule wf_less_than)
  show "(steps_left (callers t c), steps_left (callers s c)) \<in> less_than"
    if "sys_step env s a = Some t" "caller_of a = Some c" for s a t
    using that by (simp add: own_step_descends)
  show "steps_left (callers t c) = steps_left (callers s c)"
    if "sys_step env s a = Some t" "caller_of a \<noteq> Some c" for s a t
    using that by (simp add: other_step_keeps)
qed

section \<open>When a call can move\<close>

definition busy :: "caller \<Rightarrow> bool" where
  "busy p \<longleftrightarrow> (case p of Idle \<Rightarrow> False | Finished r \<Rightarrow> False | Crashed \<Rightarrow> False | _ \<Rightarrow> True)"

definition can_move :: "call_env \<Rightarrow> call_sys \<Rightarrow> nat \<Rightarrow> bool" where
  "can_move env s c \<longleftrightarrow> (\<exists>a t. caller_of a = Some c \<and> sys_step env s a = Some t)"

text \<open>Only the select waits, and not once the context of the call is done.\<close>

lemma busy_call_can_move:
  assumes "busy (callers s c)" "\<And>call w i a. callers s c = Selecting call w i a \<Longrightarrow> ctx_ended s c \<noteq> None"
  shows "can_move env s c"
proof (cases "callers s c")
  case (Checked call dl)
  then show ?thesis unfolding can_move_def
    by (intro exI [of _ "Mint c None"]) (simp add: Let_def case_prod_beta)
next
  case (Minted call dl i payload)
  then show ?thesis unfolding can_move_def
    by (intro exI [of _ "Register c"]) (simp add: Let_def case_prod_beta)
next
  case (Registered call dl i payload a)
  then show ?thesis unfolding can_move_def
    by (intro exI [of _ "SinkSend c None"]) (simp add: Let_def case_prod_beta)
next
  case (Selecting call w i a)
  with assms(2) obtain d where "ctx_ended s c = Some d" by blast
  with Selecting show ?thesis unfolding can_move_def
    by (intro exI [of _ "WakeCtx c d"]) (simp add: Let_def case_prod_beta)
next
  case (TookGrant call i granted deadline)
  then show ?thesis unfolding can_move_def
    by (intro exI [of _ "AfterGrant c"]) (simp add: Let_def case_prod_beta)
qed (use assms in \<open>simp_all add: busy_def\<close>)

text \<open>Time does not run backwards, and a context that is done stays done.\<close>

lemma runtime_keeps:
  assumes "sys_step env s a = Some t"
  shows "clock s \<le> clock t" and "ctx_ended s c = Some d \<Longrightarrow> ctx_ended t c = Some d"
  using assms by (cases a; auto simp: Let_def case_prod_beta split: caller.splits if_splits)+

lemma execution_reachable:
  assumes "(call_step env)\<^sup>*\<^sup>* init_sys (\<sigma> 0)" "execution (sys_step env) \<sigma> \<alpha>"
  shows "(call_step env)\<^sup>*\<^sup>* init_sys (\<sigma> n)"
proof (induction n)
  case 0
  show ?case by (rule assms(1))
next
  case (Suc n)
  from this call_step.step [OF executionD [OF assms(2)]] show ?case by (rule rtranclp.rtrancl_into_rtrancl)
qed

lemma started_stays_started:
  assumes "sys_step env s a = Some t" "callers s c \<noteq> Idle"
  shows "callers t c \<noteq> Idle"
proof (cases "caller_of a = Some c")
  case True
  have "steps_left (callers s c) \<le> 5" using assms(2) by (cases "callers s c") simp_all
  moreover have "steps_left (callers t c) < steps_left (callers s c)" by (rule own_step_descends [OF assms(1) True])
  ultimately show ?thesis by auto
next
  case False
  with assms other_step_keeps show ?thesis by auto
qed

lemma finished_stays_finished:
  assumes "execution (sys_step env) \<sigma> \<alpha>" "callers (\<sigma> n) c = Finished r" "n \<le> m"
  shows "callers (\<sigma> m) c = Finished r"
proof (rule execution_keeps [OF assms(1), where P = "\<lambda>s. callers s c = Finished r", OF assms(2,3)])
  fix k
  assume k: "callers (\<sigma> k) c = Finished r" "sys_step env (\<sigma> k) (\<alpha> k) = Some (\<sigma> (Suc k))"
  with own_step_descends [of env "\<sigma> k" "\<alpha> k" "\<sigma> (Suc k)" c] other_step_keeps [of env "\<sigma> k" "\<alpha> k" "\<sigma> (Suc k)" c]
  show "callers (\<sigma> (Suc k)) c = Finished r" by fastforce
qed

section \<open>The deadline ends the wait\<close>

text \<open>
  What is expected of the runtime: time goes on; a context whose deadline has passed is done some time; and a goroutine that could always
  move from some point on is scheduled. Nothing is expected of a wait that is not over.
\<close>

definition runtime_fair :: "call_env \<Rightarrow> (nat \<Rightarrow> call_sys) \<Rightarrow> (nat \<Rightarrow> action) \<Rightarrow> nat \<Rightarrow> bool" where
  "runtime_fair env \<sigma> \<alpha> c \<longleftrightarrow>
     (\<forall>T. \<exists>n. T \<le> clock (\<sigma> n)) \<and>
     (\<forall>n d. ctx_deadline (callers (\<sigma> n) c) = Some d \<and> d \<le> clock (\<sigma> n) \<longrightarrow> (\<exists>m \<ge> n. ctx_ended (\<sigma> m) c \<noteq> None)) \<and>
     (\<forall>n. (\<forall>m \<ge> n. can_move env (\<sigma> m) c) \<longrightarrow> (\<exists>m \<ge> n. caller_of (\<alpha> m) = Some c))"

lemma waiting_unmoved:
  assumes "execution (sys_step env) \<sigma> \<alpha>" "\<And>m. n \<le> m \<Longrightarrow> caller_of (\<alpha> m) \<noteq> Some c" "n \<le> m"
  shows "callers (\<sigma> m) c = callers (\<sigma> n) c"
  using assms(3)
proof (induction m rule: dec_induct)
  case (step k)
  with other_step_keeps [OF executionD [OF assms(1), of k] assms(2)] show ?case by simp
qed simp

lemma busy_call_is_scheduled:
  assumes reach: "(call_step env)\<^sup>*\<^sup>* init_sys (\<sigma> 0)" and run: "execution (sys_step env) \<sigma> \<alpha>"
    and fair: "runtime_fair env \<sigma> \<alpha> c" and busy: "busy (callers (\<sigma> n) c)"
  shows "\<exists>m \<ge> n. caller_of (\<alpha> m) = Some c"
proof (rule ccontr)
  assume "\<not> ?thesis"
  then have still: "callers (\<sigma> m) c = callers (\<sigma> n) c" if "n \<le> m" for m
    using waiting_unmoved [OF run _ that] by blast
  have "\<exists>k \<ge> n. \<forall>m \<ge> k. can_move env (\<sigma> m) c"
  proof (cases "\<exists>call w i a. callers (\<sigma> n) c = Selecting call w i a")
    case False
    then have "can_move env (\<sigma> m) c" if "n \<le> m" for m
      using busy_call_can_move [of "\<sigma> m" c] busy still [OF that] by simp
    then show ?thesis by blast
  next
    case True
    then obtain call i a d where p: "callers (\<sigma> n) c = Selecting call (Some d) i a"
      using reachable_bounded [OF execution_reachable [OF reach run]] by blast
    obtain n1 where n1: "d \<le> clock (\<sigma> n1)" using fair unfolding runtime_fair_def by blast
    let ?k = "max n n1"
    have "clock (\<sigma> n1) \<le> clock (\<sigma> ?k)"
      by (rule execution_keeps [OF run, where P = "\<lambda>s. clock (\<sigma> n1) \<le> clock s" and n = n1])
        (use runtime_keeps(1) in \<open>force+\<close>)
    moreover have "ctx_deadline (callers (\<sigma> ?k) c) = Some d" using still [of ?k] p by simp
    ultimately obtain k e where k: "?k \<le> k" "ctx_ended (\<sigma> k) c = Some e"
      using fair n1 unfolding runtime_fair_def by (metis not_Some_eq order_trans)
    have "can_move env (\<sigma> m) c" if "k \<le> m" for m
    proof -
      have "ctx_ended (\<sigma> m) c = Some e"
        by (rule execution_keeps [OF run, where P = "\<lambda>s. ctx_ended s c = Some e", OF k(2) that]) (rule runtime_keeps(2))
      with busy_call_can_move [of "\<sigma> m" c] busy still [of m] that k(1) show ?thesis by simp
    qed
    with k(1) show ?thesis by (intro exI [of _ k]) auto
  qed
  then obtain k where k: "n \<le> k" "\<forall>m \<ge> k. can_move env (\<sigma> m) c" by blast
  with fair obtain m where "k \<le> m" "caller_of (\<alpha> m) = Some c" unfolding runtime_fair_def by blast
  with k(1) \<open>\<not> ?thesis\<close> show False by (meson order_trans)
qed

text \<open>C5: a tool call terminates. In every execution of the bridge, however long and with whatever other calls,
  events and stream ends, a call that was started takes at most five more steps of its own; as long as it waits, the context it waits under
  has a deadline, the one of the caller or the one the bridge gives it; and it returns, and what it returned does not change. Of the runtime this takes
  that time goes on, that a context whose deadline has passed is done some time, and that a goroutine that can move is scheduled some time. The
  host need not answer, and a context without a deadline need never end by itself.\<close>

theorem call_terminates:
  assumes "(call_step env)\<^sup>*\<^sup>* init_sys (\<sigma> 0)" "execution (sys_step env) \<sigma> \<alpha>" "callers (\<sigma> 0) c \<noteq> Idle"
    and "runtime_fair env \<sigma> \<alpha> c"
  shows "(\<exists>N r. \<forall>m \<ge> N. callers (\<sigma> m) c = Finished r) \<and>
    (\<forall>m. length (filter (\<lambda>a. caller_of a = Some c) (map \<alpha> [0..<m])) \<le> 5) \<and>
    (\<forall>n call w i a. callers (\<sigma> n) c = Selecting call w i a \<longrightarrow> w \<noteq> None)"
proof (intro conjI allI impI)
  have started: "callers (\<sigma> n) c \<noteq> Idle" for n
    by (rule execution_keeps [OF assms(2), where P = "\<lambda>s. callers s c \<noteq> Idle", OF assms(3)])
      (simp_all add: started_stays_started)
  have "\<exists>N. \<forall>m \<ge> N. \<not> busy (callers (\<sigma> m) c)"
    by (rule call_turns.scheduled_becomes_final [OF assms(2)]) (use busy_call_is_scheduled [OF assms(1,2,4)] in blast)
  then obtain N where N: "\<not> busy (callers (\<sigma> N) c)" by blast
  have "callers (\<sigma> N) c \<noteq> Crashed"
    using reachable_safe [OF execution_reachable [OF assms(1,2)]] by (simp add: sys_safe_def)
  with N started [of N] obtain r where "callers (\<sigma> N) c = Finished r"
    by (cases "callers (\<sigma> N) c") (auto simp: busy_def)
  with finished_stays_finished [OF assms(2)] show "\<exists>N r. \<forall>m \<ge> N. callers (\<sigma> m) c = Finished r" by blast
next
  fix m
  have "steps_left (callers (\<sigma> 0) c) \<le> 5" using assms(3) by (cases "callers (\<sigma> 0) c") simp_all
  with call_turns.own_steps_bounded [OF execution_prefix [OF assms(2), of 0 m], of c]
  show "length (filter (\<lambda>a. caller_of a = Some c) (map \<alpha> [0..<m])) \<le> 5" by simp
next
  fix n call w i a
  assume "callers (\<sigma> n) c = Selecting call w i a"
  from reachable_bounded [OF execution_reachable [OF assms(1,2)] this] show "w \<noteq> None" by blast
qed

text \<open>An execution for it: the sample call waits on a host that never answers; its default timeout passes, its context ends, it returns, and
  time goes on.\<close>

theorem call_terminates_witness:
  "\<exists>\<sigma> \<alpha>. \<sigma> 0 = sample_state \<and> execution (sys_step sample_env) \<sigma> \<alpha> \<and>
     (\<exists>N r. \<not> (\<exists>m. N \<le> m \<and> callers (\<sigma> m) 0 \<noteq> Finished r))"
proof -
  let ?d = "unat DefaultToolCallTimeout"
  let ?s1 = "sample_state\<lparr>clock := ?d\<rparr>"
  let ?s2 = "?s1\<lparr>ctx_ended := (ctx_ended ?s1)(0 := Some True)\<rparr>"
  have s1: "sys_step sample_env sample_state (Tick ?d) = Some ?s1" by (simp add: sample_state_def)
  have s2: "sys_step sample_env ?s1 (CtxEnd 0 True) = Some ?s2" by (simp add: sample_state_def)
  obtain s3 where s3: "sys_step sample_env ?s2 (WakeCtx 0 True) = Some s3"
    and p3: "\<exists>call i g d. callers s3 0 = TookGrant call i g d"
    by (auto simp: sample_selecting call_ctx_done_def takeGrant_def)
  then obtain s4 where s4: "sys_step sample_env s3 (AfterGrant 0) = Some s4"
    by (auto simp: Let_def case_prod_beta)
  have p4: "\<exists>r. callers s4 0 = Finished r"
    using s4 p3 by (auto simp: call_after_grant_def split: if_splits)
  define \<sigma> where "\<sigma> n = (if n = 0 then sample_state else if n = 1 then ?s1 else if n = 2 then ?s2 else if n = 3 then s3
    else s4\<lparr>clock := clock s4 + (n - 4)\<rparr>)" for n :: nat
  define \<alpha> where "\<alpha> n = (if n = 0 then Tick ?d else if n = 1 then CtxEnd 0 True else if n = 2 then WakeCtx 0 True
    else if n = 3 then AfterGrant 0 else Tick 1)" for n :: nat
  have "sys_step sample_env (\<sigma> n) (\<alpha> n) = Some (\<sigma> (Suc n))" for n
  proof -
    consider "n = 0" | "n = 1" | "n = 2" | "n = 3" | "4 \<le> n" by linarith
    then show ?thesis using s1 s2 s3 s4 by cases (simp_all add: \<sigma>_def \<alpha>_def Suc_diff_le del: sys_step.simps, simp)
  qed
  then have run: "execution (sys_step sample_env) \<sigma> \<alpha>" by (simp add: execution_def)
  have fair: "runtime_fair sample_env \<sigma> \<alpha> 0"
    unfolding runtime_fair_def
  proof (intro conjI allI impI)
    show "\<exists>n. T \<le> clock (\<sigma> n)" for T
      by (intro exI [of _ "T + 4"]) (simp add: \<sigma>_def)
    have "ctx_ended (\<sigma> 2) 0 \<noteq> None" by (simp add: \<sigma>_def)
    moreover have "n \<le> 2" if "ctx_deadline (callers (\<sigma> n) 0) = Some d" for n d
      using that p3 p4 by (auto simp: \<sigma>_def split: if_splits)
    ultimately show "\<exists>m \<ge> n. ctx_ended (\<sigma> m) 0 \<noteq> None"
      if "ctx_deadline (callers (\<sigma> n) 0) = Some d \<and> d \<le> clock (\<sigma> n)" for n d using that by blast
    have "\<not> can_move sample_env (\<sigma> (n + 4)) 0" for n
    proof
      assume "can_move sample_env (\<sigma> (n + 4)) 0"
      then obtain a t where "caller_of a = Some 0" "sys_step sample_env (\<sigma> (n + 4)) a = Some t"
        unfolding can_move_def by blast
      from own_step_descends [OF this(2,1)] p4 show False by (auto simp: \<sigma>_def)
    qed
    then show "\<exists>m \<ge> n. caller_of (\<alpha> m) = Some 0" if "\<forall>m \<ge> n. can_move sample_env (\<sigma> m) 0" for n
      using that le_add1 by blast
  qed
  have "(call_step sample_env)\<^sup>*\<^sup>* init_sys (\<sigma> 0)" "callers (\<sigma> 0) 0 \<noteq> Idle"
    using sample_reachable sample_selecting by (simp_all add: \<sigma>_def)
  from call_terminates [OF this(1) run this(2) fair]
  have "\<exists>N r. \<forall>m \<ge> N. callers (\<sigma> m) 0 = Finished r" by blast
  moreover have "\<sigma> 0 = sample_state" by (simp add: \<sigma>_def)
  ultimately show ?thesis using run by blast
qed

end
