(* ===== verification/Tool_Call_Sequential.thy ===== *)
theory Tool_Call_Sequential
  imports Tool_Call_Results Tool_Call_Termination
begin

text \<open>
  \<open>CallAdapterTool\<close> of \<open>src/adapterhost/toolcall.go\<close> as the code has it, in one piece from its first check to its last
  return, and that the steps of \<open>Tool_Call_System\<close> are this function cut at the points other goroutines can see.
\<close>

section \<open>The call in one piece\<close>

text \<open>
  How the select ends: the entry is resolved, or the context is done, by its deadline or cancelled. What the other goroutines
  do to the bridge in the meantime is an argument, a function of the deadline of the wait and of the bridge at its start; the sink is a function of
  the event it is given. The world is the fallback counter, the bridge and the events the sink has accepted.
\<close>

datatype wake = ByReply | ByContext bool

record call_world =
  cw_counter :: "64 word"
  cw_bridge :: ToolCallBridge
  cw_sent :: "ExecuteEvent list"

definition CallAdapterTool ::
  "call_env \<Rightarrow> nat \<Rightarrow> nat option option \<Rightarrow> (ExecuteEvent \<Rightarrow> go_error option) option \<Rightarrow> AdapterToolCall \<Rightarrow>
   8 word list option \<Rightarrow> (nat option \<Rightarrow> ToolCallBridge \<Rightarrow> wake \<times> ToolCallBridge) \<Rightarrow> call_world \<Rightarrow> call_result option \<times> call_world" where
  "CallAdapterTool env time ctx sink call rnd wait w =
     (case ctx of
        None \<Rightarrow> (Some (failed (Errorf [Lit ''adapterhost: tool call requires a context''])), w)
      | Some ctxDeadline \<Rightarrow>
     (case sink of
        None \<Rightarrow> (Some (failed (Errorf [Lit ''adapterhost: tool call requires an ExecuteEventSender''])), w)
      | Some Send \<Rightarrow>
     (case validate_call call of
        Some e \<Rightarrow> (Some (failed e), w)
      | None \<Rightarrow>
      if sessionUnsupported (SessionID call) (cw_bridge w) then
        (Some (failed (ToolCallError CallErrHostUnsupported)), w)
      else
        let (requestID, counter) = newToolCallRequestID rnd (cw_counter w);
            w = w\<lparr>cw_counter := counter\<rparr>
        in case buildToolCallPayload (payload_env_of env) call requestID of
             Inl e \<Rightarrow> (Some (failed e), w)
           | Inr payload \<Rightarrow>
               let (entry, b1) = register requestID (cw_bridge w);
                   event = EvAdapter \<lparr>event_kind = EventKindPermissionRequest, event_payload = payload\<rparr>
               in case Send event of
                    Some e \<Rightarrow>
                      (Some (failed (Wrapf [Lit ''adapterhost: send permission.request for tool call '',
                         Verb_q (Tool call), Lit '': ''] e [])), w\<lparr>cw_bridge := remove requestID b1\<rparr>)
                  | None \<Rightarrow>
                      let w = w\<lparr>cw_sent := cw_sent w @ [event]\<rparr>;
                          callDeadline =
                            (case ctxDeadline of
                               Some t \<Rightarrow> Some t
                             | None \<Rightarrow>
                                 if 0 < sint (Timeout call) then Some (time + unat (Timeout call))
                                 else Some (time + unat DefaultToolCallTimeout))
                      in (case wait callDeadline b1 of
                            (ByReply, b2) \<Rightarrow>
                              (finishToolCall (JoinToolCallResultOutputs env) call (store b2 ! entry), w\<lparr>cw_bridge := b2\<rparr>)
                          | (ByContext deadline, b2) \<Rightarrow>
                              let (granted, b3) = takeGrant requestID b2
                              in if granted \<and> deadline
                                 then (Some (failed (ToolCallError CallErrHostUnsupported)),
                                       w\<lparr>cw_bridge := cacheUnsupported (SessionID call) b3\<rparr>)
                                 else (Some (failed (Wrapf (call_prefix call) (ctx_err deadline) [])),
                                       w\<lparr>cw_bridge := remove requestID b3\<rparr>)))))"

section \<open>The steps compose to it\<close>

text \<open>The steps of a call up to its select, and those after it.\<close>

definition call_moves ::
  "nat \<Rightarrow> nat option option \<Rightarrow> bool \<Rightarrow> AdapterToolCall \<Rightarrow> 8 word list option \<Rightarrow> go_error option \<Rightarrow> action list" where
  "call_moves c ctx sink call rnd answer = [Call c ctx sink call, Mint c rnd, Register c, SinkSend c answer]"

fun wake_moves :: "nat \<Rightarrow> wake \<Rightarrow> action list" where
  "wake_moves c ByReply = [WakeDone c]"
| "wake_moves c (ByContext deadline) = [WakeCtx c deadline, AfterGrant c]"

text \<open>What makes the select end that way.\<close>

fun wakes :: "call_sys \<Rightarrow> nat \<Rightarrow> nat \<Rightarrow> wake \<Rightarrow> bool" where
  "wakes u c a ByReply \<longleftrightarrow> closed (store (bridge u) ! a)"
| "wakes u c a (ByContext deadline) \<longleftrightarrow> ctx_ended u c = Some deadline"

definition returned :: "call_result option \<Rightarrow> caller" where
  "returned r = (case r of None \<Rightarrow> Crashed | Some x \<Rightarrow> Finished x)"

definition sent_by :: "nat \<Rightarrow> call_sys \<Rightarrow> ExecuteEvent list" where
  "sent_by c s = map snd (filter (\<lambda>(d, ev). d = c) (sent s))"

lemma others_keep_caller:
  "sys_run env s as = Some t \<Longrightarrow> list_all (\<lambda>a. caller_of a \<noteq> Some c) as \<Longrightarrow>
   callers t c = callers s c \<and> sent_by c t = sent_by c s"
proof (induction as arbitrary: s)
  case (Cons a as)
  then obtain u where u: "sys_step env s a = Some u" "sys_run env u as = Some t" by (auto split: option.splits)
  have "sent_by c u = sent_by c s"
    using u(1) Cons.prems(2)
    by (cases a) (auto simp: sent_by_def Let_def case_prod_beta split: caller.splits if_splits)
  with Cons.IH [OF u(2)] Cons.prems(2) other_step_keeps [OF u(1)] show ?case by simp
qed simp

text \<open>What is returned at the end of the select, and the run from the select to the return.\<close>

definition wait_result ::
  "call_env \<Rightarrow> AdapterToolCall \<Rightarrow> string \<Rightarrow> nat \<Rightarrow> wake \<Rightarrow> ToolCallBridge \<Rightarrow> call_result option \<times> ToolCallBridge" where
  "wait_result env call i a how b =
     (case how of
        ByReply \<Rightarrow> (finishToolCall (JoinToolCallResultOutputs env) call (store b ! a), b)
      | ByContext deadline \<Rightarrow>
          (case takeGrant i b of (granted, b3) \<Rightarrow>
             (case call_after_grant call i granted deadline b3 of
                (Finished r, b4) \<Rightarrow> (Some r, b4) | (_, b4) \<Rightarrow> (None, b4))))"

lemma select_run:
  assumes "callers v c = Selecting call w i a" "sys_run env v as = Some u"
    and "list_all (\<lambda>a. caller_of a \<noteq> Some c) as" "wakes u c a how"
  shows "\<exists>t r. sys_run env v (as @ wake_moves c how) = Some t \<and> callers t c = returned r \<and>
    wait_result env call i a how (bridge u) = (r, bridge t) \<and> sent_by c t = sent_by c v"
proof -
  have u: "callers u c = Selecting call w i a" "sent_by c u = sent_by c v"
    using others_keep_caller [OF assms(2,3)] assms(1) by simp_all
  then have "\<exists>t r. sys_run env u (wake_moves c how) = Some t \<and> callers t c = returned r \<and>
      wait_result env call i a how (bridge u) = (r, bridge t) \<and> sent_by c t = sent_by c u"
    using assms(4)
    by (cases how) (auto simp: wait_result_def call_resolved_def returned_def call_ctx_done_def takeGrant_def
        call_after_grant_def set_caller_def sent_by_def split: option.splits)
  with u(2) show ?thesis using sys_run_append [OF assms(2)] by auto
qed

text \<open>What the function is worth at each of its early returns, and once it waits.\<close>

lemma CallAdapterTool_begin:
  "call_begin (cw_bridge w) ctx (sink \<noteq> None) call = Finished r \<Longrightarrow>
   CallAdapterTool env time ctx sink call rnd wait w = (Some r, w)"
  by (auto simp: call_begin_def CallAdapterTool_def split: option.splits if_splits)

lemma CallAdapterTool_checked:
  assumes "call_begin (cw_bridge w) ctx True call = Checked call dl" "newToolCallRequestID rnd (cw_counter w) = (i, n)"
    and "register i (cw_bridge w) = (a, b1)"
  shows "CallAdapterTool env time ctx (Some Send) call rnd wait w =
    (case buildToolCallPayload (payload_env_of env) call i of
       Inl e \<Rightarrow> (Some (failed e), w\<lparr>cw_counter := n\<rparr>)
     | Inr payload \<Rightarrow>
         (case call_sent time call dl i a (Send (tool_call_event payload)) b1 of
            (Selecting call' w' i' a', b') \<Rightarrow>
              (case wait w' b1 of (how, b2) \<Rightarrow>
                 (case wait_result env call i a how b2 of (r, b3) \<Rightarrow>
                    (r, w\<lparr>cw_counter := n, cw_sent := cw_sent w @ [tool_call_event payload], cw_bridge := b3\<rparr>)))
          | (Finished r, b') \<Rightarrow> (Some r, w\<lparr>cw_counter := n, cw_bridge := b'\<rparr>)))"
  using assms
  by (cases "buildToolCallPayload (payload_env_of env) call i")
    (auto simp: call_begin_def CallAdapterTool_def call_sent_def call_bound_def call_after_grant_def wait_result_def
      tool_call_event_def Let_def case_prod_beta split: option.splits if_splits wake.splits prod.splits)

lemma call_begin_cases:
  obtains (returns) r where "call_begin b ctx sink call = Finished r"
    | (checked) dl where "sink" "call_begin b ctx sink call = Checked call dl"
  by (cases "call_begin b ctx sink call") (auto simp: call_begin_def split: option.splits if_splits)

text \<open>The run of the steps before the select, from a state whose call passes its checks.\<close>

lemma checked_run:
  assumes "callers s c = Idle" "call_begin (bridge s) ctx True call = Checked call dl"
    and "newToolCallRequestID rnd (fallback s) = (i, n)" "register i (bridge s) = (a, b1)"
  shows "buildToolCallPayload (payload_env_of env) call i = Inl e \<Longrightarrow>
      \<exists>t. sys_run env s (take 2 (call_moves c ctx True call rnd answer)) = Some t \<and>
        callers t c = Finished (failed e) \<and> bridge t = bridge s \<and> sent_by c t = sent_by c s"
    and "buildToolCallPayload (payload_env_of env) call i = Inr payload \<Longrightarrow>
      \<exists>t. sys_run env s (call_moves c ctx True call rnd answer) = Some t \<and>
        (callers t c, bridge t) = call_sent (clock s) call dl i a answer b1 \<and>
        sent_by c t = sent_by c s @ (if answer = None then [tool_call_event payload] else [])"
proof -
  let ?s1 = "set_caller c (Checked call dl) s"
  have step1: "sys_step env s (Call c ctx True call) = Some ?s1" using assms(1,2) by simp
  have step2: "sys_step env ?s1 (Mint c rnd) =
      Some (set_caller c (call_payload env call dl i) (?s1\<lparr>fallback := n, draws := draws s @ [rnd]\<rparr>))"
    using assms(3) by (simp add: set_caller_def)
  show "\<exists>t. sys_run env s (take 2 (call_moves c ctx True call rnd answer)) = Some t \<and>
      callers t c = Finished (failed e) \<and> bridge t = bridge s \<and> sent_by c t = sent_by c s"
    if "buildToolCallPayload (payload_env_of env) call i = Inl e"
    using step1 step2 that by (simp add: call_moves_def call_payload_def set_caller_def sent_by_def del: sys_step.simps)
  show "\<exists>t. sys_run env s (call_moves c ctx True call rnd answer) = Some t \<and>
      (callers t c, bridge t) = call_sent (clock s) call dl i a answer b1 \<and>
      sent_by c t = sent_by c s @ (if answer = None then [tool_call_event payload] else [])"
    if built: "buildToolCallPayload (payload_env_of env) call i = Inr payload"
  proof -
    let ?s2 = "set_caller c (Minted call dl i payload) (?s1\<lparr>fallback := n, draws := draws s @ [rnd]\<rparr>)"
    let ?s3 = "set_caller c (Registered call dl i payload a) (?s2\<lparr>bridge := b1\<rparr>)"
    have step3: "sys_step env ?s2 (Register c) = Some ?s3" using assms(4) by (simp add: set_caller_def)
    have "\<exists>t. sys_step env ?s3 (SinkSend c answer) = Some t \<and>
        (callers t c, bridge t) = call_sent (clock s) call dl i a answer b1 \<and>
        sent_by c t = sent_by c s @ (if answer = None then [tool_call_event payload] else [])"
      by (simp add: set_caller_def case_prod_beta sent_by_def)
    with step1 step2 step3 built show ?thesis
      by (auto simp: call_moves_def call_payload_def simp del: sys_step.simps)
  qed
qed

abbreviation world_of :: "nat \<Rightarrow> call_sys \<Rightarrow> call_world" where
  "world_of c s \<equiv> \<lparr>cw_counter = fallback s, cw_bridge = bridge s, cw_sent = sent_by c s\<rparr>"

text \<open>C6: the steps of a call are the function \<open>CallAdapterTool\<close>. Take a call whose steps up to its select are not
  interrupted, then any actions of other goroutines and of the runtime, then the end of the select: the steps the call takes before it returns leave
  it with exactly the result, the bridge in exactly the state and its execute stream with exactly the events that the function gives on the same
  context, arguments, random bytes and sink, when the wait, under the deadline the function gives it, turns the bridge into what those other
  actions made of it. This covers every early return.\<close>

theorem call_steps_compose:
  assumes "callers s c = Idle" "list_all (\<lambda>a. caller_of a \<noteq> Some c) as"
    and answer: "\<And>Send i payload. sink = Some Send \<Longrightarrow> i = fst (newToolCallRequestID rnd (fallback s)) \<Longrightarrow>
      buildToolCallPayload (payload_env_of env) call i = Inr payload \<Longrightarrow> Send (tool_call_event payload) = answer"
    and wait: "\<And>v call' d i a. sys_run env s (call_moves c ctx (sink \<noteq> None) call rnd answer) = Some v \<Longrightarrow>
      callers v c = Selecting call' d i a \<Longrightarrow>
      sys_run env v as = Some u \<and> wakes u c a how \<and> wait d (bridge v) = (how, bridge u)"
  shows "\<exists>k t r w. sys_run env s (take k (call_moves c ctx (sink \<noteq> None) call rnd answer @ as @ wake_moves c how)) = Some t \<and>
    CallAdapterTool env (clock s) ctx sink call rnd wait (world_of c s) = (r, w) \<and>
    callers t c = returned r \<and> cw_bridge w = bridge t \<and> cw_sent w = sent_by c t"
proof (cases rule: call_begin_cases [of "bridge s" ctx "sink \<noteq> None" call])
  case (returns r)
  let ?t = "set_caller c (Finished r) s"
  from returns assms(1) have "sys_run env s (take 1 (call_moves c ctx (sink \<noteq> None) call rnd answer @ as @ wake_moves c how)) = Some ?t"
    by (simp add: call_moves_def)
  moreover have "CallAdapterTool env (clock s) ctx sink call rnd wait (world_of c s) = (Some r, world_of c s)"
    using returns by (intro CallAdapterTool_begin) simp
  moreover have "callers ?t c = returned (Some r)" "bridge ?t = bridge s" "sent_by c ?t = sent_by c s"
    by (simp_all add: returned_def sent_by_def)
  ultimately show ?thesis by fastforce
next
  case (checked dl)
  then obtain Send where sink: "sink = Some Send" by blast
  obtain i n where mint: "newToolCallRequestID rnd (fallback s) = (i, n)" by (rule prod.exhaust)
  obtain a b1 where reg: "register i (bridge s) = (a, b1)" by (rule prod.exhaust)
  have start: "call_begin (bridge s) ctx True call = Checked call dl" using checked by simp
  note run = checked_run [OF assms(1) start mint reg]
  have world: "call_begin (cw_bridge (world_of c s)) ctx True call = Checked call dl"
    "newToolCallRequestID rnd (cw_counter (world_of c s)) = (i, n)" "register i (cw_bridge (world_of c s)) = (a, b1)"
    using start mint reg by simp_all
  note fun_eq = CallAdapterTool_checked [OF world, where env = env and time = "clock s" and Send = Send and wait = wait]
  show ?thesis
  proof (cases "buildToolCallPayload (payload_env_of env) call i")
    case (Inl e)
    have "take 2 (call_moves c ctx (sink \<noteq> None) call rnd answer @ as @ wake_moves c how) = take 2 (call_moves c ctx True call rnd answer)"
      using sink by (simp add: call_moves_def)
    with run(1) [OF Inl, of answer] fun_eq Inl sink show ?thesis by (intro exI [of _ 2]) (auto simp: returned_def)
  next
    case (Inr payload)
    have sends: "Send (tool_call_event payload) = answer" using answer [OF sink _ Inr] mint by simp
    obtain v where v: "sys_run env s (call_moves c ctx (sink \<noteq> None) call rnd answer) = Some v"
      "(callers v c, bridge v) = call_sent (clock s) call dl i a answer b1"
      "sent_by c v = sent_by c s @ (if answer = None then [tool_call_event payload] else [])"
      using run(2) [OF Inr, of answer] sink by auto
    show ?thesis
    proof (cases answer)
      case (Some e)
      have "take 4 (call_moves c ctx (sink \<noteq> None) call rnd answer @ as @ wake_moves c how) = call_moves c ctx (sink \<noteq> None) call rnd answer"
        by (simp add: call_moves_def)
      with v fun_eq Inr Some sends sink show ?thesis
        by (intro exI [of _ 4] exI [of _ v]) (auto simp: returned_def call_sent_def)
    next
      case None
      then have sel: "callers v c = Selecting call (call_bound (clock s) dl call) i a" and b1: "bridge v = b1"
        using v(2) by (simp_all add: call_sent_def)
      from wait [OF v(1) sel] have u: "sys_run env v as = Some u" "wakes u c a how"
        "wait (call_bound (clock s) dl call) b1 = (how, bridge u)" by (simp_all add: b1)
      obtain t r where t: "sys_run env v (as @ wake_moves c how) = Some t" "callers t c = returned r"
        "wait_result env call i a how (bridge u) = (r, bridge t)" "sent_by c t = sent_by c v"
        using select_run [OF sel u(1) assms(2) u(2)] by blast
      have "sys_run env s (take (length (call_moves c ctx (sink \<noteq> None) call rnd answer @ as @ wake_moves c how))
          (call_moves c ctx (sink \<noteq> None) call rnd answer @ as @ wake_moves c how)) = Some t"
        using sys_run_append [OF v(1) t(1)] by simp
      moreover have "\<exists>w. CallAdapterTool env (clock s) ctx sink call rnd wait (world_of c s) = (r, w) \<and>
          cw_bridge w = bridge t \<and> cw_sent w = sent_by c t"
        using t(3,4) v(3) u(3) fun_eq Inr None sends sink by (simp add: call_sent_def)
      ultimately show ?thesis using t(2) by blast
    qed
  qed
qed

text \<open>The sample call, denied by the host while it waits.\<close>

theorem call_steps_compose_witness:
  "\<exists>k t r w b. sys_run sample_env init_sys
       (take k (sample_run @ [Dispatch (PE_Cancel sample_denial)] @ [WakeDone 0])) = Some t \<and>
     CallAdapterTool sample_env 0 (Some None) (Some (\<lambda>_. None)) sample_call (Some [1, 2]) (\<lambda>_ _. (ByReply, b))
       (world_of 0 init_sys) = (r, w) \<and>
     callers t 0 = returned r \<and> cw_bridge w = bridge t \<and> cw_sent w = sent_by 0 t"
proof -
  let ?u = "sample_state\<lparr>bridge := dispatch_event (bridge sample_state) (PE_Cancel sample_denial)\<rparr>"
  let ?sink = "Some (\<lambda>_. None) :: (ExecuteEvent \<Rightarrow> go_error option) option"
  have moves: "call_moves 0 (Some None) (?sink \<noteq> None) sample_call (Some [1, 2]) None = sample_run"
    by (simp add: call_moves_def sample_run_def)
  have start: "callers init_sys 0 = Idle" "clock init_sys = 0" by (simp_all add: init_sys_def)
  have u: "sys_run sample_env sample_state [Dispatch (PE_Cancel sample_denial)] = Some ?u" by simp
  have "closed (store (bridge ?u) ! 0)"
    by (simp add: sample_denial_def sample_state_def dispatch_event_def routeCancel_def close_done_def update_entry_def
        delete_pending_def fresh_entry_def)
  then have wait: "sys_run sample_env v [Dispatch (PE_Cancel sample_denial)] = Some ?u \<and> wakes ?u 0 a ByReply \<and>
      (\<lambda>_ _. (ByReply, bridge ?u)) d (bridge v) = (ByReply, bridge ?u)"
    if "sys_run sample_env init_sys (call_moves 0 (Some None) (?sink \<noteq> None) sample_call (Some [1, 2]) None) = Some v"
      "callers v 0 = Selecting call' d i a" for v call' d i a
    using that(2) trans [OF sym [OF that(1) [unfolded moves]] sample_run] u by (simp add: sample_selecting)
  have answer: "Send (tool_call_event payload) = None"
    if "?sink = Some Send" for Send :: "ExecuteEvent \<Rightarrow> go_error option" and payload using that by auto
  have others: "list_all (\<lambda>a. caller_of a \<noteq> Some 0) [Dispatch (PE_Cancel sample_denial)]" by simp
  have "\<exists>k t r w. sys_run sample_env init_sys (take k (call_moves 0 (Some None) (?sink \<noteq> None) sample_call (Some [1, 2]) None @
        [Dispatch (PE_Cancel sample_denial)] @ wake_moves 0 ByReply)) = Some t \<and>
      CallAdapterTool sample_env (clock init_sys) (Some None) ?sink sample_call (Some [1, 2]) (\<lambda>_ _. (ByReply, bridge ?u))
        (world_of 0 init_sys) = (r, w) \<and>
      callers t 0 = returned r \<and> cw_bridge w = bridge t \<and> cw_sent w = sent_by 0 t"
    by (rule call_steps_compose [OF start(1) others]) (use answer wait in blast)+
  then show ?thesis unfolding moves start(2) wake_moves.simps by blast
qed

end
