(* ===== verification/Tool_Call_Wire.thy ===== *)
theory Tool_Call_Wire
  imports Tool_Call_Results
begin

text \<open>
  The wire side of the tool-call flow: what the two permission loops
  (\<open>src/adapterhost/service.go\<close> and \<open>src/adapterhost/toolcall.go\<close>) answer and leave behind, through
  the contract \<open>recv_loop\<close> both keep, and what a tool-call request carries.
\<close>

section \<open>The permission loops\<close>

text \<open>C10: the dispatch loop of the bridge refines the abstract view of each call. While the
  stream works, the loop acknowledges exactly the grants with an id, once each and in order, keeps receiving, and moves every
  pending call as the events addressed to it say, no matter which other events are mixed in.\<close>

theorem dispatch_loop_refines_view:
  assumes "bridge_wf b" "list_all (clean_turn grant_ack) ts"
  shows "\<exists>b'. Permissions sc order b ts = (b', map allow (turn_acks grant_ack ts), Waiting) \<and> bridge_wf b' \<and>
    (\<forall>i. view_of b' i = foldl (view_event i) (view_of b i) (turn_events ts))"
  using perms.loop_clean [OF assms(2), of sc order b] bridge_wf_dispatches [OF assms(1)]
    view_dispatches [OF assms(1)] by auto

definition sample_turns :: "turn list" where
  "sample_turns = [(RecvOk (PE_Request ''a''), None), (RecvOk PE_None, Some (OpaqueError ''x'')),
     (RecvOk (PE_ToolCallResult (sample_result ''a'')), None)]"

definition sample_bridge :: ToolCallBridge where
  "sample_bridge = snd (register ''b'' (snd (register ''a'' NewToolCallBridge)))"

lemma sample_bridge_wf: "bridge_wf sample_bridge"
  by (simp add: sample_bridge_def bridge_wf_register)

lemma sample_turns_clean: "list_all (clean_turn grant_ack) sample_turns"
  by (simp add: sample_turns_def clean_turn_def grant_ack_def)

theorem dispatch_loop_refines_view_witness:
  "\<exists>b'. Permissions (\<lambda>_. Code_Other 2) (\<lambda>_. []) sample_bridge sample_turns = (b', [allow ''a''], Waiting) \<and>
     view_of b' ''a'' = Absent \<and> view_of b' ''b'' = InFlight False []"
proof -
  have "turn_acks grant_ack sample_turns = [''a'']"
    by (simp add: sample_turns_def grant_ack_def)
  moreover have "foldl (view_event ''a'') (view_of sample_bridge ''a'') (turn_events sample_turns) = Absent"
    "foldl (view_event ''b'') (view_of sample_bridge ''b'') (turn_events sample_turns) = InFlight False []"
    by (simp_all add: sample_turns_def sample_bridge_def view_of_def register_def NewToolCallBridge_def
        fresh_entry_def sample_result_def resolving_def)
  ultimately show ?thesis
    using dispatch_loop_refines_view [OF sample_bridge_wf sample_turns_clean, of "\<lambda>_. Code_Other 2" "\<lambda>_. []"] by auto
qed

text \<open>C11: when the stream of the dispatch loop fails, in \<open>Recv\<close> or in \<open>Send\<close>, the loop returns, no
  call stays pending, every call that was pending is resolved with \<open>ErrPermissionsClosed\<close>, and only the end of the stream, a cancelled or
  an OK status counts as a normal end; every other error is passed on. The order in which the map is visited does not matter.\<close>

theorem dispatch_loop_end_resolves_all:
  assumes "bridge_wf b" "list_all (clean_turn grant_ack) us"
    and "b' = foldl dispatch_event b (turn_events us)" "range_order (order (pending b')) (pending b')"
    and "t = (RecvErr e, w) \<and> st = (if errors_is e EOF \<or> sc e = Code_Canceled \<or> sc e = Code_OK then None else Some e) \<or>
      t = (RecvOk (PE_Request i), Some e) \<and> i \<noteq> [] \<and> st = Some e"
  shows "\<exists>c. Permissions sc order b (us @ t # ts) = (c, map allow (turn_acks grant_ack us), Returned st) \<and>
    \<not> panicked c \<and> pending c = Map.empty \<and>
    (\<forall>j a. pending b' j = Some a \<longrightarrow>
       closed (store c ! a) \<and> entry_err (store c ! a) = Some (Sentinel ErrPermissionsClosed))"
proof -
  have "bridge_wf b'" using bridge_wf_dispatches [OF assms(1)] assms(3) by simp
  note closed = closeAll_effect [OF this assms(4)]
  have "Permissions sc order b (us @ t # ts) =
      (closeAll (order (pending b')) b', map allow (turn_acks grant_ack us), Returned st)"
    using assms(5)
  proof
    assume t: "t = (RecvErr e, w) \<and> st = (if errors_is e EOF \<or> sc e = Code_Canceled \<or> sc e = Code_OK then None else Some e)"
    with perms.loop_recv_fails [OF assms(2), of sc order b e w ts] show ?thesis
      by (simp add: assms(3) normal_close_def)
  next
    assume t: "t = (RecvOk (PE_Request i), Some e) \<and> i \<noteq> [] \<and> st = Some e"
    then have "grant_ack (PE_Request i) = Some i" by (simp add: grant_ack_def)
    with t perms.loop_send_fails [OF assms(2) this, of sc order b e ts] show ?thesis by (simp add: assms(3))
  qed
  with closed show ?thesis by (auto simp: bridge_wf_def)
qed

theorem dispatch_loop_end_resolves_all_witness:
  "\<exists>c. Permissions (\<lambda>_. Code_Other 2) (\<lambda>_. [''b'']) sample_bridge
      (sample_turns @ [(RecvErr (OpaqueError ''reset''), None)]) =
        (c, [allow ''a''], Returned (Some (OpaqueError ''reset''))) \<and>
     pending c = Map.empty \<and> entry_err (store c ! 1) = Some (Sentinel ErrPermissionsClosed)"
proof -
  let ?b = "foldl dispatch_event sample_bridge (turn_events sample_turns)"
  have p: "pending ?b = [''b'' \<mapsto> 1]"
    by (simp add: sample_turns_def sample_bridge_def register_def NewToolCallBridge_def dispatch_event_def
        markGranted_def routeResult_def sample_result_def resolving_def Let_def fun_eq_iff)
  have "turn_acks grant_ack sample_turns = [''a'']"
    by (simp add: sample_turns_def grant_ack_def)
  moreover have "range_order ((\<lambda>_. [''b'']) (pending ?b)) (pending ?b)"
    by (simp add: p range_order_def)
  ultimately show ?thesis
    using dispatch_loop_end_resolves_all [OF sample_bridge_wf sample_turns_clean refl, of "\<lambda>_. [''b'']"
        "(RecvErr (OpaqueError ''reset''), None)" "OpaqueError ''reset''" None
        "Some (OpaqueError ''reset'')" "\<lambda>_. Code_Other 2" "[]" "[]"] p
    by (auto split: if_splits)
qed

text \<open>C36: the permissionless default, as an adapter embeds it, answers every request with an allow for its id, in order,
  and nothing else; it fails closed: the first failure of \<open>Recv\<close> or \<open>Send\<close> ends it, and any error other than the end of the stream
  or a cancelled status is returned.\<close>

theorem unimplemented_loop_contract:
  assumes "list_all (clean_turn GetRequest) us"
  shows "UnimplementedPermissions_Permissions sc us = (map allow (turn_acks GetRequest us), Waiting) \<and>
    UnimplementedPermissions_Permissions sc (us @ (RecvErr e, w) # ts) =
      (map allow (turn_acks GetRequest us),
       Returned (if errors_is e EOF \<or> sc e = Code_Canceled then None else Some e)) \<and>
    UnimplementedPermissions_Permissions sc (us @ (RecvOk (PE_Request i), Some e) # ts) =
      (map allow (turn_acks GetRequest us), Returned (Some e))"
  using unimpl.loop_clean [OF assms, of sc "()"] unimpl.loop_recv_fails [OF assms, of sc "()" e w ts]
    unimpl.loop_send_fails [OF assms, of "PE_Request i" i sc "()" e ts]
  by (simp add: unimplemented_loop_def UnimplementedPermissions_Permissions_def)

theorem unimplemented_loop_contract_witness:
  "UnimplementedPermissions_Permissions (\<lambda>_. Code_Other 2) [(RecvOk (PE_Request ''a''), None), (RecvOk PE_None, None),
     (RecvErr (Sentinel EOF), None)] = ([allow ''a''], Returned None)"
  using unimplemented_loop_contract [of "[(RecvOk (PE_Request ''a''), None), (RecvOk PE_None, None)]"
      "\<lambda>_. Code_Other 2" "Sentinel EOF" None "[]"]
  by (simp add: clean_turn_def)

section \<open>What a request carries\<close>

text \<open>
  The hypothesis on the protobuf runtime: reading back a \<open>Struct\<close> built from a map gives the map.
\<close>

definition struct_faithful :: "payload_env \<Rightarrow> bool" where
  "struct_faithful env \<longleftrightarrow> (\<forall>m s. NewStruct env m = Ok s \<longrightarrow> AsMap env s = m)"

text \<open>The arguments of a call as the wire sees them: the object its canonical JSON denotes.\<close>

definition wire_args :: "payload_env \<Rightarrow> AdapterToolCall \<Rightarrow> gobj result" where
  "wire_args env call =
     bind_result (CanonicalJSON env (Args call))
       (\<lambda>s. bind_result (unmarshal_map s) (\<lambda>m. Ok (case m of None \<Rightarrow> [] | Some m \<Rightarrow> m)))"

text \<open>C37: in every payload that is sent, the arguments and their digest come from one object, the
  one the canonical JSON of the call's arguments denotes (an empty object for null), so the digest always fits the arguments the host
  sees; the kind, request id, target and tool are those of the call, and a preview is present exactly if the call has one.\<close>

theorem payload_digest_fits_args:
  assumes "struct_faithful env" "buildToolCallPayload env call requestID = Ok payload"
  shows "\<exists>args digest. wire_args env call = Ok args \<and> ArgsDigest env args = Ok digest \<and>
    map_of (AsMap env payload) ''args'' = Some (GMap args) \<and>
    map_of (AsMap env payload) ''args_digest'' = Some (GStr digest) \<and>
    map_of (AsMap env payload) ''kind'' = Some (GStr ''adapter_tool'') \<and>
    map_of (AsMap env payload) ''request_id'' = Some (GStr requestID) \<and>
    map_of (AsMap env payload) ''target'' = Some (GStr (Target call)) \<and>
    map_of (AsMap env payload) ''tool'' = Some (GStr (Tool call)) \<and>
    map_of (AsMap env payload) ''args_preview'' =
      (if Preview call = [] then None else Some (GStr (Preview call)))"
proof -
  from assms(2) obtain s m digest st where
    *: "CanonicalJSON env (Args call) = Ok s" "unmarshal_map s = Ok m"
      "ArgsDigest env (case m of None \<Rightarrow> [] | Some m \<Rightarrow> m) = Ok digest"
      "NewStruct env (case m of None \<Rightarrow> [] | Some m \<Rightarrow> m) = Ok st"
      "NewStruct env (payload_fields env call requestID st digest) = Ok payload"
    by (auto simp: buildToolCallPayload_def result_defs Let_def split: sum.splits)
  let ?args = "case m of None \<Rightarrow> [] | Some m \<Rightarrow> m"
  have read: "AsMap env st = ?args" "AsMap env payload = payload_fields env call requestID st digest"
    using assms(1) *(4,5) by (auto simp: struct_faithful_def)
  have "wire_args env call = Ok ?args" using *(1,2) by (simp add: wire_args_def)
  with *(3) show ?thesis
    by (intro exI [of _ ?args] exI [of _ digest])
      (simp add: read payload_fields_def PayloadKindAdapterTool_def)
qed

theorem payload_digest_fits_args_witness:
  "map_of (AsMap (payload_env_of sample_env) sample_payload) ''args_digest'' = Some (GStr ''digest'')"
proof -
  have "struct_faithful (payload_env_of sample_env)"
    by (simp add: struct_faithful_def sample_env_def)
  from payload_digest_fits_args [OF this sample_build] show ?thesis
    by (auto simp: sample_env_def)
qed

text \<open>Up to the first dot, a dotted string splits in one way only.\<close>

lemma dotted_inject:
  assumes "CHR ''.'' \<notin> set x" "CHR ''.'' \<notin> set y" "x @ CHR ''.'' # u = y @ CHR ''.'' # v"
  shows "x = y \<and> u = v"
  using assms
proof (induction x arbitrary: y)
  case Nil
  then show ?case by (cases y) auto
next
  case (Cons c x)
  then show ?case by (cases y) auto
qed

text \<open>A target names one tool of one adapter: for type and instance names without dots, two
  targets are equal only if the type, the instance and the tool (whatever characters it has, the empty one included) are.\<close>

theorem target_unambiguous:
  assumes "FormatAdapterToolTarget ty inst tool = FormatAdapterToolTarget ty' inst' tool'"
    and "CHR ''.'' \<notin> set ty" "CHR ''.'' \<notin> set ty'" "CHR ''.'' \<notin> set inst" "CHR ''.'' \<notin> set inst'"
  shows "ty = ty' \<and> inst = inst' \<and> tool = tool'"
proof -
  let ?rest = "\<lambda>t. if t = [] then [] else CHR ''.'' # t"
  have shape: "FormatAdapterToolTarget a b t =
      ''adapter.'' @ a @ CHR ''.'' # b @ CHR ''.'' # ''tools'' @ ?rest t" for a b t
    by (simp add: FormatAdapterToolTarget_def Let_def)
  from assms(1) have "ty @ CHR ''.'' # (inst @ CHR ''.'' # ''tools'' @ ?rest tool) =
      ty' @ CHR ''.'' # (inst' @ CHR ''.'' # ''tools'' @ ?rest tool')"
    unfolding shape by simp
  from dotted_inject [OF assms(2,3) this] have "ty = ty'"
    "inst @ CHR ''.'' # ''tools'' @ ?rest tool = inst' @ CHR ''.'' # ''tools'' @ ?rest tool'" by blast+
  with dotted_inject [OF assms(4,5) this(2)] show ?thesis by (auto split: if_splits)
qed

theorem target_unambiguous_witness:
  "FormatAdapterToolTarget ''shell'' ''w'' ''git.status'' = ''adapter.shell.w.tools.git.status'' \<and>
   (FormatAdapterToolTarget ''shell'' ''w'' [] = FormatAdapterToolTarget ''shell'' ''w'' [] \<longleftrightarrow>
      ''shell'' = ''shell'' \<and> ''w'' = ''w'' \<and> [] = ([] :: string))"
  using target_unambiguous [of "''shell''" "''w''" "[]" "''shell''" "''w''" "[]"]
  by (simp add: FormatAdapterToolTarget_def)

section \<open>The bound on the wait\<close>

text \<open>A call that reaches its select on a context without a deadline always waits under a
  positive bound, its own timeout if that is positive and 60 seconds otherwise; a context with a deadline governs as it is.\<close>

theorem wait_is_bounded:
  "\<exists>d. call_sent time call None i a None b = (Selecting call (Some d) i a, b) \<and> time < d \<and>
     d = time + (if 0 < sint (Timeout call) then unat (Timeout call) else 60 * 10 ^ 9) \<and>
   call_sent time call (Some t) i a None b = (Selecting call (Some t) i a, b)"
proof -
  have "unat DefaultToolCallTimeout = 60 * 10 ^ 9" by (simp add: DefaultToolCallTimeout_def)
  moreover have "0 < unat (Timeout call)" if "0 < sint (Timeout call)" using that by (cases "Timeout call = 0") (auto simp: unat_gt_0)
  ultimately show ?thesis by (auto simp: call_sent_def call_bound_def)
qed

end
