(* ===== verification/Tool_Call_Dispatch.thy ===== *)
theory Tool_Call_Dispatch
  imports Tool_Call_Wire Tool_Call_Termination
begin

text \<open>
  The dispatch loop \<open>ToolCallBridge.Permissions\<close> (\<open>src/adapterhost/toolcall.go\<close>) as one of the goroutines of the system: what it does to the
  bridge is a sequence of the system's actions, so whatever holds of every run of the system holds while the loop runs.
\<close>

section \<open>The actions of the loop\<close>

definition end_actions :: "((string \<rightharpoonup> nat) \<Rightarrow> string list) \<Rightarrow> ToolCallBridge \<Rightarrow> action list" where
  "end_actions order b =
     StreamEnd (order (pending b)) # map CloseOne (fst (closeAll_collect (order (pending b)) b))"

text \<open>An event is dispatched unless it asks for an acknowledgement that cannot be sent; that, and an error of \<open>Recv\<close>, end the stream.\<close>

fun loop_actions :: "((string \<rightharpoonup> nat) \<Rightarrow> string list) \<Rightarrow> ToolCallBridge \<Rightarrow> turn list \<Rightarrow> action list" where
  "loop_actions order b [] = []"
| "loop_actions order b ((RecvErr e, w) # ts) = end_actions order b"
| "loop_actions order b ((RecvOk ev, w) # ts) =
     (if grant_ack ev \<noteq> None \<and> w \<noteq> None then end_actions order b
      else Dispatch ev # loop_actions order (dispatch_event b ev) ts)"

lemma loop_actions_others: "list_all (\<lambda>a. caller_of a = None) (loop_actions order b ts)"
  by (induction order b ts rule: loop_actions.induct) (auto simp: end_actions_def list_all_iff)

section \<open>They do what the loop does\<close>

lemma finite_pending:
  assumes "bridge_wf b"
  shows "finite (dom (pending b))"
proof (rule inj_on_finite [where f = "\<lambda>i. the (pending b i)" and B = "{..<length (store b)}"])
  show "inj_on (\<lambda>i. the (pending b i)) (dom (pending b))" using assms by (auto simp: inj_on_def bridge_wf_def)
  show "(\<lambda>i. the (pending b i)) ` dom (pending b) \<subseteq> {..<length (store b)}" using assms by (auto simp: bridge_wf_def)
qed simp

lemma close_run:
  "closing s = cs @ as \<Longrightarrow> set as \<inter> set cs = {} \<Longrightarrow>
   sys_run env s (map CloseOne as) = Some (s\<lparr>bridge := fold close_entry as (bridge s), closing := cs\<rparr>)"
proof (induction as arbitrary: s)
  case Nil
  then show ?case by simp
next
  case (Cons a as)
  let ?t = "s\<lparr>bridge := close_entry a (bridge s), closing := remove1 a (closing s)\<rparr>"
  have "closing ?t = cs @ as" using Cons.prems by (simp add: remove1_append)
  from Cons.IH [OF this] Cons.prems show ?case by simp
qed

lemma end_run:
  assumes "(call_step env)\<^sup>*\<^sup>* init_sys s" "range_order (order (pending (bridge s))) (pending (bridge s))"
  shows "sys_run env s (end_actions order (bridge s)) = Some (s\<lparr>bridge := closeAll (order (pending (bridge s))) (bridge s)\<rparr>)"
proof -
  let ?ids = "order (pending (bridge s))" and ?b = "snd (closeAll_collect (order (pending (bridge s))) (bridge s))"
  let ?as = "List.map_filter (pending (bridge s)) ?ids"
  have inv: "inv_bridge (bridge s) (closing s)" by (rule reachable_bridge [OF assms(1)])
  have "set ?as = ran (pending (bridge s))"
    by (rule collect_addresses(2) [OF assms(2) reachable_bridge_wf [OF assms(1)]])
  then have apart: "set ?as \<inter> set (closing s) = {}" using inv_bridge_pendingD [OF inv] by (auto simp: ran_def)
  have "sys_step env s (StreamEnd ?ids) = Some (s\<lparr>bridge := ?b, closing := closing s @ ?as\<rparr>)"
    using assms(2) by (simp add: range_order_def closeAll_collect_def)
  with close_run [of "s\<lparr>bridge := ?b, closing := closing s @ ?as\<rparr>" "closing s" ?as env] apart show ?thesis
    by (simp add: end_actions_def closeAll_def closeAll_collect_def del: sys_step.simps)
qed

text \<open>The loop with its last turn first: it goes on with the dispatched event, or the stream ends.\<close>

lemma loop_turn:
  "(loop_actions order b (turn # ts) = end_actions order b \<and>
     fst (Permissions sc order b (turn # ts)) = closeAll (order (pending b)) b) \<or>
   (\<exists>ev. loop_actions order b (turn # ts) = Dispatch ev # loop_actions order (dispatch_event b ev) ts \<and>
     fst (Permissions sc order b (turn # ts)) = fst (Permissions sc order (dispatch_event b ev) ts))"
proof -
  obtain r w where turn: "turn = (r, w)" by (rule prod.exhaust)
  show ?thesis
  proof (cases r)
    case (RecvErr e)
    then show ?thesis by (simp add: turn)
  next
    case (RecvOk ev)
    show ?thesis
    proof (cases "grant_ack ev")
      case None
      with RecvOk perms.loop_silent [OF None, of sc order b w ts] show ?thesis by (simp add: turn)
    next
      case ack: (Some i)
      with RecvOk perms.loop_ack [OF ack, of sc order b ts] perms.loop_send_err [OF ack, of sc order b _ ts] show ?thesis
        by (cases w) (simp_all add: turn case_prod_beta Let_def del: Permissions.simps)
    qed
  qed
qed

lemma loop_run:
  assumes "(call_step env)\<^sup>*\<^sup>* init_sys s" "\<And>m. finite (dom m) \<Longrightarrow> range_order (order m) m"
  shows "\<exists>t. sys_run env s (loop_actions order (bridge s) ts) = Some t \<and>
    bridge t = fst (Permissions sc order (bridge s) ts) \<and> callers t = callers s \<and> closing t = closing s"
  using assms(1)
proof (induction ts arbitrary: s)
  case Nil
  then show ?case by simp
next
  case (Cons turn ts)
  have order: "range_order (order (pending (bridge s))) (pending (bridge s))"
    by (rule assms(2) [OF finite_pending [OF reachable_bridge_wf [OF Cons.prems]]])
  from loop_turn [of order "bridge s" turn ts sc] show ?case
  proof (elim disjE exE conjE)
    assume "loop_actions order (bridge s) (turn # ts) = end_actions order (bridge s)"
      "fst (Permissions sc order (bridge s) (turn # ts)) = closeAll (order (pending (bridge s))) (bridge s)"
    with end_run [where order = order, OF Cons.prems order] show ?thesis by simp
  next
    fix ev
    assume ev: "loop_actions order (bridge s) (turn # ts) = Dispatch ev # loop_actions order (dispatch_event (bridge s) ev) ts"
      "fst (Permissions sc order (bridge s) (turn # ts)) = fst (Permissions sc order (dispatch_event (bridge s) ev) ts)"
    let ?u = "s\<lparr>bridge := dispatch_event (bridge s) ev\<rparr>"
    have "(call_step env)\<^sup>*\<^sup>* init_sys ?u"
      using Cons.prems call_step.step [of env s "Dispatch ev" ?u] by (simp add: rtranclp.rtrancl_into_rtrancl)
    from Cons.IH [OF this] ev show ?thesis by simp
  qed
qed

text \<open>C7: the dispatch loop is a schedule of the system. Run on the bridge of any reachable state, on any sequence of receives and sends, the loop
  leaves the bridge as the system's own dispatch and stream-end actions do; the calls do not move, no entry stays half closed, and the
  state is reachable, so every guarantee of the system holds while and after the loop runs, on every way the loop ends.\<close>

theorem dispatch_loop_is_schedule:
  assumes "(call_step env)\<^sup>*\<^sup>* init_sys s" "\<And>m. finite (dom m) \<Longrightarrow> range_order (order m) m"
  shows "\<exists>t. sys_run env s (loop_actions order (bridge s) ts) = Some t \<and> (call_step env)\<^sup>*\<^sup>* init_sys t \<and>
    bridge t = fst (Permissions sc order (bridge s) ts) \<and> callers t = callers s \<and> closing t = closing s \<and>
    list_all (\<lambda>a. caller_of a = None) (loop_actions order (bridge s) ts)"
proof -
  obtain t where t: "sys_run env s (loop_actions order (bridge s) ts) = Some t"
    "bridge t = fst (Permissions sc order (bridge s) ts)" "callers t = callers s" "closing t = closing s"
    using loop_run [where order = order, OF assms] by blast
  from assms(1) sys_run_steps [OF t(1)] have "(call_step env)\<^sup>*\<^sup>* init_sys t" by (rule rtranclp_trans)
  with t loop_actions_others show ?thesis by blast
qed

text \<open>The sample call is granted, then its stream ends; the loop visits the map in some order.\<close>

lemma some_order: "\<exists>order :: (string \<rightharpoonup> nat) \<Rightarrow> string list. \<forall>m. finite (dom m) \<longrightarrow> range_order (order m) m"
proof (rule choice, rule allI)
  fix m :: "string \<rightharpoonup> nat"
  show "\<exists>ids. finite (dom m) \<longrightarrow> range_order ids m"
    using finite_distinct_list [of "dom m"] by (auto simp: range_order_def)
qed

theorem dispatch_loop_is_schedule_witness:
  "\<exists>order t. sys_run sample_env sample_state
      (loop_actions order (bridge sample_state) [(RecvOk (PE_Request sample_id), None), (RecvErr (Sentinel EOF), None)]) = Some t \<and>
     bridge t = fst (Permissions (\<lambda>_. Code_Other 2) order (bridge sample_state)
       [(RecvOk (PE_Request sample_id), None), (RecvErr (Sentinel EOF), None)]) \<and>
     callers t 0 = Selecting sample_call (Some (unat DefaultToolCallTimeout)) sample_id 0"
proof -
  obtain order :: "(string \<rightharpoonup> nat) \<Rightarrow> string list" where order: "\<And>m. finite (dom m) \<Longrightarrow> range_order (order m) m"
    using some_order by blast
  from dispatch_loop_is_schedule [OF sample_reachable order] sample_selecting show ?thesis by metis
qed

end
