(* ===== verification/Go_JSON_Facts.thy ===== *)
theory Go_JSON_Facts
  imports Go_JSON
begin

text \<open>
  What the JSON model guarantees: a printed value, compact or indented, is read back as it was, by the
  one-shot decoder and by the stream decoder, provided its strings are valid UTF-8, its numbers are JSON numbers and it is not nested too deeply;
  and a compact value occupies a single line.
\<close>

section \<open>Valid UTF-8\<close>

function utf8_ok :: "string \<Rightarrow> bool" where
  "utf8_ok [] = True"
| "utf8_ok (c # cs) = (rune_len (c # cs) \<noteq> 0 \<and> utf8_ok (drop (rune_len (c # cs) - 1) cs))"
  by pat_completeness auto
termination
  by (relation "measure length") auto

lemma rune_len_ascii [simp]: "ord8 c < 128 \<Longrightarrow> rune_len (c # cs) = 1"
  by (simp add: rune_len_def)

lemma utf8_ok_ascii [simp]: "ord8 c < 128 \<Longrightarrow> utf8_ok (c # cs) = utf8_ok cs"
  by simp

lemma rune_len_shape:
  assumes "128 \<le> ord8 c" "rune_len (c # cs) = n" "n \<noteq> 0"
  obtains c1 r where "n = 2" "cs = c1 # r" "is_cont c1"
    | c1 c2 r where "n = 3" "cs = c1 # c2 # r" "is_cont c1" "is_cont c2"
    | c1 c2 c3 r where "n = 4" "cs = c1 # c2 # c3 # r" "is_cont c1" "is_cont c2" "is_cont c3"
  using assms
  by (auto simp: rune_len_def Let_def split: if_splits list.splits)

lemma rune_len_local:
  assumes "128 \<le> ord8 c" "rune_len (c # cs) = n" "n \<noteq> 0"
  shows "rune_len (c # take (n - 1) cs @ x) = n" "list_all is_cont (take (n - 1) cs)" "length (take (n - 1) cs) = n - 1"
proof -
  show "rune_len (c # take (n - 1) cs @ x) = n"
    using assms(3)
    by (rule rune_len_shape [OF assms(1,2)])
      (use assms in \<open>auto simp: rune_len_def Let_def numeral_2_eq_2 numeral_3_eq_3 numeral_eq_Suc split: if_splits list.splits\<close>)
  show "list_all is_cont (take (n - 1) cs)" "length (take (n - 1) cs) = n - 1"
    using assms(3) by (rule rune_len_shape [OF assms(1,2)], auto simp: numeral_eq_Suc)+
qed

section \<open>Escaping and unescaping\<close>

lemma hex_num_hex_digit: "n < 16 \<Longrightarrow> hex_num (hex_digit n) = n"
  by (auto simp: hex_num_def hex_digit_def is_digit_def)

lemma hex_digit_is_hex: "n < 16 \<Longrightarrow> is_hex (hex_digit n)"
  by (auto simp: is_hex_def hex_digit_def is_digit_def)

lemma hex_num_0 [simp]: "hex_num (CHR ''0'') = 0"
  by code_simp

lemma take4: "take 4 (a # b # c # d # x) = [a, b, c, d]" "drop 4 (a # b # c # d # x) = x"
  by (simp_all add: numeral_eq_Suc)

lemma hex4_escape:
  assumes "b < 256"
  shows "hex4 (CHR ''0'' # CHR ''0'' # hex2 b @ x) = b"
proof -
  have "b div 16 < 16" using assms by simp
  then show ?thesis by (simp add: hex4_def hex2_def take4 hex_num_hex_digit)
qed

lemma ord8_inject: "ord8 c = ord8 d \<longleftrightarrow> c = d"
  by simp

lemma char_of_eq: "ord8 c = n \<Longrightarrow> char_of n = c"
  by auto

lemma control_chars:
  "ord8 c = 8 \<longleftrightarrow> c = CHR 0x08" "ord8 c = 12 \<longleftrightarrow> c = CHR 0x0C" "ord8 c = 10 \<longleftrightarrow> c = CHR 0x0A"
  "ord8 c = 13 \<longleftrightarrow> c = CHR 0x0D" "ord8 c = 9 \<longleftrightarrow> c = CHR 0x09"
  using ord8_inject [of c "CHR 0x08"] ord8_inject [of c "CHR 0x0C"] ord8_inject [of c "CHR 0x0A"]
    ord8_inject [of c "CHR 0x0D"] ord8_inject [of c "CHR 0x09"] by simp_all

lemma not_surrogate: "b < 256 \<Longrightarrow> \<not> is_surrogate b"
  by (simp add: is_surrogate_def)

lemma unquote_backslash_u:
  assumes "\<not> is_surrogate (hex4 rest)"
  shows "json_unquote (backslash # CHR ''u'' # rest) = utf8_encode (hex4 rest) @ json_unquote (drop 4 rest)"
  using assms by (simp add: Let_def)

lemma unquote_simple:
  "e \<noteq> CHR ''u'' \<Longrightarrow> json_unquote (backslash # e # rest) = simple_escape e # json_unquote rest"
  "c \<noteq> backslash \<Longrightarrow> ord8 c < 128 \<Longrightarrow> json_unquote (c # cs) = c # json_unquote cs"
  "128 \<le> ord8 c \<Longrightarrow> rune_len (c # cs) = n \<Longrightarrow> n \<noteq> 0 \<Longrightarrow>
   json_unquote (c # cs) = c # take (n - 1) cs @ json_unquote (drop (n - 1) cs)"
  by (auto simp: Let_def)

declare json_unquote.simps(2) [simp del]

lemma unquote_escape_ascii:
  assumes "ord8 c < 128"
  shows "json_unquote (escape_ascii c @ x) = c # json_unquote x"
proof -
  let ?b = "ord8 c"
  consider "c = dquote \<or> c = backslash" | "?b \<in> {8, 12, 10, 13, 9}" "c \<noteq> dquote" "c \<noteq> backslash"
    | "?b < 32 \<or> c = CHR ''<'' \<or> c = CHR ''>'' \<or> c = CHR ''&''" "?b \<notin> {8, 12, 10, 13, 9}" "c \<noteq> dquote" "c \<noteq> backslash"
    | "\<not> (?b < 32 \<or> c = CHR ''<'' \<or> c = CHR ''>'' \<or> c = CHR ''&'')" "c \<noteq> dquote" "c \<noteq> backslash"
    by blast
  then show ?thesis
  proof cases
    case 1
    then show ?thesis by (auto simp: escape_ascii_def simple_escape_def unquote_simple)
  next
    case 2
    then have "c = CHR 0x08 \<or> c = CHR 0x0C \<or> c = CHR 0x0A \<or> c = CHR 0x0D \<or> c = CHR 0x09"
      by (auto simp: control_chars)
    then show ?thesis
      by (elim disjE) (simp_all add: escape_ascii_def simple_escape_def Let_def unquote_simple)
  next
    case 3
    then have e: "escape_ascii c = backslash # ''u00'' @ hex2 ?b" by (auto simp: escape_ascii_def Let_def)
    have h: "hex4 (CHR ''0'' # CHR ''0'' # hex2 ?b @ x) = ?b" by (intro hex4_escape) simp
    have "json_unquote (escape_ascii c @ x) = utf8_encode ?b @ json_unquote (drop 4 (CHR ''0'' # CHR ''0'' # hex2 ?b @ x))"
      unfolding e using unquote_backslash_u [of "CHR ''0'' # CHR ''0'' # hex2 ?b @ x"] h not_surrogate [of ?b] by simp
    then show ?thesis using assms by (simp add: utf8_encode_def hex2_def take4)
  next
    case 4
    then have "escape_ascii c = [c]" by (auto simp: escape_ascii_def Let_def)
    with 4 assms show ?thesis by (simp add: unquote_simple)
  qed
qed

lemma unquote_u4:
  assumes "hex4 [a, b, c, d] = n" "\<not> is_surrogate n"
  shows "json_unquote (backslash # CHR ''u'' # a # b # c # d # x) = utf8_encode n @ json_unquote x"
proof -
  have "hex4 (a # b # c # d # x) = n" using assms(1) by (simp add: hex4_def take4)
  with unquote_backslash_u [of "a # b # c # d # x"] assms(2) show ?thesis by (simp add: take4)
qed

lemma unquote_u2028:
  "json_unquote (backslash # ''u2028'' @ x) = [CHR 0xE2, CHR 0x80, CHR 0xA8] @ json_unquote x"
  "json_unquote (backslash # ''u2029'' @ x) = [CHR 0xE2, CHR 0x80, CHR 0xA9] @ json_unquote x"
proof -
  have "hex4 ''2028'' = 8232" "hex4 ''2029'' = 8233" "\<not> is_surrogate 8232" "\<not> is_surrogate 8233"
    by (simp_all add: hex4_def take4 hex_num_def is_digit_def is_surrogate_def)
  note u = unquote_u4 [OF this(1,3), of x] unquote_u4 [OF this(2,4), of x]
  have enc: "utf8_encode 8232 = [CHR 0xE2, CHR 0x80, CHR 0xA8]" "utf8_encode 8233 = [CHR 0xE2, CHR 0x80, CHR 0xA9]"
    by (simp_all add: utf8_encode_def char_of_eq [of "CHR 0xE2"] char_of_eq [of "CHR 0x80"]
        char_of_eq [of "CHR 0xA8"] char_of_eq [of "CHR 0xA9"])
  show "json_unquote (backslash # ''u2028'' @ x) = [CHR 0xE2, CHR 0x80, CHR 0xA8] @ json_unquote x"
    "json_unquote (backslash # ''u2029'' @ x) = [CHR 0xE2, CHR 0x80, CHR 0xA9] @ json_unquote x"
    using u unfolding enc by simp_all
qed

lemma escape_cases:
  assumes "utf8_ok (c # cs)"
  obtains (ascii) "ord8 c < 128" "json_escape (c # cs) = escape_ascii c @ json_escape cs" "utf8_ok cs"
    | (sep) r d where "c # cs = [CHR 0xE2, CHR 0x80, d] @ r" "utf8_ok r" "length r < length (c # cs)"
        "d = CHR 0xA8 \<and> json_escape (c # cs) = backslash # ''u2028'' @ json_escape r \<or>
         d = CHR 0xA9 \<and> json_escape (c # cs) = backslash # ''u2029'' @ json_escape r"
    | (multi) n where "128 \<le> ord8 c" "rune_len (c # cs) = n" "n \<noteq> 0" "utf8_ok (drop (n - 1) cs)"
        "json_escape (c # cs) = c # take (n - 1) cs @ json_escape (drop (n - 1) cs)"
proof (cases "ord8 c < 128")
  case True
  with assms show ?thesis by (intro ascii) simp_all
next
  case False
  define n where "n = rune_len (c # cs)"
  have n: "rune_len (c # cs) = n" "n \<noteq> 0" "utf8_ok (drop (n - 1) cs)" using assms by (simp_all add: n_def)
  show ?thesis
  proof (cases "\<exists>d r. c # cs = [CHR 0xE2, CHR 0x80, d] @ r \<and> (d = CHR 0xA8 \<or> d = CHR 0xA9)")
    case True
    then obtain d r where d: "c # cs = [CHR 0xE2, CHR 0x80, d] @ r" "d = CHR 0xA8 \<or> d = CHR 0xA9" by blast
    have "rune_len (c # cs) = 3" unfolding d(1) using d(2) by (auto simp: rune_len_def is_cont_def)
    with n(1) have "n = 3" by simp
    with d n(3) have r: "utf8_ok r" by auto
    from d n \<open>n = 3\<close> False have "d = CHR 0xA8 \<and> json_escape (c # cs) = backslash # ''u2028'' @ json_escape r \<or>
         d = CHR 0xA9 \<and> json_escape (c # cs) = backslash # ''u2029'' @ json_escape r"
      by (auto simp: Let_def numeral_3_eq_3)
    with d(1) r show ?thesis by (intro sep) auto
  next
    case no: False
    have "take 3 (c # cs) \<noteq> [CHR 0xE2, CHR 0x80, d]" if "d = CHR 0xA8 \<or> d = CHR 0xA9" for d
    proof
      assume "take 3 (c # cs) = [CHR 0xE2, CHR 0x80, d]"
      then have "c # cs = [CHR 0xE2, CHR 0x80, d] @ drop 3 (c # cs)" using append_take_drop_id [of 3 "c # cs"] by metis
      with no that show False by blast
    qed
    with False n show ?thesis by (intro multi [of n]) (simp_all add: Let_def)
  qed
qed

lemma unquote_escape: "utf8_ok s \<Longrightarrow> json_unquote (json_escape s) = s"
proof (induction s rule: length_induct)
  case (1 s)
  show ?case
  proof (cases s)
    case (Cons c cs)
    with 1(2) have "utf8_ok (c # cs)" by simp
    then show ?thesis
    proof (cases rule: escape_cases)
      case ascii
      with 1(1) Cons show ?thesis by (simp add: unquote_escape_ascii)
    next
      case (sep r d)
      with 1(1) Cons have "json_unquote (json_escape r) = r" by auto
      with sep(1,4) Cons show ?thesis using unquote_u2028 [of "json_escape r"] by auto
    next
      case (multi n)
      let ?y = "take (n - 1) cs"
      note loc = rune_len_local [OF multi(1-3)]
      have IH: "json_unquote (json_escape (drop (n - 1) cs)) = drop (n - 1) cs" using 1(1) Cons multi(4) by simp
      have "json_unquote (c # ?y @ json_escape (drop (n - 1) cs)) =
          c # take (n - 1) (?y @ json_escape (drop (n - 1) cs)) @ json_unquote (drop (n - 1) (?y @ json_escape (drop (n - 1) cs)))"
        by (rule unquote_simple(3) [OF multi(1) loc(1) multi(3)])
      also have "\<dots> = c # ?y @ json_unquote (json_escape (drop (n - 1) cs))"
        using loc(3) by (simp only: take_append drop_append) simp
      finally show ?thesis using multi(5) Cons IH by simp
    qed
  qed simp
qed

section \<open>Scanning a printed string\<close>

fun lex_run :: "lex_state \<Rightarrow> string \<Rightarrow> (token list \<times> lex_state) option" where
  "lex_run st [] = Some ([], st)"
| "lex_run st (c # cs) =
     (case lex_step st c of None \<Rightarrow> None
      | Some (ts, st') \<Rightarrow>
          (case lex_run st' cs of None \<Rightarrow> None | Some (us, st'') \<Rightarrow> Some (ts @ us, st'')))"

lemma lex_run_append:
  "lex_run st a = Some (ts, st') \<Longrightarrow> lex_run st' b = Some (us, st'') \<Longrightarrow> lex_run st (a @ b) = Some (ts @ us, st'')"
  by (induction a arbitrary: st ts) (auto split: option.splits)

lemma lex_LStr_plain:
  "\<lbrakk>\<And>c. c \<in> set w \<Longrightarrow> 32 \<le> ord8 c \<and> c \<noteq> dquote \<and> c \<noteq> backslash\<rbrakk> \<Longrightarrow> lex_run (LStr raw) w = Some ([], LStr (raw @ w))"
proof (induction w arbitrary: raw)
  case (Cons c w)
  then have "lex_step (LStr raw) c = Some ([], LStr (raw @ [c]))" by (force simp: lex_step_def)
  with Cons show ?case by simp
qed simp

lemma lex_escape_u:
  assumes "is_hex a" "is_hex b" "is_hex c" "is_hex d"
  shows "lex_run (LStr raw) [backslash, CHR ''u'', a, b, c, d] = Some ([], LStr (raw @ [backslash, CHR ''u'', a, b, c, d]))"
  using assms by (simp add: lex_step_def)

lemma lex_escape_ascii:
  assumes "ord8 c < 128"
  shows "lex_run (LStr raw) (escape_ascii c) = Some ([], LStr (raw @ escape_ascii c))"
proof -
  have hex: "is_hex (CHR ''0'')" by code_simp
  have "ord8 c div 16 < 16" using assms by simp
  then have digits: "is_hex (hex_digit (ord8 c div 16))" "is_hex (hex_digit (ord8 c mod 16))"
    by (auto intro: hex_digit_is_hex)
  have simple: "lex_run (LStr raw) [backslash, e] = Some ([], LStr (raw @ [backslash, e]))"
    if "e \<in> set ''bfnrt/'' \<or> e = dquote \<or> e = backslash" for e
    using that by (auto simp: lex_step_def)
  show ?thesis
    using lex_escape_u [OF hex hex digits, of raw] simple lex_LStr_plain [of "[c]" raw]
    by (auto simp: escape_ascii_def Let_def hex2_def not_less)
qed

lemma is_cont_plain: "is_cont c \<Longrightarrow> 32 \<le> ord8 c \<and> c \<noteq> dquote \<and> c \<noteq> backslash"
  by (auto simp: is_cont_def)

lemma lex_json_escape:
  "utf8_ok s \<Longrightarrow> lex_run (LStr raw) (json_escape s) = Some ([], LStr (raw @ json_escape s))"
proof (induction s arbitrary: raw rule: length_induct)
  case (1 s)
  show ?case
  proof (cases s)
    case (Cons c cs)
    with 1(2) have "utf8_ok (c # cs)" by simp
    then show ?thesis
    proof (cases rule: escape_cases)
      case ascii
      with 1(1) Cons show ?thesis
        using lex_run_append [OF lex_escape_ascii [OF ascii(1), of raw]] by auto
    next
      case (sep r d)
      have IH: "lex_run (LStr raw') (json_escape r) = Some ([], LStr (raw' @ json_escape r))" for raw'
        using 1(1) sep(2,3) Cons by auto
      have hex: "is_hex (CHR ''2'')" "is_hex (CHR ''0'')" "is_hex (CHR ''8'')" "is_hex (CHR ''9'')" by code_simp+
      from sep(4) show ?thesis
        using Cons lex_run_append [OF lex_escape_u [OF hex(1,2,1,3), of raw] IH]
          lex_run_append [OF lex_escape_u [OF hex(1,2,1,4), of raw] IH] by auto
    next
      case (multi n)
      note loc = rune_len_local [OF multi(1-3)]
      have "lex_run (LStr raw) (c # take (n - 1) cs) = Some ([], LStr (raw @ c # take (n - 1) cs))"
      proof (rule lex_LStr_plain)
        fix d assume "d \<in> set (c # take (n - 1) cs)"
        with multi(1) loc(2) is_cont_plain [of d] show "32 \<le> ord8 d \<and> d \<noteq> dquote \<and> d \<noteq> backslash"
          by (auto simp: list_all_iff)
      qed
      from lex_run_append [OF this] 1(1) Cons multi(4,5) show ?thesis by simp
    qed
  qed simp
qed

lemma lex_json_quote: "utf8_ok s \<Longrightarrow> lex_run LStart (json_quote s) = Some ([TStr s], LStart)"
proof -
  assume s: "utf8_ok s"
  have "lex_run (LStr (json_escape s)) [dquote] = Some ([TStr s], LStart)"
    using unquote_escape [OF s] by (simp add: lex_step_def)
  from lex_run_append [OF lex_json_escape [OF s, of "[]"]] this
  have "lex_run (LStr []) (json_escape s @ [dquote]) = Some ([TStr s], LStart)" by simp
  moreover have "lex_step LStart dquote = Some ([], LStr [])" by code_simp
  ultimately show ?thesis by (simp add: json_quote_def)
qed

section \<open>Tokens of a value\<close>

fun commas :: "token list list \<Rightarrow> token list" where
  "commas [] = []"
| "commas [ts] = ts"
| "commas (ts # tss) = ts @ TComma # commas tss"

fun toks :: "gval \<Rightarrow> token list" where
  "toks GNil = [TNull]"
| "toks (GBool b) = [if b then TTrue else TFalse]"
| "toks (GNum n) = [TNum n]"
| "toks (GStr s) = [TStr s]"
| "toks (GList vs) = TLBrack # commas (map toks vs) @ [TRBrack]"
| "toks (GMap kvs) = TLBrace # commas (map (\<lambda>(k, v). TStr k # TColon # toks v) kvs) @ [TRBrace]"
| "toks (GOpaque n) = []"

text \<open>The values with a JSON form.\<close>

fun json_ok :: "gval \<Rightarrow> bool" where
  "json_ok (GNum n) = number_ok n"
| "json_ok (GStr s) = utf8_ok s"
| "json_ok (GList vs) = list_all json_ok vs"
| "json_ok (GMap kvs) = list_all (\<lambda>(k, v). utf8_ok k \<and> json_ok v) kvs"
| "json_ok (GOpaque n) = False"
| "json_ok v = True"

text \<open>A byte that ends a number or a word: white space or punctuation, with the tokens it stands for.\<close>

definition delim :: "char \<Rightarrow> token list \<Rightarrow> bool" where
  "delim d dt \<longleftrightarrow> lex_start d = Some (dt, LStart) \<and> \<not> is_num_char d \<and> \<not> is_lower d"

lemma delim_punct [simp]:
  "delim (CHR '','') [TComma]" "delim (CHR '']'') [TRBrack]" "delim (CHR ''}'') [TRBrace]" "delim (CHR '':'') [TColon]"
  by code_simp+

lemma delim_space: "is_space c \<Longrightarrow> delim c []"
  by (auto simp: delim_def lex_start_def is_num_char_def is_lower_def is_space_def is_digit_def)

definition emits :: "string \<Rightarrow> token list \<Rightarrow> bool" where
  "emits s ts \<longleftrightarrow> (\<forall>d dt. delim d dt \<longrightarrow> lex_run LStart (s @ [d]) = Some (ts @ dt, LStart))"

lemma lex_step_delim: "delim d dt \<Longrightarrow> lex_run LStart [d] = Some (dt, LStart)"
  by (simp add: delim_def lex_step_def)

lemma emits_run: "lex_run LStart s = Some (ts, LStart) \<Longrightarrow> emits s ts"
  unfolding emits_def using lex_run_append lex_step_delim by blast

lemma emits_Nil: "emits [] []"
  by (rule emits_run) simp

lemma emits_sep:
  assumes "emits s ts" "delim c ct" "emits y us"
  shows "emits (s @ c # y) (ts @ ct @ us)"
  unfolding emits_def
proof (intro allI impI)
  fix d dt assume "delim d dt"
  with assms(3) have "lex_run LStart (y @ [d]) = Some (us @ dt, LStart)" by (simp add: emits_def)
  moreover have "lex_run LStart (s @ [c]) = Some (ts @ ct, LStart)" using assms(1,2) by (simp add: emits_def)
  ultimately show "lex_run LStart ((s @ c # y) @ [d]) = Some ((ts @ ct @ us) @ dt, LStart)"
    using lex_run_append [of LStart "s @ [c]"] by simp
qed

lemma emits_spaces: "list_all is_space a \<Longrightarrow> emits y us \<Longrightarrow> emits (a @ y) us"
proof (induction a)
  case (Cons c a)
  then have "emits ([] @ c # (a @ y)) ([] @ [] @ us)" by (intro emits_sep emits_Nil delim_space) simp_all
  then show ?case by simp
qed simp

lemma emits_open:
  assumes "lex_step LStart c = Some ([t], LStart)" "emits y us"
  shows "emits (c # y) (t # us)"
  using assms by (simp add: emits_def)

text \<open>The body of a composite: elements with separators, white space around.\<close>

lemma emits_commas:
  assumes "list_all2 emits ss tss" "list_all is_space a"
  shows "emits (sep_concat (CHR '','' # a) ss) (commas tss)"
  using assms(1)
proof (induction ss tss rule: list_all2_induct)
  case (Cons s ss ts tss)
  show ?case
  proof (cases ss)
    case Nil
    with Cons show ?thesis by (auto simp: list_all2_Cons1)
  next
    case ss: (Cons x xs)
    with Cons.hyps obtain y ys where tss: "tss = y # ys" by (auto simp: list_all2_Cons1)
    have "emits (s @ CHR '','' # (a @ sep_concat (CHR '','' # a) ss)) (ts @ [TComma] @ commas tss)"
      by (intro emits_sep emits_spaces Cons assms(2)) simp
    with ss tss show ?thesis by simp
  qed
qed (simp add: emits_Nil)

lemma emits_trailing:
  assumes "emits body us" "list_all is_space b"
  shows "emits (body @ b) us"
proof (cases b)
  case (Cons x b')
  with assms have "emits (body @ x # (b' @ [])) (us @ [] @ [])"
    by (intro emits_sep delim_space emits_spaces emits_Nil) simp_all
  with Cons show ?thesis by simp
qed (use assms in simp)

lemma run_composite:
  assumes "lex_step LStart oc = Some ([ot], LStart)" "list_all is_space a" "emits body us" "list_all is_space b"
    "delim c [t]"
  shows "lex_run LStart (oc # a @ body @ b @ [c]) = Some (ot # us @ [t], LStart)"
proof -
  have "emits (oc # a @ body @ b) (ot # us)"
    by (intro emits_open emits_spaces emits_trailing assms)
  then show ?thesis using assms(5) by (auto simp: emits_def)
qed

lemma brackets [simp]:
  "lex_step LStart (CHR ''['') = Some ([TLBrack], LStart)" "lex_step LStart (CHR '']'') = Some ([TRBrack], LStart)"
  "lex_step LStart (CHR ''{'') = Some ([TLBrace], LStart)" "lex_step LStart (CHR ''}'') = Some ([TRBrace], LStart)"
  by code_simp+

section \<open>Numbers and words\<close>

lemma lex_LNum: "list_all is_num_char w \<Longrightarrow> lex_run (LNum u) w = Some ([], LNum (u @ w))"
  by (induction w arbitrary: u) (auto simp: lex_step_def)

lemma digits_prefix_split: "digits_prefix s = (ds, rest) \<Longrightarrow> s = ds @ rest \<and> list_all is_digit ds"
  by (auto simp: digits_prefix_def list_all_iff dest: set_takeWhileD)

lemma num_chars: "is_digit c \<Longrightarrow> is_num_char c" "is_num_char (CHR ''-'')" "is_num_char (CHR ''+'')"
  "is_num_char (CHR ''.'')" "is_num_char (CHR ''e'')" "is_num_char (CHR ''E'')"
  by (auto simp: is_num_char_def)

lemma digits_num_chars: "list_all is_digit s \<Longrightarrow> list_all is_num_char s"
  by (auto simp: list_all_iff num_chars)

lemma exp_ok_chars: "exp_ok s \<Longrightarrow> list_all is_num_char s"
  by (auto simp: exp_ok_def Let_def num_chars digits_num_chars split: list.splits if_splits)

lemma frac_ok_chars:
  assumes "frac_ok s"
  shows "list_all is_num_char s"
proof (cases "\<exists>cs. s = CHR ''.'' # cs")
  case True
  then obtain cs where s: "s = CHR ''.'' # cs" by blast
  obtain ds rest where d: "digits_prefix cs = (ds, rest)" by force
  with assms s have "exp_ok rest" by (simp add: frac_ok_def)
  with digits_prefix_split [OF d] s exp_ok_chars digits_num_chars show ?thesis by (simp add: num_chars)
next
  case False
  with assms have "exp_ok s" by (auto simp: frac_ok_def exp_ok_def split: list.splits if_splits)
  then show ?thesis by (rule exp_ok_chars)
qed

lemma number_ok_chars:
  assumes "number_ok n"
  obtains c w where "n = c # w" "is_digit c \<or> c = CHR ''-''" "list_all is_num_char w"
proof -
  let ?t = "case n of [] \<Rightarrow> [] | c # cs \<Rightarrow> if c = CHR ''-'' then cs else n"
  obtain ds rest where d: "digits_prefix ?t = (ds, rest)" by force
  with assms have ok: "ds \<noteq> []" "frac_ok rest" by (auto simp: number_ok_def Let_def)
  note split = digits_prefix_split [OF d]
  have t: "list_all is_num_char ?t" "?t \<noteq> []" "is_digit (hd ?t)"
    using split ok frac_ok_chars digits_num_chars by (auto simp: list_all_iff hd_append)
  show ?thesis
  proof (cases n)
    case Nil
    with t(2) show ?thesis by simp
  next
    case (Cons c w)
    with t show ?thesis by (intro that [of c w]) (auto split: if_splits)
  qed
qed

lemma lex_start_digit:
  assumes "is_digit c"
  shows "lex_start c = Some ([], LNum [c])"
proof -
  have "\<not> is_space c" using assms by (auto simp: is_space_def is_digit_def)
  moreover have "c \<noteq> CHR ''{''" "c \<noteq> CHR ''}''" "c \<noteq> CHR ''[''" "c \<noteq> CHR '']''" "c \<noteq> CHR '':''" "c \<noteq> CHR '',''" "c \<noteq> dquote"
    using assms by (auto simp: is_digit_def)
  ultimately show ?thesis using assms by (simp add: lex_start_def)
qed

lemma emits_number: "number_ok n \<Longrightarrow> emits n [TNum n]"
proof -
  assume ok: "number_ok n"
  then obtain c w where n: "n = c # w" "is_digit c \<or> c = CHR ''-''" "list_all is_num_char w"
    by (rule number_ok_chars)
  have "lex_start (CHR ''-'') = Some ([], LNum ''-'')" by code_simp
  then have "lex_step LStart c = Some ([], LNum [c])"
    using n(2) lex_start_digit [of c] by (auto simp: lex_step_def)
  with lex_LNum [OF n(3), of "[c]"] n(1) have run: "lex_run LStart n = Some ([], LNum n)" by simp
  have "lex_run (LNum n) [d] = Some ([TNum n] @ dt, LStart)" if "delim d dt" for d dt
    using that ok by (simp add: delim_def lex_step_def num_token_def)
  with lex_run_append [OF run] show ?thesis by (auto simp: emits_def)
qed

lemma emits_word: "emits ''true'' [TTrue]" "emits ''false'' [TFalse]" "emits ''null'' [TNull]"
proof -
  have run: "lex_run LStart ''true'' = Some ([], LWord ''true'')" "lex_run LStart ''false'' = Some ([], LWord ''false'')"
    "lex_run LStart ''null'' = Some ([], LWord ''null'')" by code_simp+
  have "lex_run (LWord w) [d] = Some (t # dt, LStart)" if "delim d dt" "word_token w = Some t" for w t d dt
    using that by (simp add: delim_def lex_step_def)
  then show "emits ''true'' [TTrue]" "emits ''false'' [TFalse]" "emits ''null'' [TNull]"
    using lex_run_append [OF run(1)] lex_run_append [OF run(2)] lex_run_append [OF run(3)]
    by (auto simp: emits_def word_token_def)
qed

section \<open>Printed values are scanned to their tokens\<close>

lemma emits_entry:
  assumes "utf8_ok k" "emits s ts" "list_all is_space a"
  shows "emits (json_quote k @ CHR '':'' # a @ s) (TStr k # TColon # ts)"
  using emits_sep [OF emits_run [OF lex_json_quote [OF assms(1)]] delim_punct(4) emits_spaces [OF assms(3,2)]] by simp

lemma run_list:
  assumes "\<And>v. v \<in> set vs \<Longrightarrow> emits (f v) (toks v)" "list_all is_space a" "list_all is_space b"
  shows "lex_run LStart (CHR ''['' # a @ sep_concat (CHR '','' # a) (map f vs) @ b @ '']'') = Some (toks (GList vs), LStart)"
proof -
  have "list_all2 emits (map f vs) (map toks vs)"
    using assms(1) by (auto simp: list_all2_map1 list_all2_map2 intro!: list.rel_refl_strong)
  from run_composite [OF brackets(1) assms(2) emits_commas [OF this assms(2)] assms(3) delim_punct(2)]
  show ?thesis by simp
qed

lemma run_map:
  assumes "\<And>k v. (k, v) \<in> set kvs \<Longrightarrow> utf8_ok k \<and> emits (f v) (toks v)"
    and "list_all is_space a" "list_all is_space b" "list_all is_space sp"
  shows "lex_run LStart (CHR ''{'' # a @ sep_concat (CHR '','' # a) (map (\<lambda>(k, v). json_quote k @ CHR '':'' # sp @ f v) kvs) @ b @ ''}'') =
    Some (toks (GMap kvs), LStart)"
proof -
  have "emits (json_quote k @ CHR '':'' # sp @ f v) (TStr k # TColon # toks v)" if "(k, v) \<in> set kvs" for k v
    using assms(1) [OF that] by (intro emits_entry assms(4)) simp_all
  then have "list_all2 emits (map (\<lambda>(k, v). json_quote k @ CHR '':'' # sp @ f v) kvs)
      (map (\<lambda>(k, v). TStr k # TColon # toks v) kvs)"
    by (auto simp: list_all2_map1 list_all2_map2 intro!: list.rel_refl_strong)
  from run_composite [OF brackets(3) assms(2) emits_commas [OF this assms(2)] assms(3) delim_punct(3)]
  show ?thesis by simp
qed

lemmas emits_leaf = emits_number emits_word emits_run lex_json_quote

lemma emits_print: "json_ok v \<Longrightarrow> emits (json_print v) (toks v)"
proof (induction v)
  case (GList vs)
  then show ?case
    using run_list [of vs json_print "[]" "[]"] by (auto simp: list_all_iff intro: emits_run)
next
  case (GMap kvs)
  have "lex_run LStart (json_print (GMap kvs)) = Some (toks (GMap kvs), LStart)"
    using run_map [of kvs json_print "[]" "[]" "[]"] GMap by (fastforce simp: list_all_iff)
  then show ?case by (rule emits_run)
qed (simp_all add: emits_leaf)

lemma newline_indent_space: "list_all is_space (newline_indent d)" "list_all is_space '' ''"
  by (auto simp: newline_indent_def is_space_def list_all_iff)

lemma run_indent_map:
  assumes "\<And>k v. (k, v) \<in> set kvs \<Longrightarrow> utf8_ok k \<and> emits (json_indent (Suc d) v) (toks v)"
  shows "lex_run LStart (json_indent d (GMap kvs)) = Some (toks (GMap kvs), LStart)"
proof (cases "kvs = []")
  case True
  then show ?thesis using run_map [of "[]" undefined "[]" "[]" "[]"] by simp
next
  case False
  then show ?thesis
    using run_map [where kvs = kvs and f = "json_indent (Suc d)" and a = "newline_indent (Suc d)" and b = "newline_indent d",
        OF assms newline_indent_space(1,1,2)] by (simp del: lex_run.simps)
qed

lemma emits_indent: "json_ok v \<Longrightarrow> emits (json_indent d v) (toks v)"
proof (induction v arbitrary: d)
  case (GList vs)
  show ?case
  proof (rule emits_run, cases "vs = []")
    case True
    then show "lex_run LStart (json_indent d (GList vs)) = Some (toks (GList vs), LStart)"
      using run_list [of "[]" undefined "[]" "[]"] by simp
  next
    case False
    have "emits (json_indent (Suc d) v) (toks v)" if "v \<in> set vs" for v using GList that by (auto simp: list_all_iff)
    from run_list [of vs, OF this newline_indent_space(1,1), of "Suc d" d] False
    show "lex_run LStart (json_indent d (GList vs)) = Some (toks (GList vs), LStart)" by (simp del: lex_run.simps)
  qed
next
  case (GMap kvs)
  then show ?case by (intro emits_run run_indent_map) (fastforce simp: list_all_iff)
qed (simp_all add: emits_leaf)

section \<open>Tokens are parsed to the value\<close>

fun parse_run :: "parse_state \<Rightarrow> frame list \<Rightarrow> token list \<Rightarrow> (parse_state \<times> frame list) option" where
  "parse_run p fs [] = Some (p, fs)"
| "parse_run p fs (t # ts) =
     (case parse_step p t fs of None \<Rightarrow> None | Some (p', fs') \<Rightarrow> parse_run p' fs' ts)"

lemma parse_via_run: "parse p fs ts = (case parse_run p fs ts of Some (PDone v, _) \<Rightarrow> Some v | _ \<Rightarrow> None)"
  by (induction ts arbitrary: p fs) (auto split: option.splits parse_state.splits)

lemma parse_run_append:
  "parse_run p fs (ts @ us) = (case parse_run p fs ts of None \<Rightarrow> None | Some (p', fs') \<Rightarrow> parse_run p' fs' us)"
  by (induction ts arbitrary: p fs) (auto split: option.splits)

fun depth :: "gval \<Rightarrow> nat" where
  "depth (GList vs) = Suc (foldr max (map depth vs) 0)"
| "depth (GMap kvs) = Suc (foldr max (map (\<lambda>(k, v). depth v) kvs) 0)"
| "depth v = 0"

lemma le_foldr_max: "x \<in> set xs \<Longrightarrow> x \<le> foldr max xs (0 :: nat)"
  by (induction xs) auto

lemma depth_elem:
  "v \<in> set vs \<Longrightarrow> depth v < depth (GList vs)"
  "(k, v) \<in> set kvs \<Longrightarrow> depth v < depth (GMap kvs)"
  using le_foldr_max [of "depth v" "map depth vs"] le_foldr_max [of "depth v" "map (\<lambda>(k, v). depth v) kvs"]
  by (force simp: less_Suc_eq_le)+

text \<open>What is to be shown of a value: its tokens deliver it to the enclosing frame.\<close>

definition parses :: "gval \<Rightarrow> bool" where
  "parses v \<longleftrightarrow> (\<forall>fs ts. length fs + depth v \<le> max_nesting_depth \<longrightarrow>
     parse_run PVal fs (toks v @ ts) = (let (p, fs') = deliver v fs in parse_run p fs' ts))"

lemma parsesD:
  "parses v \<Longrightarrow> length fs + depth v \<le> max_nesting_depth \<Longrightarrow>
   parse_run PVal fs (toks v @ ts) = (let (p, fs') = deliver v fs in parse_run p fs' ts)"
  by (simp add: parses_def)

lemma toks_first: "json_ok v \<Longrightarrow> \<exists>t ts. toks v = t # ts \<and> t \<noteq> TRBrack"
  by (cases v) auto

lemma array_run:
  assumes "list_all parses (v # vs)" "\<And>x. x \<in> set (v # vs) \<Longrightarrow> Suc (length fs) + depth x \<le> max_nesting_depth"
  shows "parse_run PVal (FArr us # fs) (commas (map toks (v # vs)) @ TRBrack # ts) =
    (let (p, fs') = deliver (GList (us @ v # vs)) fs in parse_run p fs' ts)"
  using assms
proof (induction vs arbitrary: v us)
  case Nil
  then show ?case using parsesD [of v "FArr us # fs" "TRBrack # ts"] by (simp add: Let_def case_prod_beta)
next
  case (Cons w vs)
  have "parse_run PVal (FArr us # fs) (toks v @ TComma # commas (map toks (w # vs)) @ TRBrack # ts) =
      parse_run PVal (FArr (us @ [v]) # fs) (commas (map toks (w # vs)) @ TRBrack # ts)"
    using Cons.prems parsesD [of v "FArr us # fs" "TComma # commas (map toks (w # vs)) @ TRBrack # ts"] by simp
  with Cons.IH [of w "us @ [v]"] Cons.prems show ?case by simp
qed

abbreviation entry_toks :: "string \<times> gval \<Rightarrow> token list" where
  "entry_toks \<equiv> \<lambda>(k, v). TStr k # TColon # toks v"

lemma object_run:
  assumes "list_all (\<lambda>(k, v). parses v) (e # es)"
    "\<And>k v. (k, v) \<in> set (e # es) \<Longrightarrow> Suc (length fs) + depth v \<le> max_nesting_depth" "p = PKey \<or> p = PObjFirst"
  shows "parse_run p (FObj us k0 # fs) (commas (map entry_toks (e # es)) @ TRBrace # ts) =
    (let (p, fs') = deliver (GMap (us @ e # es)) fs in parse_run p fs' ts)"
  using assms
proof (induction es arbitrary: e us k0 p)
  case Nil
  obtain k v where e: "e = (k, v)" by force
  have "parses v" "length (FObj us k # fs) + depth v \<le> max_nesting_depth"
    using Nil.prems(1) Nil.prems(2) [of k v] e by simp_all
  from parsesD [OF this, of "TRBrace # ts"] Nil.prems(3) e show ?case
    by (auto simp: Let_def case_prod_beta)
next
  case (Cons f es)
  obtain k v where e: "e = (k, v)" by force
  have "parse_run p (FObj us k0 # fs) (entry_toks e @ TComma # commas (map entry_toks (f # es)) @ TRBrace # ts) =
      parse_run PKey (FObj (us @ [e]) k # fs) (commas (map entry_toks (f # es)) @ TRBrace # ts)"
  proof -
    have "parses v" "length (FObj us k # fs) + depth v \<le> max_nesting_depth"
      using Cons.prems(1) Cons.prems(2) [of k v] e by simp_all
    from parsesD [OF this, of "TComma # commas (map entry_toks (f # es)) @ TRBrace # ts"] Cons.prems(3)
    show ?thesis by (auto simp: e simp del: commas.simps list.map)
  qed
  moreover have "parse_run PKey (FObj (us @ [e]) k # fs) (commas (map entry_toks (f # es)) @ TRBrace # ts) =
      (let (p, fs') = deliver (GMap ((us @ [e]) @ f # es)) fs in parse_run p fs' ts)"
    using Cons.prems(1,2) by (intro Cons.IH) auto
  ultimately show ?case by simp
qed

lemma parses_list:
  assumes "list_all parses vs" "list_all json_ok vs"
  shows "parses (GList vs)"
  unfolding parses_def
proof (intro allI impI)
  fix fs :: "frame list" and ts assume d: "length fs + depth (GList vs) \<le> max_nesting_depth"
  then have open_ok: "length fs < max_nesting_depth" by simp
  show "parse_run PVal fs (toks (GList vs) @ ts) = (let (p, fs') = deliver (GList vs) fs in parse_run p fs' ts)"
  proof (cases vs)
    case Nil
    with open_ok show ?thesis by (simp add: open_frame_def Let_def case_prod_beta)
  next
    case (Cons w ws)
    have dx: "Suc (length fs) + depth x \<le> max_nesting_depth" if "x \<in> set (w # ws)" for x
      using d depth_elem(1) [of x vs] that Cons by simp
    have first: "\<exists>t r. commas (map toks (w # ws)) @ TRBrack # ts = t # r \<and> t \<noteq> TRBrack"
      using toks_first [of w] assms(2) Cons by (cases ws) auto
    then have "parse_run PArrFirst (FArr [] # fs) (commas (map toks (w # ws)) @ TRBrack # ts) =
        parse_run PVal (FArr [] # fs) (commas (map toks (w # ws)) @ TRBrack # ts)" by auto
    with array_run [of w ws fs "[]" ts] dx assms(1) open_ok Cons show ?thesis by (simp add: open_frame_def)
  qed
qed

lemma parses_map:
  assumes "list_all (\<lambda>(k, v). parses v) kvs"
  shows "parses (GMap kvs)"
  unfolding parses_def
proof (intro allI impI)
  fix fs :: "frame list" and ts assume d: "length fs + depth (GMap kvs) \<le> max_nesting_depth"
  then have open_ok: "length fs < max_nesting_depth" by simp
  show "parse_run PVal fs (toks (GMap kvs) @ ts) = (let (p, fs') = deliver (GMap kvs) fs in parse_run p fs' ts)"
  proof (cases kvs)
    case Nil
    with open_ok show ?thesis by (simp add: open_frame_def Let_def case_prod_beta)
  next
    case (Cons e es)
    have "Suc (length fs) + depth v \<le> max_nesting_depth" if "(k, v) \<in> set (e # es)" for k v
      using d depth_elem(2) [of k v kvs] that Cons by simp
    with object_run [of e es fs PObjFirst "[]" "[]" ts] assms open_ok Cons show ?thesis by (simp add: open_frame_def)
  qed
qed

lemma parses_value: "json_ok v \<Longrightarrow> parses v"
proof (induction v)
  case (GList vs)
  then show ?case by (intro parses_list) (auto simp: list_all_iff)
next
  case (GMap kvs)
  then show ?case by (intro parses_map) (fastforce simp: list_all_iff)
qed (auto simp: parses_def Let_def case_prod_beta)

section \<open>Round trips\<close>

lemma lex_via_run:
  "lex st w = (case lex_run st w of None \<Rightarrow> None | Some (ts, st') \<Rightarrow> map_option (\<lambda>us. ts @ us) (lex_end st'))"
proof (induction w arbitrary: st)
  case Nil
  show ?case by (cases "lex_end st") auto
qed (auto simp: map_option_case split: option.splits)

lemma lex_spaces: "list_all is_space x \<Longrightarrow> lex_run LStart x = Some ([], LStart)"
proof (induction x)
  case (Cons c x)
  then have "lex_step LStart c = Some ([], LStart)" by (simp add: lex_step_def lex_start_def)
  with Cons show ?case by simp
qed simp

lemma parse_run_value:
  "json_ok v \<Longrightarrow> depth v \<le> max_nesting_depth \<Longrightarrow> parse_run PVal [] (toks v) = Some (PDone v, [])"
  using parsesD [OF parses_value, of v "[]" "[]"] by simp

lemma json_parse_run:
  assumes "lex_run LStart s = Some (toks v, LStart)" "json_ok v" "depth v \<le> max_nesting_depth"
  shows "json_parse s = Some v"
  using assms(1) parse_run_value [OF assms(2,3)]
  by (simp add: json_parse_def lex_via_run lex_end_def parse_via_run)

lemma json_parse_print:
  assumes "json_ok v" "depth v \<le> max_nesting_depth" "is_space c" "list_all is_space x"
  shows "json_parse (json_print v @ c # x) = Some v" "json_parse (json_indent d v @ c # x) = Some v"
proof -
  have run: "lex_run LStart (s @ c # x) = Some (toks v, LStart)" if "emits s (toks v)" for s
    using emits_trailing [OF that, of "c # x"] that assms(3,4) delim_space [OF assms(3)]
      lex_run_append [OF _ lex_spaces [OF assms(4)], of LStart "s @ [c]" "toks v"]
    by (simp add: emits_def)
  show "json_parse (json_print v @ c # x) = Some v" "json_parse (json_indent d v @ c # x) = Some v"
    by (intro json_parse_run run emits_print emits_indent assms)+
qed

text \<open>The stream decoder: as long as the value is not complete, it follows the scanner and the parser.\<close>

lemma not_done_step: "parse_run p fs (t # ts) = Some r \<Longrightarrow> \<exists>p' fs'. parse_step p t fs = Some (p', fs') \<and> parse_run p' fs' ts = Some r"
  by (auto split: option.splits)

lemma parse_run_done: "parse_run (PDone v) fs ts = Some r \<Longrightarrow> ts = [] \<and> r = (PDone v, fs)"
  by (cases ts) auto

lemma lex_start_tokens: "lex_start c = Some (ts, st') \<Longrightarrow> length ts \<le> 1"
  by (auto simp: lex_start_def split: if_splits)

lemma lex_step_tokens:
  assumes "lex_step st c = Some (ts, st')"
  shows "length ts \<le> 2"
proof (cases st)
  case LStart
  with assms lex_start_tokens [of c ts st'] show ?thesis by (simp add: lex_step_def)
qed (use assms lex_start_tokens [of c] in \<open>force simp: lex_step_def split: if_splits option.splits\<close>)+

lemma decode_run:
  assumes "lex_run st w = Some (ts, st')" "parse_run p fs ts = Some (p', fs')" "\<And>v. p' \<noteq> PDone v"
  shows "decode_stream st p fs (w @ rest) = decode_stream st' p' fs' rest"
  using assms(1,2)
proof (induction w arbitrary: st p fs ts)
  case (Cons c w)
  then obtain ts1 st1 ts2 where s: "lex_step st c = Some (ts1, st1)" "lex_run st1 w = Some (ts2, st')" "ts = ts1 @ ts2"
    by (auto split: option.splits)
  from Cons.prems(2) s(3) obtain p1 fs1 where r: "parse_run p fs ts1 = Some (p1, fs1)" "parse_run p1 fs1 ts2 = Some (p', fs')"
    by (auto simp: parse_run_append split: option.splits)
  have nd: "done_value p1 = None"
    using r(2) assms(3) by (cases p1) (auto dest!: parse_run_done)
  have "decode_stream st p fs (c # w @ rest) = decode_stream st1 p1 fs1 (w @ rest)"
  proof (cases ts1)
    case Nil
    with s(1) r(1) show ?thesis by simp
  next
    case (Cons t us)
    with r(1) obtain p2 fs2 where t: "parse_step p t fs = Some (p2, fs2)" "parse_run p2 fs2 us = Some (p1, fs1)"
      by (auto split: option.splits)
    have nd2: "done_value p2 = None" using t(2) nd by (cases p2) (auto dest!: parse_run_done)
    show ?thesis
    proof (cases us)
      case Nil
      with s(1) t Cons nd2 show ?thesis by simp
    next
      case us: (Cons t' us')
      with lex_step_tokens [OF s(1)] Cons have "us' = []" by simp
      with t(2) us have "parse_step p2 t' fs2 = Some (p1, fs1)" by (auto split: option.splits)
      with s(1) t(1) Cons us nd nd2 show ?thesis by simp
    qed
  qed
  with Cons.IH [OF s(2) r(2)] show ?case by simp
qed simp

lemma lex_run_last:
  assumes "lex_run st (w @ [c]) = Some (ts, st')"
  obtains us st1 vs where "lex_run st w = Some (us, st1)" "lex_step st1 c = Some (vs, st')" "ts = us @ vs"
proof -
  have "\<exists>us st1 vs. lex_run st w = Some (us, st1) \<and> lex_step st1 c = Some (vs, st') \<and> ts = us @ vs"
    using assms
  proof (induction w arbitrary: st ts)
    case (Cons x w)
    then obtain ts1 st1 ts2 where s: "lex_step st x = Some (ts1, st1)" "lex_run st1 (w @ [c]) = Some (ts2, st')" "ts = ts1 @ ts2"
      by (auto split: option.splits)
    from Cons.IH [OF s(2)] s(1,3) show ?case by (auto split: option.splits)
  qed (auto split: option.splits)
  with that show ?thesis by blast
qed

lemma brace_emits: "lex_step st (CHR ''}'') = Some (ts, LStart) \<Longrightarrow> ts \<noteq> []"
proof -
  assume "lex_step st (CHR ''}'') = Some (ts, LStart)"
  moreover have "lex_start (CHR ''}'') = Some ([TRBrace], LStart)" by code_simp
  ultimately show ?thesis by (auto simp: lex_step_def split: lex_state.splits if_splits option.splits)
qed

text \<open>A value that ends with its last byte is read, and what follows is left.\<close>

lemma decode_complete:
  assumes "lex_run LStart (w @ ''}'') = Some (ts, LStart)" "parse_run PVal [] ts = Some (PDone v, [])"
  shows "decoder_decode (w @ ''}'' @ rest) = Some (v, rest)"
proof -
  obtain us st1 vs where s: "lex_run LStart w = Some (us, st1)" "lex_step st1 (CHR ''}'') = Some (vs, LStart)" "ts = us @ vs"
    by (rule lex_run_last [OF assms(1)])
  from assms(2) s(3) obtain p1 fs1 where r: "parse_run PVal [] us = Some (p1, fs1)" "parse_run p1 fs1 vs = Some (PDone v, [])"
    by (auto simp: parse_run_append split: option.splits)
  from brace_emits [OF s(2)] lex_step_tokens [OF s(2)] obtain t us' where vs: "vs = t # us'" "us' = [] \<or> (\<exists>t'. us' = [t'])"
    by (cases vs; cases "tl vs") auto
  from r(2) vs(1) obtain p2 fs2 where t: "parse_step p1 t fs1 = Some (p2, fs2)" "parse_run p2 fs2 us' = Some (PDone v, [])"
    by (auto split: option.splits)
  have nd: "p1 \<noteq> PDone x" for x using r(2) vs(1) by auto
  have "decode_stream st1 p1 fs1 (CHR ''}'' # rest) = Some (v, rest)"
    using vs(2)
  proof
    assume "us' = []"
    with t s(2) vs(1) show ?thesis by simp
  next
    assume "\<exists>t'. us' = [t']"
    then obtain t' where us': "us' = [t']" by blast
    with t(2) have t': "parse_step p2 t' fs2 = Some (PDone v, [])" by (auto split: option.splits)
    then have "done_value p2 = None" by (cases p2) auto
    with t(1) t' us' s(2) vs(1) show ?thesis by simp
  qed
  with decode_run [OF s(1) r(1) nd, of "''}'' @ rest"] show ?thesis by (simp add: decoder_decode_def)
qed

lemma decoder_reads_object:
  assumes "json_ok (GMap kvs)" "depth (GMap kvs) \<le> max_nesting_depth"
  shows "decoder_decode (json_indent d (GMap kvs) @ rest) = Some (GMap kvs, rest)"
proof -
  have run: "lex_run LStart (json_indent d (GMap kvs)) = Some (toks (GMap kvs), LStart)"
    using assms(1) by (intro run_indent_map) (auto simp: list_all_iff emits_indent)
  have "last (json_indent d (GMap kvs)) = CHR ''}''" "json_indent d (GMap kvs) \<noteq> []" by simp_all
  then obtain w where w: "json_indent d (GMap kvs) = w @ ''}''" by (metis append_butlast_last_id)
  from decode_complete [OF run [unfolded w] parse_run_value [OF assms]] show ?thesis unfolding w by simp
qed

section \<open>One line\<close>

lemma escape_ascii_line: "ord8 c < 128 \<Longrightarrow> CHR 0x0A \<notin> set (escape_ascii c)"
proof -
  assume c: "ord8 c < 128"
  have hex: "hex_digit n \<noteq> CHR 0x0A" if "n < 16" for n
  proof -
    have "ord8 (hex_digit n) \<noteq> ord8 (CHR 0x0A)" using that by (auto simp: hex_digit_def)
    then show ?thesis by metis
  qed
  have "ord8 c div 16 < 16" using c by simp
  then have "CHR 0x0A \<notin> set (hex2 (ord8 c))" using hex [of "ord8 c div 16"] hex [of "ord8 c mod 16"] by (simp add: hex2_def eq_commute)
  then show ?thesis by (auto simp: escape_ascii_def Let_def control_chars)
qed

lemma json_escape_line: "CHR 0x0A \<notin> set (json_escape s)"
proof (induction s rule: json_escape.induct)
  case (2 c cs)
  define n where "n = rune_len (c # cs)"
  show ?case
  proof (cases "ord8 c < 128")
    case True
    with 2(1) escape_ascii_line show ?thesis by simp
  next
    case False
    have cont: "CHR 0x0A \<notin> set (take (n - 1) cs)" if "n \<noteq> 0"
    proof -
      have "128 \<le> ord8 c" using False by simp
      from rune_len_local(2) [OF this n_def [symmetric] that] show ?thesis by (auto simp: list_all_iff is_cont_def)
    qed
    have c: "c \<noteq> CHR 0x0A" using False by auto
    show ?thesis
      using 2(2-5) False cont c unfolding n_def by (simp add: Let_def)
  qed
qed simp

lemma json_quote_line: "CHR 0x0A \<notin> set (json_quote s)"
  using json_escape_line [of s] by (simp add: json_quote_def)

end
