(* ===== verification/Go_Regexp.thy ===== *)
theory Go_Regexp
  imports Go_Prelude
begin

text \<open>
  The part of the package \<open>regexp\<close> the repository uses: anchored patterns over character classes.
  \<open>MatchString\<close> is a matcher by derivatives, proved against the language of the pattern, and the patterns of
  \<open>src/adapterhost/spec.go\<close> and \<open>src/internal/strictmanifest/strictmanifest.go\<close> are values of
  the syntax below. All their classes are ASCII, so matching bytes and matching runes agree.
\<close>

section \<open>Patterns and their languages\<close>

text \<open>A class is a list of ranges of character codes; \<open>Upto n r\<close> is \<open>r{0,n}\<close>.\<close>

datatype re = Eps | Cls "(nat \<times> nat) list" | Seq re re | Alt re re | Star re | Upto nat re

definition in_class :: "(nat \<times> nat) list \<Rightarrow> char \<Rightarrow> bool" where
  "in_class cs c \<longleftrightarrow> list_ex (\<lambda>(lo, hi). lo \<le> of_char c \<and> of_char c \<le> hi) cs"

definition conc :: "string set \<Rightarrow> string set \<Rightarrow> string set" where
  "conc A B = {u @ v | u v. u \<in> A \<and> v \<in> B}"

inductive_set star :: "string set \<Rightarrow> string set" for A where
  star_Nil: "[] \<in> star A"
| star_append: "u \<in> A \<Longrightarrow> v \<in> star A \<Longrightarrow> u @ v \<in> star A"

primrec upto_lang :: "nat \<Rightarrow> string set \<Rightarrow> string set" where
  "upto_lang 0 A = {[]}"
| "upto_lang (Suc n) A = insert [] (conc A (upto_lang n A))"

primrec lang :: "re \<Rightarrow> string set" where
  "lang Eps = {[]}"
| "lang (Cls cs) = {[c] | c. in_class cs c}"
| "lang (Seq r s) = conc (lang r) (lang s)"
| "lang (Alt r s) = lang r \<union> lang s"
| "lang (Star r) = star (lang r)"
| "lang (Upto n r) = upto_lang n (lang r)"

section \<open>The matcher\<close>

primrec nullable :: "re \<Rightarrow> bool" where
  "nullable Eps = True"
| "nullable (Cls cs) = False"
| "nullable (Seq r s) = (nullable r \<and> nullable s)"
| "nullable (Alt r s) = (nullable r \<or> nullable s)"
| "nullable (Star r) = True"
| "nullable (Upto n r) = True"

text \<open>\<open>Cls []\<close> matches nothing.\<close>

primrec deriv :: "char \<Rightarrow> re \<Rightarrow> re" where
  "deriv c Eps = Cls []"
| "deriv c (Cls cs) = (if in_class cs c then Eps else Cls [])"
| "deriv c (Seq r s) =
     (if nullable r then Alt (Seq (deriv c r) s) (deriv c s) else Seq (deriv c r) s)"
| "deriv c (Alt r s) = Alt (deriv c r) (deriv c s)"
| "deriv c (Star r) = Seq (deriv c r) (Star r)"
| "deriv c (Upto n r) = (case n of 0 \<Rightarrow> Cls [] | Suc m \<Rightarrow> Seq (deriv c r) (Upto m r))"

primrec MatchString :: "re \<Rightarrow> string \<Rightarrow> bool" where
  "MatchString r [] = nullable r"
| "MatchString r (c # s) = MatchString (deriv c r) s"

section \<open>Correctness of the matcher\<close>

lemma concI: "u \<in> A \<Longrightarrow> v \<in> B \<Longrightarrow> u @ v \<in> conc A B"
  by (auto simp: conc_def)

lemma conc_Nil: "[] \<in> conc A B \<longleftrightarrow> [] \<in> A \<and> [] \<in> B"
  by (auto simp: conc_def)

lemma conc_Cons:
  "c # w \<in> conc A B \<longleftrightarrow> (\<exists>u v. w = u @ v \<and> c # u \<in> A \<and> v \<in> B) \<or> [] \<in> A \<and> c # w \<in> B"
  by (auto simp: conc_def Cons_eq_append_conv)

lemma star_Cons: "c # w \<in> star A \<longleftrightarrow> (\<exists>u v. w = u @ v \<and> c # u \<in> A \<and> v \<in> star A)"
proof
  assume "c # w \<in> star A"
  then show "\<exists>u v. w = u @ v \<and> c # u \<in> A \<and> v \<in> star A"
  proof (induction "c # w" rule: star.induct)
    case (star_append u v)
    then show ?case by (cases u) auto
  qed
next
  assume "\<exists>u v. w = u @ v \<and> c # u \<in> A \<and> v \<in> star A"
  then obtain u v where "w = u @ v" "c # u \<in> A" "v \<in> star A" by blast
  then show "c # w \<in> star A" using star.star_append [of "c # u" A v] by simp
qed

lemma upto_mono: "w \<in> upto_lang n A \<Longrightarrow> w \<in> upto_lang (Suc n) A"
proof (induction n arbitrary: w)
  case (Suc n)
  show ?case
  proof (cases "w = []")
    case False
    with Suc.prems obtain u v where "w = u @ v" "u \<in> A" "v \<in> upto_lang n A" by (auto simp: conc_def)
    with Suc.IH [of v] have "u @ v \<in> conc A (upto_lang (Suc n) A)" unfolding conc_def by blast
    with \<open>w = u @ v\<close> show ?thesis by (subst upto_lang.simps) simp
  qed simp
qed simp

lemma upto_Cons:
  "c # w \<in> upto_lang (Suc n) A \<longleftrightarrow> (\<exists>u v. w = u @ v \<and> c # u \<in> A \<and> v \<in> upto_lang n A)"
proof (induction n)
  case 0
  then show ?case by (auto simp: conc_def)
next
  case (Suc n)
  have "c # w \<in> upto_lang (Suc (Suc n)) A \<longleftrightarrow>
      (\<exists>u v. w = u @ v \<and> c # u \<in> A \<and> v \<in> upto_lang (Suc n) A) \<or> [] \<in> A \<and> c # w \<in> upto_lang (Suc n) A"
    by (subst upto_lang.simps) (simp add: conc_Cons del: upto_lang.simps)
  with Suc.IH upto_mono [of _ n A] show ?case by blast
qed

lemma nullable_iff: "nullable r \<longleftrightarrow> [] \<in> lang r"
proof (induction r)
  case (Upto n r)
  then show ?case by (cases n) auto
qed (auto simp: conc_Nil star_Nil)

lemma deriv_lang: "w \<in> lang (deriv c r) \<longleftrightarrow> c # w \<in> lang r"
proof (induction r arbitrary: w)
  case (Cls cs)
  then show ?case by (auto simp: in_class_def)
next
  case (Seq r s)
  then show ?case by (auto simp: conc_Cons nullable_iff) (auto simp: conc_def)
next
  case (Star r)
  then show ?case by (auto simp: star_Cons) (auto simp: conc_def)
next
  case (Upto n r)
  then show ?case
    by (cases n) (auto simp: upto_Cons in_class_def conc_def simp del: upto_lang.simps(2))
qed (auto simp: in_class_def)

theorem MatchString_iff: "MatchString r s \<longleftrightarrow> s \<in> lang r"
  by (induction s arbitrary: r) (simp_all add: nullable_iff deriv_lang)

section \<open>Languages of the shapes that occur\<close>

definition chars :: "(nat \<times> nat) list \<Rightarrow> string \<Rightarrow> bool" where
  "chars cs s \<longleftrightarrow> list_all (in_class cs) s"

lemma chars_simps [simp]: "chars cs []" "chars cs (c # s) \<longleftrightarrow> in_class cs c \<and> chars cs s"
  by (simp_all add: chars_def)

lemma star_class: "s \<in> lang (Star (Cls cs)) \<longleftrightarrow> chars cs s"
proof (induction s)
  case (Cons c s)
  then show ?case by (auto simp: star_Cons)
qed (simp add: star_Nil)

lemma upto_class: "s \<in> lang (Upto n (Cls cs)) \<longleftrightarrow> length s \<le> n \<and> chars cs s"
proof (induction n arbitrary: s)
  case (Suc n)
  show ?case
  proof (cases s)
    case (Cons c w)
    with Suc.IH show ?thesis by (auto simp: upto_Cons simp del: upto_lang.simps(2))
  qed simp
qed auto

lemma seq_class:
  "s \<in> lang (Seq (Cls cs) r) \<longleftrightarrow> (\<exists>c w. s = c # w \<and> in_class cs c \<and> w \<in> lang r)"
proof
  assume "s \<in> lang (Seq (Cls cs) r)"
  then show "\<exists>c w. s = c # w \<and> in_class cs c \<and> w \<in> lang r" by (auto simp: conc_def)
next
  assume "\<exists>c w. s = c # w \<and> in_class cs c \<and> w \<in> lang r"
  then obtain c w where s: "s = [c] @ w" "[c] \<in> lang (Cls cs)" "w \<in> lang r" by auto
  from s(2,3) show "s \<in> lang (Seq (Cls cs) r)" unfolding s(1) lang.simps(3) by (rule concI)
qed

text \<open>A pattern without a final anchor: a prefix matches.\<close>

definition any_char :: re where
  "any_char = Cls [(0, 255)]"

definition prefix_re :: "re \<Rightarrow> re" where
  "prefix_re r = Seq r (Star any_char)"

lemma prefix_re_lang: "s \<in> lang (prefix_re r) \<longleftrightarrow> (\<exists>u v. s = u @ v \<and> u \<in> lang r)"
proof -
  have "chars [(0, 255)] v" for v :: string
  proof -
    have "(of_char c :: nat) \<le> 255" for c using nat_of_char_less_256 [of c] by linarith
    then show ?thesis by (simp add: chars_def in_class_def list_all_iff)
  qed
  then have "v \<in> star (lang any_char)" for v using star_class [of v "[(0, 255)]"] by (simp add: any_char_def)
  then show ?thesis by (auto simp: prefix_re_def conc_def)
qed

text \<open>A literal.\<close>

fun lit :: "string \<Rightarrow> re" where
  "lit [] = Eps"
| "lit (c # s) = Seq (Cls [(of_char c, of_char c)]) (lit s)"

lemma lit_lang: "lang (lit s) = {s}"
proof (induction s)
  case (Cons c s)
  have "in_class [(of_char c, of_char c)] d \<longleftrightarrow> d = c" for d
    by (auto simp: in_class_def intro: injD [OF inj_of_char [where 'a = nat]])
  with Cons show ?case by (auto simp: conc_def)
qed simp

section \<open>The patterns\<close>

abbreviation lower :: "nat \<times> nat" where "lower \<equiv> (97, 122)"
abbreviation digits :: "nat \<times> nat" where "digits \<equiv> (48, 57)"

definition logStreamNamePattern :: re where
  "logStreamNamePattern = Seq (Cls [lower]) (Upto 31 (Cls [lower, digits, (95, 95), (45, 45)]))"

definition nameRe :: re where
  "nameRe = Seq (Cls [lower]) (Star (Cls [lower, digits, (45, 45)]))"

definition osRe :: re where
  "osRe = Seq (Cls [lower]) (Star (Cls [lower, digits]))"

definition archRe :: re where
  "archRe = Seq (Cls [lower, digits, (95, 95)]) (Star (Cls [lower, digits, (95, 95)]))"

definition envRe :: re where
  "envRe = Seq (Cls [lower]) (Star (Cls [lower, (95, 95)]))"

definition urlSchemeRe :: re where
  "urlSchemeRe = prefix_re
     (Seq (Cls [lower])
       (Seq (Seq (Cls [lower, digits, (43, 43), (46, 46), (45, 45)])
                 (Star (Cls [lower, digits, (43, 43), (46, 46), (45, 45)])))
            (lit ''://'')))"

definition version_part :: re where
  "version_part = Alt (lit ''0'') (Seq (Cls [(49, 57)]) (Star (Cls [digits])))"

definition versionRe :: re where
  "versionRe = Seq version_part (Seq (lit ''.'') (Seq version_part (Seq (lit ''.'') version_part)))"

definition fieldTypeRe :: re where
  "fieldTypeRe = Alt (lit ''string'') (Alt (lit ''number'') (Alt (lit ''boolean'')
     (Alt (lit ''object'') (lit ''array''))))"

lemma logStreamName_iff:
  "MatchString logStreamNamePattern s \<longleftrightarrow>
     (\<exists>c w. s = c # w \<and> in_class [lower] c \<and> length w \<le> 31 \<and>
        chars [lower, digits, (95, 95), (45, 45)] w)"
  unfolding MatchString_iff logStreamNamePattern_def seq_class upto_class by blast

lemma fieldType_iff:
  "MatchString fieldTypeRe s \<longleftrightarrow> s \<in> {''string'', ''number'', ''boolean'', ''object'', ''array''}"
  unfolding MatchString_iff fieldTypeRe_def by (auto simp: lit_lang simp del: lit.simps)

lemma nameRe_iff:
  "MatchString nameRe s \<longleftrightarrow>
     (\<exists>c w. s = c # w \<and> in_class [lower] c \<and> chars [lower, digits, (45, 45)] w)"
  unfolding MatchString_iff nameRe_def seq_class star_class by blast

lemma archRe_iff:
  "MatchString archRe s \<longleftrightarrow> s \<noteq> [] \<and> chars [lower, digits, (95, 95)] s"
  unfolding MatchString_iff archRe_def seq_class star_class by (cases s) auto

text \<open>A dotted number without leading zeros.\<close>

lemma version_part_dec: "dec_nat n \<in> lang version_part"
proof (induction n rule: dec_nat.induct)
  case (1 n)
  have digit: "in_class [(lo, 57)] (digit_char k) \<longleftrightarrow> lo \<le> 48 + k" if "k < 10" for k lo
    using that by (simp add: in_class_def)
  have ends: "x @ [d] \<in> lang version_part"
    if "x \<in> lang version_part" "x \<noteq> ''0''" "in_class [digits] d" for x d
  proof -
    from that(1,2) have "x \<in> lang (Seq (Cls [(49, 57)]) (Star (Cls [digits])))"
      unfolding version_part_def lang.simps(4) lit_lang by simp
    then obtain c w where x: "x = c # w" "in_class [(49, 57)] c" "chars [digits] w"
      unfolding seq_class star_class by blast
    then have "chars [digits] (w @ [d])" using that(3) by (simp add: chars_def)
    with x(1,2) have "x @ [d] \<in> lang (Seq (Cls [(49, 57)]) (Star (Cls [digits])))"
      unfolding seq_class star_class by simp
    then show ?thesis unfolding version_part_def lang.simps(4) by blast
  qed
  show ?case
  proof (cases "n < 10")
    case True
    show ?thesis
    proof (cases "n = 0")
      case True
      then have "dec_nat n = ''0''" by (subst dec_nat.simps) (simp, code_simp)
      then show ?thesis by (simp add: version_part_def lit_lang del: lit.simps)
    next
      case False
      with \<open>n < 10\<close> have "in_class [(49, 57)] (digit_char n)" by (simp add: digit)
      then have "[digit_char n] \<in> lang (Seq (Cls [(49, 57)]) (Star (Cls [digits])))"
        unfolding seq_class star_class by simp
      with \<open>n < 10\<close> show ?thesis
        unfolding version_part_def lang.simps(4) by (subst dec_nat.simps) simp
    qed
  next
    case False
    have "dec_nat (n div 10) \<noteq> ''0''"
    proof
      assume "dec_nat (n div 10) = ''0''"
      then have "dec_val (dec_nat (n div 10)) = dec_val ''0''" by simp
      also have "dec_val ''0'' = 0" by code_simp
      finally have "n div 10 = 0" by simp
      with False show False by simp
    qed
    with 1 False have "dec_nat (n div 10) @ [digit_char (n mod 10)] \<in> lang version_part"
      by (intro ends) (auto simp: digit)
    with False show ?thesis by (subst dec_nat.simps) simp
  qed
qed

lemma version_matches:
  "MatchString versionRe (dec_nat a @ ''.'' @ dec_nat b @ ''.'' @ dec_nat c)"
proof -
  have "dec_nat b @ ''.'' @ dec_nat c \<in> lang (Seq version_part (Seq (lit ''.'') version_part))"
    using version_part_dec by (simp only: lang.simps conc_def lit_lang) blast
  then show ?thesis
    unfolding MatchString_iff versionRe_def
    using version_part_dec [of a] by (simp only: lang.simps conc_def lit_lang) blast
qed

end
