(* ===== verification/Secrets_View.thy ===== *)
theory Secrets_View
  imports Go_Prelude "HOL-Library.Char_ord" "HOL-Library.List_Lexorder" "HOL-Library.Multiset"
begin

text \<open>
  \<open>src/adapterhost/secrets.go\<close>: the view of the secrets of a session, its overlay with the secrets
  of a step, and the environment of a child process. A nil receiver is \<^const>\<open>None\<close>. The loops that
  copy a map take the order in which \<open>range\<close> visits it.
\<close>

section \<open>Copying maps\<close>

definition copy_into :: "string list \<Rightarrow> 'v gomap \<Rightarrow> 'v gomap \<Rightarrow> 'v gomap" where
  "copy_into ks src dst = fold (\<lambda>k m. m(k := src k)) ks dst"

lemma copy_into_apply: "copy_into ks src dst k = (if k \<in> set ks then src k else dst k)"
  by (induction ks arbitrary: dst) (auto simp: copy_into_def)

lemma copy_into_range [simp]: "range_order ks src \<Longrightarrow> copy_into ks src dst = dst ++ src"
  by (auto simp: fun_eq_iff copy_into_apply range_order_def map_add_def domIff split: option.splits)

section \<open>The view\<close>

record Secrets =
  declared :: "string set"
  secret_values :: "string gomap"

definition NewSecrets :: "string list \<Rightarrow> string list \<Rightarrow> string gomap \<Rightarrow> string gomap \<Rightarrow> Secrets" where
  "NewSecrets dks rks decl resolved =
     \<lparr>declared = fold insert dks {}, secret_values = copy_into rks resolved Map.empty\<rparr>"

definition WithStepSecrets ::
  "string list \<Rightarrow> string list \<Rightarrow> Secrets option \<Rightarrow> string gomap \<Rightarrow> Secrets" where
  "WithStepSecrets vks sks s step =
     (case s of
        None \<Rightarrow> NewSecrets [] sks Map.empty step
      | Some v \<Rightarrow>
          \<lparr>declared = declared v,
           secret_values = copy_into sks step (copy_into vks (secret_values v) Map.empty)\<rparr>)"

definition Get :: "Secrets option \<Rightarrow> string \<Rightarrow> string \<times> bool" where
  "Get s name =
     (case s of
        None \<Rightarrow> ([], False)
      | Some v \<Rightarrow> (case secret_values v name of None \<Rightarrow> ([], False) | Some x \<Rightarrow> (x, True)))"

text \<open>The verb \<open>%v\<close> on a slice of strings.\<close>

definition slice_text :: "string list \<Rightarrow> string" where
  "slice_text xs = ''['' @ join_with '' '' xs @ '']''"

text \<open>The loop of \<open>SpawnEnv\<close>: the undeclared names and the environment collected so far.\<close>

fun spawn_scan :: "Secrets \<Rightarrow> string list \<Rightarrow> string list \<times> string list \<Rightarrow> string list \<times> string list" where
  "spawn_scan s [] acc = acc"
| "spawn_scan s (name # names) (undeclared, env) =
     (if name \<notin> declared s then spawn_scan s names (undeclared @ [name], env)
      else
        (case secret_values s name of
           None \<Rightarrow> spawn_scan s names (undeclared, env)
         | Some v \<Rightarrow> spawn_scan s names (undeclared, env @ [name @ ''='' @ v])))"

definition SpawnEnv :: "Secrets option \<Rightarrow> string list \<Rightarrow> string list result" where
  "SpawnEnv so names =
     (let s = (case so of None \<Rightarrow> \<lparr>declared = {}, secret_values = Map.empty\<rparr> | Some s \<Rightarrow> s);
          (undeclared, env) = spawn_scan s names ([], [])
      in if undeclared \<noteq> []
         then Err (Errorf [Lit ''adapterhost: SpawnEnv: secrets not declared in InfoResponse.Secrets: '',
                           Verb_v (slice_text (sort undeclared))])
         else Ok env)"

section \<open>What the view promises\<close>

lemma fold_insert [simp]: "fold insert xs A = set xs \<union> A"
  by (induction xs arbitrary: A) auto

lemma NewSecrets_simps [simp]:
  "range_order dks decl \<Longrightarrow> declared (NewSecrets dks rks decl resolved) = dom decl"
  "range_order rks resolved \<Longrightarrow> secret_values (NewSecrets dks rks decl resolved) = resolved"
  by (simp_all add: NewSecrets_def) (simp add: range_order_def)

definition env_of :: "Secrets \<Rightarrow> string list \<Rightarrow> string list" where
  "env_of s names = List.map_filter (\<lambda>n. map_option (\<lambda>v. n @ ''='' @ v) (secret_values s n)) names"

lemma spawn_scan_result:
  "spawn_scan s names (us, env) =
     (us @ filter (\<lambda>n. n \<notin> declared s) names,
      env @ env_of s (filter (\<lambda>n. n \<in> declared s) names))"
  by (induction names arbitrary: us env) (auto simp: env_of_def List.map_filter_def split: option.splits)

lemma SpawnEnv_result:
  "SpawnEnv (Some s) names =
     (if set names \<subseteq> declared s then Ok (env_of s names)
      else Err (Errorf [Lit ''adapterhost: SpawnEnv: secrets not declared in InfoResponse.Secrets: '',
             Verb_v (slice_text (sort (filter (\<lambda>n. n \<notin> declared s) names)))]))"
proof -
  have "filter (\<lambda>n. n \<notin> declared s) names = [] \<longleftrightarrow> set names \<subseteq> declared s"
    by (auto simp: filter_empty_conv)
  moreover have "filter (\<lambda>n. n \<in> declared s) names = names" if "set names \<subseteq> declared s"
    using that by (auto simp: filter_id_conv)
  ultimately show ?thesis by (auto simp: SpawnEnv_def spawn_scan_result)
qed

text \<open>The environment of a child process holds exactly the delivered values of the requested
  names, in the order of the request. It is only built if every requested name is declared; otherwise nothing is returned and the error
  lists all undeclared names, each as often as it was requested, in sorted order.\<close>

theorem spawn_env_contract:
  "SpawnEnv (Some s) names =
     (if set names \<subseteq> declared s then Ok (env_of s names)
      else Err (Errorf [Lit ''adapterhost: SpawnEnv: secrets not declared in InfoResponse.Secrets: '',
             Verb_v (slice_text (sort (filter (\<lambda>n. n \<notin> declared s) names)))])) \<and>
   (\<forall>name val. name @ ''='' @ val \<in> set (env_of s names) \<and> CHR ''='' \<notin> set name \<and>
       (\<forall>n \<in> set names. CHR ''='' \<notin> set n) \<longrightarrow>
     name \<in> set names \<and> Get (Some s) name = (val, True))"
proof -
  have split: "name = n \<and> val = v"
    if "name @ ''='' @ val = n @ ''='' @ v" "CHR ''='' \<notin> set name" "CHR ''='' \<notin> set n" for name val n v
    using that
  proof (induction name arbitrary: n)
    case Nil
    then show ?case by (cases n) auto
  next
    case (Cons c name)
    then show ?case by (cases n) auto
  qed
  have "name \<in> set names \<and> secret_values s name = Some val"
    if e: "name @ ''='' @ val \<in> set (env_of s names)" and eq: "CHR ''='' \<notin> set name"
      and names: "\<forall>n \<in> set names. CHR ''='' \<notin> set n" for name val
  proof -
    from e obtain n v where "n \<in> set names" "secret_values s n = Some v" "name @ ''='' @ val = n @ ''='' @ v"
      by (auto simp: env_of_def List.map_filter_def)
    with split [of name val n v] eq names show ?thesis by auto
  qed
  then show ?thesis by (auto simp: SpawnEnv_result Get_def)
qed

theorem spawn_env_contract_witness:
  "SpawnEnv (Some \<lparr>declared = {''A'', ''B''}, secret_values = [''A'' \<mapsto> ''1'', ''C'' \<mapsto> ''3'']\<rparr>) [''B'', ''A''] =
     Ok [''A=1''] \<and>
   SpawnEnv (Some \<lparr>declared = {''A'', ''B''}, secret_values = [''A'' \<mapsto> ''1'', ''C'' \<mapsto> ''3'']\<rparr>) [''D'', ''A'', ''C''] =
     Err (Errorf [Lit ''adapterhost: SpawnEnv: secrets not declared in InfoResponse.Secrets: '', Verb_v ''[C D]''])"
  using spawn_env_contract [of "\<lparr>declared = {''A'', ''B''}, secret_values = [''A'' \<mapsto> ''1'', ''C'' \<mapsto> ''3'']\<rparr>" "[''B'', ''A'']"]
    spawn_env_contract [of "\<lparr>declared = {''A'', ''B''}, secret_values = [''A'' \<mapsto> ''1'', ''C'' \<mapsto> ''3'']\<rparr>" "[''D'', ''A'', ''C'']"]
  by (simp add: env_of_def List.map_filter_def slice_text_def)

text \<open>The secrets of a step win over those of the session and fall back to them; the overlay
  declares nothing new, so what may be handed to a child process stays what the session declared; and without a session view nothing is
  declared. The order in which the maps are copied does not matter.\<close>

theorem step_secrets_overlay:
  assumes "range_order vks (secret_values s)" "range_order sks step"
  shows "Get (Some (WithStepSecrets vks sks (Some s) step)) name =
      (case step name of Some v \<Rightarrow> (v, True) | None \<Rightarrow> Get (Some s) name) \<and>
    declared (WithStepSecrets vks sks (Some s) step) = declared s \<and>
    declared (WithStepSecrets vks sks None step) = {} \<and>
    Get (Some (WithStepSecrets vks sks None step)) name =
      (case step name of Some v \<Rightarrow> (v, True) | None \<Rightarrow> ([], False))"
  using assms
  by (auto simp: WithStepSecrets_def Get_def map_add_def NewSecrets_def split: option.splits)

theorem step_secrets_overlay_witness:
  "Get (Some (WithStepSecrets [''A'', ''B''] [''A''] (Some \<lparr>declared = {''A''}, secret_values = [''A'' \<mapsto> ''1'', ''B'' \<mapsto> ''2'']\<rparr>)
     [''A'' \<mapsto> ''9''])) ''A'' = (''9'', True)"
  using step_secrets_overlay [of "[''A'', ''B'']" "\<lparr>declared = {''A''}, secret_values = [''A'' \<mapsto> ''1'', ''B'' \<mapsto> ''2'']\<rparr>"
      "[''A'']" "[''A'' \<mapsto> ''9'']" "''A''"]
  by (simp add: range_order_def insert_commute)

end
