(* ===== verification/Adapter_Spec.thy ===== *)
theory Adapter_Spec
  imports Adapter_Service Go_Regexp Secrets_View
begin

text \<open>
  \<open>src/adapterhost/spec.go\<close>: an adapter as plain data and handler functions. The theory holds the
  data of a spec, its validation, the \<open>InfoResponse\<close> derived from it, and the service that drives the handlers.

  A handler is a function from its input to what it returns, \<^const>\<open>None\<close> if unset. A map that may be nil is an
  optional map, a slice whose nilness matters an optional list.
\<close>

section \<open>Data\<close>

type_synonym 'v nmap = "'v gomap option"

definition SchemaTypeString :: string where "SchemaTypeString = ''string''"
definition SchemaTypeNumber :: string where "SchemaTypeNumber = ''number''"
definition SchemaTypeBool :: string where "SchemaTypeBool = ''bool''"
definition SchemaTypeListString :: string where "SchemaTypeListString = ''list_string''"
definition SchemaTypeObject :: string where "SchemaTypeObject = ''object''"

definition FeaturePause :: string where "FeaturePause = ''pause''"
definition FeatureResume :: string where "FeatureResume = ''resume''"
definition FeatureSnapshot :: string where "FeatureSnapshot = ''snapshot''"
definition FeatureRestore :: string where "FeatureRestore = ''restore''"
definition FeatureInspect :: string where "FeatureInspect = ''inspect''"

record SchemaField =
  sf_Name :: string
  sf_Type :: string
  sf_Required :: bool
  sf_Description :: string
  sf_Default :: string
  sf_Sensitive :: bool

definition Field :: "string \<Rightarrow> string \<Rightarrow> bool \<Rightarrow> string \<Rightarrow> SchemaField" where
  "Field name typ required description =
     \<lparr>sf_Name = name, sf_Type = typ, sf_Required = required, sf_Description = description,
      sf_Default = [], sf_Sensitive = False\<rparr>"

type_synonym Schema = "SchemaField list"

record Secret =
  sec_Name :: string
  sec_Description :: string

record Example =
  ex_Name :: string
  ex_Description :: string
  ex_HCL :: string
  ex_File :: string

record SessionStart =
  ss_SessionID :: string
  ss_Config :: "string nmap"
  ss_Secrets :: "string nmap"
  ss_AllowedOutcomes :: "string slice"

record ExecuteInput =
  ei_SessionID :: string
  ei_StepName :: string
  ei_Input :: "string nmap"
  ei_Secrets :: "string nmap"
  ei_AllowedOutcomes :: "string slice"
  ei_Timeout :: "64 word"

record ExecuteResult =
  er_Outcome :: string
  er_Comment :: string
  er_Outputs :: "gobj option"

record LogInput =
  li_SessionID :: string
  li_StepName :: string

record SnapshotState =
  sn_State :: "8 word slice"
  sn_SchemaVersion :: "32 word"

record RestoreInput =
  ri_SessionID :: string
  ri_State :: "8 word slice"
  ri_SchemaVersion :: "32 word"

record InspectField =
  if_Key :: string
  if_Label :: string
  if_Value :: gval

text \<open>A time is the number of nanoseconds since the zero time.\<close>

record InspectInfo =
  ii_CurrentStep :: string
  ii_PendingPermissions :: "32 word"
  ii_LastActivity :: int
  ii_Fields :: "InspectField list"
  ii_Extra :: "gobj option"

text \<open>
  A log handler is a program that writes lines and sees the error of each write, waits until its context is done, looks whether it is
  done (or does something of its own), and returns. It need not return: the type is a codatatype.
\<close>

codatatype log_prog =
    LogReturn "go_error option"
  | LogLine string string "go_error option \<Rightarrow> log_prog"
  | LogAwait log_prog
  | LogPoll "bool \<Rightarrow> log_prog"

record Spec =
  sp_Name :: string
  sp_Version :: string
  sp_Description :: string
  sp_SourceURL :: string
  sp_Capabilities :: "string slice"
  sp_Platforms :: "string slice"
  sp_CompatibleEnvironments :: "string slice"
  sp_ContainerImage :: string
  sp_MaxChunkBytes :: "32 word"
  sp_SupportedFeatures :: "string slice"
  sp_ConfigSchema :: Schema
  sp_InputSchema :: Schema
  sp_OutputSchema :: Schema
  sp_Secrets :: "Secret list"
  sp_Permissions :: "string slice"
  sp_Examples :: "Example list"
  sp_OpenSession :: "(SessionStart \<Rightarrow> go_error option) option"
  sp_Execute :: "(ExecuteInput \<Rightarrow> ExecuteResult option result) option"
  sp_Log :: "(LogInput \<Rightarrow> log_prog) option"
  sp_CloseSession :: "(string \<Rightarrow> go_error option) option"
  sp_PermissionsFunc :: "(turn list \<Rightarrow> PermissionDecision list \<times> loop_status) option"
  sp_Pause :: "(string \<Rightarrow> go_error option) option"
  sp_Resume :: "(string \<Rightarrow> go_error option) option"
  sp_Snapshot :: "(string \<Rightarrow> SnapshotState result) option"
  sp_Restore :: "(RestoreInput \<Rightarrow> go_error option) option"
  sp_Inspect :: "(string \<Rightarrow> InspectInfo result) option"

section \<open>Validation\<close>

text \<open>The loop over one schema; the set holds the names seen so far.\<close>

fun schema_scan :: "string \<Rightarrow> string \<Rightarrow> string set \<Rightarrow> Schema \<Rightarrow> go_error option" where
  "schema_scan spec schema seen [] = None"
| "schema_scan spec schema seen (f # fs) =
     (if sf_Name f \<in> seen then
        Some (Errorf [Lit ''adapterhost: spec '', Verb_q spec, Lit '': '', Verb_s schema,
                      Lit '': duplicate field '', Verb_q (sf_Name f)])
      else if sf_Type f = [] then
        Some (Errorf [Lit ''adapterhost: spec '', Verb_q spec, Lit '': '', Verb_s schema,
                      Lit '': field '', Verb_q (sf_Name f), Lit '': type is required''])
      else schema_scan spec schema (insert (sf_Name f) seen) fs)"

fun secret_scan :: "string \<Rightarrow> string set \<Rightarrow> Secret list \<Rightarrow> go_error option" where
  "secret_scan spec seen [] = None"
| "secret_scan spec seen (s # ss) =
     (if sec_Name s \<in> seen then
        Some (Errorf [Lit ''adapterhost: spec '', Verb_q spec, Lit '': duplicate secret '', Verb_q (sec_Name s)])
      else secret_scan spec (insert (sec_Name s) seen) ss)"

fun example_scan :: "string \<Rightarrow> nat \<Rightarrow> Example list \<Rightarrow> go_error option" where
  "example_scan spec i [] = None"
| "example_scan spec i (ex # exs) =
     (if ex_Name ex = [] then
        Some (Errorf [Lit ''adapterhost: spec '', Verb_q spec, Lit '': example '', Verb_d (int i),
                      Lit '': name is required''])
      else if ex_HCL ex \<noteq> [] \<and> ex_File ex \<noteq> [] then
        Some (Errorf [Lit ''adapterhost: spec '', Verb_q spec, Lit '': example '', Verb_q (ex_Name ex),
                      Lit '': both inline HCL and File are set; declare exactly one''])
      else if ex_HCL ex = [] \<and> ex_File ex = [] then
        Some (Errorf [Lit ''adapterhost: spec '', Verb_q spec, Lit '': example '', Verb_q (ex_Name ex),
                      Lit '': declares neither inline HCL nor a File''])
      else example_scan spec (Suc i) exs)"

text \<open>The first error of two checks made one after the other.\<close>

definition and_then :: "go_error option \<Rightarrow> go_error option \<Rightarrow> go_error option" where
  "and_then a b = (case a of Some e \<Rightarrow> Some e | None \<Rightarrow> b)"

lemma and_then_simps [simp]: "and_then None b = b" "and_then (Some e) b = Some e"
  by (simp_all add: and_then_def)

lemma and_then_None [simp]: "and_then a b = None \<longleftrightarrow> a = None \<and> b = None"
  by (simp add: and_then_def split: option.splits)

definition validate :: "Spec \<Rightarrow> go_error option" where
  "validate spec =
     (if sp_Name spec = [] then Some (Errorf [Lit ''adapterhost: spec.Name is required''])
      else if sp_Version spec = [] then Some (Errorf [Lit ''adapterhost: spec.Version is required''])
      else if Option.is_none (sp_Execute spec) then
        Some (Errorf [Lit ''adapterhost: spec '', Verb_q (sp_Name spec),
          Lit '': Execute handler is required; the host executes steps through it''])
      else
        and_then (schema_scan (sp_Name spec) ''ConfigSchema'' {} (sp_ConfigSchema spec))
        (and_then (schema_scan (sp_Name spec) ''InputSchema'' {} (sp_InputSchema spec))
        (and_then (schema_scan (sp_Name spec) ''OutputSchema'' {} (sp_OutputSchema spec))
        (and_then (secret_scan (sp_Name spec) {} (sp_Secrets spec))
          (example_scan (sp_Name spec) 0 (sp_Examples spec))))))"

interpretation schema_fields: keyed_scan "schema_scan spec schema" sf_Name "\<lambda>f. sf_Type f = []"
  "\<lambda>f. Errorf [Lit ''adapterhost: spec '', Verb_q spec, Lit '': '', Verb_s schema,
               Lit '': duplicate field '', Verb_q (sf_Name f)]"
  "\<lambda>f. Errorf [Lit ''adapterhost: spec '', Verb_q spec, Lit '': '', Verb_s schema,
               Lit '': field '', Verb_q (sf_Name f), Lit '': type is required'']" for spec schema
  by unfold_locales auto

interpretation secret_decls: keyed_scan "secret_scan spec" sec_Name "\<lambda>_. False"
  "\<lambda>s. Errorf [Lit ''adapterhost: spec '', Verb_q spec, Lit '': duplicate secret '', Verb_q (sec_Name s)]"
  "\<lambda>s. Errorf []" for spec
  by unfold_locales auto

definition example_ok :: "Example \<Rightarrow> bool" where
  "example_ok ex \<longleftrightarrow> ex_Name ex \<noteq> [] \<and> (ex_HCL ex = []) \<noteq> (ex_File ex = [])"

lemma example_scan_None [scan_None]: "example_scan spec i exs = None \<longleftrightarrow> list_all example_ok exs"
  by (induction spec i exs rule: example_scan.induct) (auto simp: example_ok_def)

definition schema_ok :: "Schema \<Rightarrow> bool" where
  "schema_ok fs \<longleftrightarrow> distinct (map sf_Name fs) \<and> list_all (\<lambda>f. sf_Type f \<noteq> []) fs"

lemma schema_scan_None [scan_None]: "schema_scan spec schema {} fs = None \<longleftrightarrow> schema_ok fs"
  by (simp add: schema_fields.scan_fresh_None_iff schema_ok_def list_all_iff)

lemmas [scan_None] = secret_decls.scan_fresh_None_iff

section \<open>Features\<close>

definition derived_features :: "Spec \<Rightarrow> string slice" where
  "derived_features spec =
     foldl (\<lambda>out (name, set). if set then Some (elems out @ [name]) else out) None
       [(FeaturePause, \<not> Option.is_none (sp_Pause spec)), (FeatureResume, \<not> Option.is_none (sp_Resume spec)),
        (FeatureSnapshot, \<not> Option.is_none (sp_Snapshot spec)), (FeatureRestore, \<not> Option.is_none (sp_Restore spec)),
        (FeatureInspect, \<not> Option.is_none (sp_Inspect spec))]"

definition supportedFeaturesFromSpec :: "Spec \<Rightarrow> string slice" where
  "supportedFeaturesFromSpec spec =
     (case sp_SupportedFeatures spec of Some fs \<Rightarrow> Some fs | None \<Rightarrow> derived_features spec)"

section \<open>The derived description\<close>

record ConfigFieldProto =
  cf_Type :: string
  cf_Required :: bool
  cf_Description :: string
  cf_DefaultStr :: string
  cf_Sensitive :: bool

type_synonym AdapterSchemaProto = "ConfigFieldProto gomap"

record WireExample =
  wx_Name :: string
  wx_Description :: string
  wx_Hcl :: string

record InfoResponse =
  in_Name :: string
  in_Version :: string
  in_Description :: string
  in_Capabilities :: "string slice"
  in_Platforms :: "string slice"
  in_SdkProtocolVersion :: string
  in_SourceUrl :: string
  in_ConfigSchema :: "AdapterSchemaProto option"
  in_InputSchema :: "AdapterSchemaProto option"
  in_OutputSchema :: "AdapterSchemaProto option"
  in_Secrets :: "string nmap"
  in_Permissions :: "string slice"
  in_CompatibleEnvironments :: "string slice"
  in_ContainerImage :: string
  in_SupportedFeatures :: "string slice"
  in_MaxChunkBytes :: "32 word"
  in_Examples :: "WireExample slice"

definition wireProtocolVersion :: string where
  "wireProtocolVersion = ''2''"

definition field_proto :: "SchemaField \<Rightarrow> ConfigFieldProto" where
  "field_proto f =
     \<lparr>cf_Type = sf_Type f, cf_Required = sf_Required f, cf_Description = sf_Description f,
      cf_DefaultStr = sf_Default f, cf_Sensitive = sf_Sensitive f\<rparr>"

definition adapterSchemaProto :: "Schema \<Rightarrow> AdapterSchemaProto option" where
  "adapterSchemaProto schema =
     (if schema = [] then None
      else Some (fold (\<lambda>f m. m(sf_Name f \<mapsto> field_proto f)) schema Map.empty))"

definition secretMap :: "Secret list \<Rightarrow> string nmap" where
  "secretMap secrets =
     (if secrets = [] then None
      else Some (fold (\<lambda>s m. m(sec_Name s \<mapsto> sec_Description s)) secrets Map.empty))"

text \<open>\<open>resolveExamples\<close>; the file system (\<open>os.ReadFile\<close>) is a parameter.\<close>

fun inline_examples :: "(string \<Rightarrow> string result) \<Rightarrow> Example list \<Rightarrow> WireExample list result" where
  "inline_examples ReadFile [] = Ok []"
| "inline_examples ReadFile (ex # exs) =
     bind_result
       (if ex_File ex \<noteq> [] then
          (case ReadFile (ex_File ex) of
             Inl e \<Rightarrow> Inl (Wrapf [Lit ''adapterhost: example '', Verb_q (ex_Name ex), Lit '': read '',
                Verb_q (ex_File ex), Lit '': ''] e
                [Lit '' (example File paths are read and inlined at Info time)''])
           | Inr x \<Rightarrow> Ok x)
        else Ok (ex_HCL ex))
       (\<lambda>hcl. bind_result (inline_examples ReadFile exs)
         (\<lambda>rest. Ok (\<lparr>wx_Name = ex_Name ex, wx_Description = ex_Description ex, wx_Hcl = hcl\<rparr> # rest)))"

definition resolveExamples :: "(string \<Rightarrow> string result) \<Rightarrow> Spec \<Rightarrow> WireExample slice result" where
  "resolveExamples ReadFile spec =
     (if sp_Examples spec = [] then Ok None
      else bind_result (inline_examples ReadFile (sp_Examples spec)) (\<lambda>out. Ok (Some out)))"

definition deriveInfo :: "(string \<Rightarrow> string result) \<Rightarrow> Spec \<Rightarrow> InfoResponse result" where
  "deriveInfo ReadFile spec =
     (case validate spec of
        Some e \<Rightarrow> Err e
      | None \<Rightarrow>
          bind_result (resolveExamples ReadFile spec) (\<lambda>examples.
            Ok \<lparr>in_Name = sp_Name spec, in_Version = sp_Version spec, in_Description = sp_Description spec,
              in_Capabilities = sp_Capabilities spec, in_Platforms = sp_Platforms spec,
              in_SdkProtocolVersion = wireProtocolVersion, in_SourceUrl = sp_SourceURL spec,
              in_ConfigSchema = adapterSchemaProto (sp_ConfigSchema spec),
              in_InputSchema = adapterSchemaProto (sp_InputSchema spec),
              in_OutputSchema = adapterSchemaProto (sp_OutputSchema spec),
              in_Secrets = secretMap (sp_Secrets spec), in_Permissions = sp_Permissions spec,
              in_CompatibleEnvironments = sp_CompatibleEnvironments spec,
              in_ContainerImage = sp_ContainerImage spec,
              in_SupportedFeatures = supportedFeaturesFromSpec spec,
              in_MaxChunkBytes = sp_MaxChunkBytes spec, in_Examples = examples\<rparr>))"

section \<open>The service of a spec\<close>

definition SpecService :: "Spec option \<Rightarrow> Spec result" where
  "SpecService spec =
     (case spec of
        None \<Rightarrow> Err (Errorf [Lit ''adapterhost: SpecService: spec is nil''])
      | Some s \<Rightarrow> (case validate s of Some e \<Rightarrow> Err e | None \<Rightarrow> Ok s))"

definition Info :: "(string \<Rightarrow> string result) \<Rightarrow> Spec \<Rightarrow> InfoResponse result" where
  "Info ReadFile s = deriveInfo ReadFile s"

record OpenSessionRequest =
  os_SessionId :: string
  os_Config :: "string nmap"
  os_Secrets :: "string nmap"
  os_AllowedOutcomes :: "string slice"

definition OpenSession :: "Spec \<Rightarrow> OpenSessionRequest \<Rightarrow> unit result" where
  "OpenSession s req =
     (case sp_OpenSession s of
        None \<Rightarrow> Ok ()
      | Some h \<Rightarrow>
          (case h \<lparr>ss_SessionID = os_SessionId req, ss_Config = os_Config req, ss_Secrets = os_Secrets req,
                   ss_AllowedOutcomes = os_AllowedOutcomes req\<rparr> of
             Some e \<Rightarrow> Err e | None \<Rightarrow> Ok ()))"

text \<open>
  The functions and the constant of the proto module that \<open>Execute\<close> uses, as parameters. The field
  \<open>rq_Timeout\<close> is the step timeout of the request in milliseconds, already read as a \<open>Duration\<close>.
\<close>

record chunk_env =
  MarshalOutputs :: "gobj option \<Rightarrow> string result"
  NeedsChunking :: "string \<Rightarrow> 32 word \<Rightarrow> bool"
  ChunkExecuteResultOutputs :: "ExecuteResultMsg \<Rightarrow> string \<Rightarrow> 32 word \<Rightarrow> ExecuteResultMsg list"
  DefaultMaxChunkBytes :: "32 word"

record ExecuteRequest =
  rq_SessionId :: string
  rq_StepName :: string
  rq_Input :: "string nmap"
  rq_SecretInputs :: "string nmap"
  rq_AllowedOutcomes :: "string slice"
  rq_Timeout :: "64 word"

definition execute_input :: "ExecuteRequest \<Rightarrow> ExecuteInput" where
  "execute_input req =
     \<lparr>ei_SessionID = rq_SessionId req, ei_StepName = rq_StepName req, ei_Input = rq_Input req,
      ei_Secrets = rq_SecretInputs req, ei_AllowedOutcomes = rq_AllowedOutcomes req,
      ei_Timeout = rq_Timeout req * 1000000\<rparr>"

fun send_results ::
  "transport \<Rightarrow> string \<Rightarrow> ExecuteResultMsg list \<Rightarrow> ExecuteEvent outbox \<Rightarrow> go_error option \<times> ExecuteEvent outbox" where
  "send_results net step [] out = (None, out)"
| "send_results net step (frag # frags) out =
     (case send_msg net (EvResult frag) out of
        (Some e, out') \<Rightarrow>
          (Some (Wrapf [Lit ''adapterhost: step '', Verb_q step, Lit '': send result: ''] e []), out')
      | (None, out') \<Rightarrow> send_results net step frags out')"

text \<open>Calling an unset handler panics, here \<^const>\<open>None\<close>; a small result is one unframed message.\<close>

definition Execute ::
  "chunk_env \<Rightarrow> transport \<Rightarrow> Spec \<Rightarrow> ExecuteRequest \<Rightarrow> ExecuteEvent outbox \<Rightarrow>
   (go_error option \<times> ExecuteEvent outbox) option" where
  "Execute env net s req out =
     map_option (\<lambda>h.
       case h (execute_input req) of
         Inl e \<Rightarrow> (Some e, out)
       | Inr None \<Rightarrow>
           (Some (Errorf [Lit ''adapterhost: Execute returned neither a result nor an error for step '',
              Verb_q (rq_StepName req), Lit ''; exactly one result is required'']), out)
       | Inr (Some res) \<Rightarrow>
           let chunkSize = (if sp_MaxChunkBytes s = 0 then DefaultMaxChunkBytes env else sp_MaxChunkBytes s)
           in (case MarshalOutputs env (er_Outputs res) of
                 Inl e \<Rightarrow>
                   (Some (Wrapf [Lit ''adapterhost: step '', Verb_q (rq_StepName req), Lit '' outputs: ''] e []), out)
               | Inr outputsJSON \<Rightarrow>
                   let base = \<lparr>res_outcome = er_Outcome res, res_comment = er_Comment res,
                               res_outputs_json = [], res_chunk = None\<rparr>
                   in if \<not> NeedsChunking env outputsJSON chunkSize
                      then send_results net (rq_StepName req) [base\<lparr>res_outputs_json := outputsJSON\<rparr>] out
                      else send_results net (rq_StepName req)
                             (ChunkExecuteResultOutputs env base outputsJSON chunkSize) out))
       (sp_Execute s)"

text \<open>Log lines; the timestamp the writer adds is not modelled.\<close>

record LogEvent =
  le_SessionId :: string
  le_StepName :: string
  le_StreamName :: string
  le_Line :: string
  le_Heartbeat :: bool

text \<open>A line is refused, or becomes the event handed to the sender, whose answer the handler then sees.\<close>

definition Line :: "LogInput \<Rightarrow> string \<Rightarrow> string \<Rightarrow> LogEvent result" where
  "Line input streamName text =
     (if \<not> MatchString logStreamNamePattern streamName then
        Err (Errorf [Lit ''adapterhost: log stream name '', Verb_q streamName,
           Lit '' must match ^[a-z][a-z0-9_-]{0,31}$''])
      else Ok \<lparr>le_SessionId = li_SessionID input, le_StepName = li_StepName input,
             le_StreamName = streamName, le_Line = text, le_Heartbeat = False\<rparr>)"

text \<open>
  What the implementation of a service does in its \<open>Log\<close>: it returns, sends an event, blocks until its context is done, or looks
  at it. The handler of a spec does so through the writer; a refused line sends nothing.
\<close>

codatatype log_action =
    LogEnd "go_error option"
  | LogSend LogEvent "go_error option \<Rightarrow> log_action"
  | LogBlock log_action
  | LogLook "bool \<Rightarrow> log_action"

primcorec spec_log :: "LogInput \<Rightarrow> log_prog \<Rightarrow> log_action" where
  "spec_log input p =
     (case p of
        LogReturn e \<Rightarrow> LogEnd e
      | LogLine streamName text k \<Rightarrow>
          (case Line input streamName text of
             Inl e \<Rightarrow> LogLook (\<lambda>_. spec_log input (k (Some e)))
           | Inr ev \<Rightarrow> LogSend ev (\<lambda>e. spec_log input (k e)))
      | LogAwait q \<Rightarrow> LogBlock (spec_log input q)
      | LogPoll k \<Rightarrow> LogLook (\<lambda>d. spec_log input (k d)))"

lemma spec_log_simps [simp]:
  "spec_log input (LogReturn e) = LogEnd e"
  "spec_log input (LogLine streamName body k) =
     (case Line input streamName body of
        Inl e \<Rightarrow> LogLook (\<lambda>_. spec_log input (k (Some e)))
      | Inr ev \<Rightarrow> LogSend ev (\<lambda>e. spec_log input (k e)))"
  "spec_log input (LogAwait q) = LogBlock (spec_log input q)"
  "spec_log input (LogPoll l) = LogLook (\<lambda>d. spec_log input (l d))"
  by (subst spec_log.code, simp)+

definition Log :: "Spec \<Rightarrow> string \<times> string \<Rightarrow> log_action" where
  "Log s req =
     (case sp_Log s of
        None \<Rightarrow> LogEnd None
      | Some h \<Rightarrow>
          let input = \<lparr>li_SessionID = fst req, li_StepName = snd req\<rparr>
          in spec_log input (h input))"

definition CloseSession :: "Spec \<Rightarrow> string \<Rightarrow> unit result" where
  "CloseSession s sid =
     (case sp_CloseSession s of
        None \<Rightarrow> Ok ()
      | Some h \<Rightarrow> (case h sid of Some e \<Rightarrow> Err e | None \<Rightarrow> Ok ()))"

definition spec_Permissions ::
  "(go_error \<Rightarrow> grpc_code) \<Rightarrow> Spec \<Rightarrow> turn list \<Rightarrow> PermissionDecision list \<times> loop_status" where
  "spec_Permissions sc s stream =
     (case sp_PermissionsFunc s of
        None \<Rightarrow> runUnimplementedPermissions sc stream
      | Some h \<Rightarrow> h stream)"

section \<open>The optional lifecycle verbs\<close>

definition unimplementedVerb :: "string \<Rightarrow> go_error" where
  "unimplementedVerb meth = StatusError Code_Unimplemented (''method '' @ meth @ '' not implemented'')"

definition err_or :: "go_error option \<Rightarrow> unit result" where
  "err_or e = (case e of Some e \<Rightarrow> Err e | None \<Rightarrow> Ok ())"

definition Pause :: "Spec \<Rightarrow> string \<Rightarrow> unit result" where
  "Pause s sid = (case sp_Pause s of None \<Rightarrow> Err (unimplementedVerb ''Pause'') | Some h \<Rightarrow> err_or (h sid))"

definition Resume :: "Spec \<Rightarrow> string \<Rightarrow> unit result" where
  "Resume s sid = (case sp_Resume s of None \<Rightarrow> Err (unimplementedVerb ''Resume'') | Some h \<Rightarrow> err_or (h sid))"

definition Snapshot :: "Spec \<Rightarrow> string \<Rightarrow> SnapshotState result" where
  "Snapshot s sid =
     (case sp_Snapshot s of None \<Rightarrow> Err (unimplementedVerb ''Snapshot'')
      | Some h \<Rightarrow> bind_result (h sid)
          (\<lambda>state. Ok \<lparr>sn_State = sn_State state, sn_SchemaVersion = sn_SchemaVersion state\<rparr>))"

definition Restore :: "Spec \<Rightarrow> string \<times> 8 word slice \<times> 32 word \<Rightarrow> unit result" where
  "Restore s req =
     (case sp_Restore s of None \<Rightarrow> Err (unimplementedVerb ''Restore'')
      | Some h \<Rightarrow> err_or (h \<lparr>ri_SessionID = fst req, ri_State = fst (snd req), ri_SchemaVersion = snd (snd req)\<rparr>))"

text \<open>The wire form of an inspection; the protobuf conversions are parameters.\<close>

record InspectResponse =
  ir_CurrentStep :: string
  ir_PendingPermissionCount :: "32 word"
  ir_LastActivityAt :: "int option"
  ir_Fields :: "(string \<times> string \<times> gval) list"
  ir_Extra :: "gobj option"

record struct_env =
  NewValue :: "gval \<Rightarrow> gval result"
  NewStructOf :: "gobj \<Rightarrow> gobj result"

fun inspect_fields :: "struct_env \<Rightarrow> InspectField list \<Rightarrow> (string \<times> string \<times> gval) list result" where
  "inspect_fields env [] = Ok []"
| "inspect_fields env (f # fs) =
     bind_result
       (wrap_err [Lit ''adapterhost: inspect field '', Verb_q (if_Key f), Lit '': ''] (NewValue env (if_Value f)))
       (\<lambda>v. bind_result (inspect_fields env fs) (\<lambda>rest. Ok ((if_Key f, if_Label f, v) # rest)))"

definition inspectResponseFromInfo :: "struct_env \<Rightarrow> InspectInfo \<Rightarrow> InspectResponse result" where
  "inspectResponseFromInfo env info =
     bind_result (inspect_fields env (ii_Fields info)) (\<lambda>fields.
     bind_result
       (case ii_Extra info of
          None \<Rightarrow> Ok None
        | Some m \<Rightarrow>
            if m = [] then Ok None
            else bind_result (wrap_err [Lit ''adapterhost: inspect extra: ''] (NewStructOf env m)) (\<lambda>x. Ok (Some x)))
       (\<lambda>extra.
     Ok \<lparr>ir_CurrentStep = ii_CurrentStep info, ir_PendingPermissionCount = ii_PendingPermissions info,
         ir_LastActivityAt = (if ii_LastActivity info = 0 then None else Some (ii_LastActivity info)),
         ir_Fields = fields, ir_Extra = extra\<rparr>))"

definition Inspect :: "struct_env \<Rightarrow> Spec \<Rightarrow> string \<Rightarrow> InspectResponse result" where
  "Inspect env s sid =
     (case sp_Inspect s of None \<Rightarrow> Err (unimplementedVerb ''Inspect'')
      | Some h \<Rightarrow> bind_result (h sid) (inspectResponseFromInfo env))"

lemmas feature_names = FeaturePause_def FeatureResume_def FeatureSnapshot_def FeatureRestore_def FeatureInspect_def

lemma derived_features_set:
  "elems (derived_features s) =
     (if Option.is_none (sp_Pause s) then [] else [FeaturePause]) @
     (if Option.is_none (sp_Resume s) then [] else [FeatureResume]) @
     (if Option.is_none (sp_Snapshot s) then [] else [FeatureSnapshot]) @
     (if Option.is_none (sp_Restore s) then [] else [FeatureRestore]) @
     (if Option.is_none (sp_Inspect s) then [] else [FeatureInspect])"
  by (simp add: derived_features_def)

end
