(* ===== verification/Manifest_Emit.thy ===== *)
theory Manifest_Emit
  imports Adapter_Spec
begin

text \<open>
  \<open>src/adapterhost/manifest.go\<close>: the manifest document derived from a description, its JSON form, and the
  handling of the flag that asks for it. Encoding a map visits its keys in sorted order, as \<open>encoding/json\<close> does; the loop over the secrets
  takes the order in which \<open>range\<close> visits them.
\<close>

section \<open>The flag\<close>

definition emitManifestRequested :: "string list \<Rightarrow> bool" where
  "emitManifestRequested args = list_ex (\<lambda>a. a = ''--emit-manifest'') args"

section \<open>The document\<close>

definition manifestSchemaVersion :: int where
  "manifestSchemaVersion = 1"

record platformDoc =
  pd_OS :: string
  pd_Arch :: string

record fieldDoc =
  fd_Type :: string
  fd_Required :: bool
  fd_Description :: string
  fd_Default :: string
  fd_Sensitive :: bool

record secretDoc =
  sd_Name :: string
  sd_Description :: string
  sd_Required :: bool

record containerImageDoc =
  ci_Ref :: string
  ci_Digest :: string

record manifestDoc =
  md_SchemaVersion :: int
  md_Name :: string
  md_Version :: string
  md_Description :: string
  md_SourceURL :: string
  md_Capabilities :: "string list"
  md_Platforms :: "platformDoc list"
  md_SDKProtocolVersion :: int
  md_ConfigSchema :: "fieldDoc gomap"
  md_InputSchema :: "fieldDoc gomap"
  md_OutputSchema :: "fieldDoc gomap"
  md_Secrets :: "secretDoc list"
  md_Permissions :: "string list"
  md_CompatibleEnvironments :: "string list"
  md_ContainerImage :: "containerImageDoc option"

definition nonNil :: "string slice \<Rightarrow> string list" where
  "nonNil s = (case s of None \<Rightarrow> [] | Some xs \<Rightarrow> xs)"

text \<open>\<open>strings.Cut\<close> at a one-byte separator.\<close>

definition cut_at :: "char \<Rightarrow> string \<Rightarrow> (string \<times> string) option" where
  "cut_at c s =
     (if c \<in> set s then Some (takeWhile (\<lambda>x. x \<noteq> c) s, tl (dropWhile (\<lambda>x. x \<noteq> c) s)) else None)"

definition platformsFromStrings :: "string slice \<Rightarrow> platformDoc list" where
  "platformsFromStrings ps =
     map (\<lambda>p. case cut_at (CHR ''/'') p of
                None \<Rightarrow> \<lparr>pd_OS = p, pd_Arch = []\<rparr>
              | Some (os, arch) \<Rightarrow> \<lparr>pd_OS = os, pd_Arch = arch\<rparr>) (elems ps)"

text \<open>\<open>strings.TrimSpace\<close>: the encodings of the white space code points.\<close>

definition space_runes :: "string list" where
  "space_runes =
     map (\<lambda>n. [char_of (n :: nat)]) [9, 10, 11, 12, 13, 32] @
     [[CHR 0xC2, CHR 0x85], [CHR 0xC2, CHR 0xA0], [CHR 0xE1, CHR 0x9A, CHR 0x80]] @
     map (\<lambda>n. [CHR 0xE2, CHR 0x80, char_of (n :: nat)])
       [128, 129, 130, 131, 132, 133, 134, 135, 136, 137, 138, 168, 169, 175] @
     [[CHR 0xE2, CHR 0x81, CHR 0x9F], [CHR 0xE3, CHR 0x80, CHR 0x80]]"

definition strip_rune :: "string \<Rightarrow> string option" where
  "strip_rune s =
     map_option (\<lambda>p. drop (length p) s) (find (\<lambda>p. take (length p) s = p \<and> p \<noteq> []) space_runes)"

lemma strip_rune_shorter: "strip_rune s = Some t \<Longrightarrow> length t < length s"
proof -
  assume "strip_rune s = Some t"
  then obtain p where "take (length p) s = p" "p \<noteq> []" "t = drop (length p) s"
    by (auto simp: strip_rune_def find_Some_iff)
  then show ?thesis by (cases s) (auto simp: length_greater_0_conv [symmetric] simp del: length_greater_0_conv)
qed

function trim_left :: "string \<Rightarrow> string" where
  "trim_left s = (case strip_rune s of None \<Rightarrow> s | Some t \<Rightarrow> trim_left t)"
  by pat_completeness auto
termination
  by (relation "measure length") (auto simp: strip_rune_shorter)

declare trim_left.simps [simp del]

definition strip_last_rune :: "string \<Rightarrow> string option" where
  "strip_last_rune s =
     map_option (\<lambda>p. take (length s - length p) s)
       (find (\<lambda>p. length p \<le> length s \<and> drop (length s - length p) s = p \<and> p \<noteq> []) space_runes)"

lemma strip_last_rune_shorter: "strip_last_rune s = Some t \<Longrightarrow> length t < length s"
  by (auto simp: strip_last_rune_def find_Some_iff) (metis diff_less length_greater_0_conv order_less_le_trans)

function trim_right :: "string \<Rightarrow> string" where
  "trim_right s = (case strip_last_rune s of None \<Rightarrow> s | Some t \<Rightarrow> trim_right t)"
  by pat_completeness auto
termination
  by (relation "measure length") (auto simp: strip_last_rune_shorter)

declare trim_right.simps [simp del]

definition TrimSpace :: "string \<Rightarrow> string" where
  "TrimSpace s = trim_right (trim_left s)"

text \<open>\<open>strconv.Atoi\<close> on a 64-bit platform; \<^const>\<open>None\<close> is any error.\<close>

definition Atoi :: "string \<Rightarrow> int option" where
  "Atoi s =
     (let (neg, ds) =
        (case s of [] \<Rightarrow> (False, [])
         | c # cs \<Rightarrow> if c = CHR ''-'' then (True, cs) else if c = CHR ''+'' then (False, cs) else (False, s))
      in if ds = [] \<or> \<not> list_all is_digit ds then None
         else
           let n = int (dec_val ds)
           in if neg then (if n \<le> 2 ^ 63 then Some (- n) else None)
              else if n < 2 ^ 63 then Some n else None)"

definition sdkProtocolVersion :: "string \<Rightarrow> int" where
  "sdkProtocolVersion s = (case Atoi (TrimSpace s) of Some v \<Rightarrow> v | None \<Rightarrow> 2)"

definition field_doc :: "ConfigFieldProto \<Rightarrow> fieldDoc" where
  "field_doc f =
     \<lparr>fd_Type = cf_Type f, fd_Required = cf_Required f, fd_Description = cf_Description f,
      fd_Default = cf_DefaultStr f, fd_Sensitive = cf_Sensitive f\<rparr>"

definition schemaFromProto :: "AdapterSchemaProto option \<Rightarrow> fieldDoc gomap" where
  "schemaFromProto s = (case s of None \<Rightarrow> Map.empty | Some m \<Rightarrow> (\<lambda>name. map_option field_doc (m name)))"

definition secretsFromMap :: "string list \<Rightarrow> string nmap \<Rightarrow> secretDoc list" where
  "secretsFromMap ks m =
     map (\<lambda>name. \<lparr>sd_Name = name, sd_Description = (case m of Some f \<Rightarrow> the (f name) | None \<Rightarrow> []), sd_Required = True\<rparr>) ks"

definition nmap :: "'v nmap \<Rightarrow> 'v gomap" where
  "nmap m = (case m of None \<Rightarrow> Map.empty | Some f \<Rightarrow> f)"

definition buildManifestDoc :: "string list \<Rightarrow> InfoResponse \<Rightarrow> manifestDoc" where
  "buildManifestDoc ks info =
     \<lparr>md_SchemaVersion = manifestSchemaVersion, md_Name = in_Name info, md_Version = in_Version info,
      md_Description = in_Description info, md_SourceURL = in_SourceUrl info,
      md_Capabilities = nonNil (in_Capabilities info), md_Platforms = platformsFromStrings (in_Platforms info),
      md_SDKProtocolVersion = sdkProtocolVersion (in_SdkProtocolVersion info),
      md_ConfigSchema = schemaFromProto (in_ConfigSchema info),
      md_InputSchema = schemaFromProto (in_InputSchema info),
      md_OutputSchema = schemaFromProto (in_OutputSchema info),
      md_Secrets = secretsFromMap ks (in_Secrets info), md_Permissions = nonNil (in_Permissions info),
      md_CompatibleEnvironments = nonNil (in_CompatibleEnvironments info),
      md_ContainerImage =
        (if in_ContainerImage info \<noteq> [] then Some \<lparr>ci_Ref = in_ContainerImage info, ci_Digest = []\<rparr> else None)\<rparr>"

section \<open>Its JSON form\<close>

definition field_json :: "fieldDoc \<Rightarrow> gval" where
  "field_json f =
     GMap ([(''type'', GStr (fd_Type f)), (''required'', GBool (fd_Required f)),
            (''description'', GStr (fd_Description f))] @
           (if fd_Default f \<noteq> [] then [(''default'', GStr (fd_Default f))] else []) @
           (if fd_Sensitive f then [(''sensitive'', GBool True)] else []))"

definition schema_json :: "fieldDoc gomap \<Rightarrow> gval" where
  "schema_json m =
     GMap [(''fields'', GMap (map (\<lambda>k. (k, field_json (the (m k)))) (sorted_list_of_set (dom m))))]"

definition doc_json :: "manifestDoc \<Rightarrow> gval" where
  "doc_json d =
     GMap ([(''schema_version'', GNum (dec_int (md_SchemaVersion d))), (''name'', GStr (md_Name d)),
            (''version'', GStr (md_Version d)), (''description'', GStr (md_Description d)),
            (''source_url'', GStr (md_SourceURL d)), (''capabilities'', GList (map GStr (md_Capabilities d))),
            (''platforms'', GList (map (\<lambda>p. GMap [(''os'', GStr (pd_OS p)), (''arch'', GStr (pd_Arch p))]) (md_Platforms d))),
            (''sdk_protocol_version'', GNum (dec_int (md_SDKProtocolVersion d))),
            (''config_schema'', schema_json (md_ConfigSchema d)), (''input_schema'', schema_json (md_InputSchema d)),
            (''output_schema'', schema_json (md_OutputSchema d)),
            (''secrets'', GList (map (\<lambda>s. GMap [(''name'', GStr (sd_Name s)), (''description'', GStr (sd_Description s)),
               (''required'', GBool (sd_Required s))]) (md_Secrets d))),
            (''permissions'', GList (map GStr (md_Permissions d))),
            (''compatible_environments'', GList (map GStr (md_CompatibleEnvironments d)))] @
           (case md_ContainerImage d of
              None \<Rightarrow> []
            | Some ci \<Rightarrow> [(''container_image'', GMap [(''ref'', GStr (ci_Ref ci)), (''digest'', GStr (ci_Digest ci))])]))"

text \<open>\<open>emitManifest\<close> into a buffer, which never fails; the encoder ends the document with a newline.\<close>

definition emitManifest :: "string list \<Rightarrow> InfoResponse option \<Rightarrow> string result" where
  "emitManifest ks info =
     (case info of
        None \<Rightarrow> Err (Errorf [Lit ''adapterhost: --emit-manifest: no Info response to derive the manifest from''])
      | Some i \<Rightarrow> Ok (json_indent 0 (doc_json (buildManifestDoc ks i)) @ [CHR 0x0A]))"

definition renderManifest :: "string list \<Rightarrow> InfoResponse option \<Rightarrow> string result" where
  "renderManifest ks info = emitManifest ks info"

text \<open>The service tier; an implementation is nil or answers \<open>Info\<close> with a response that may be nil.\<close>

definition emitManifestFromService ::
  "string list \<Rightarrow> (InfoResponse option result) option \<Rightarrow> string result" where
  "emitManifestFromService ks impl =
     (case impl of
        None \<Rightarrow> Err (Errorf [Lit ''adapterhost: nil adapter implementation''])
      | Some answer \<Rightarrow>
          bind_result (wrap_err [Lit ''adapterhost: Info for --emit-manifest: ''] answer) (renderManifest ks))"

definition emitManifestFromSpec :: "(string \<Rightarrow> string result) \<Rightarrow> string list \<Rightarrow> Spec \<Rightarrow> string result" where
  "emitManifestFromSpec ReadFile ks spec =
     bind_result (deriveInfo ReadFile spec) (\<lambda>info. renderManifest ks (Some info))"

section \<open>Handling the flag\<close>

text \<open>
  The effect on the process: nothing, the bytes on standard output, or an exit with status 1 and the
  message on standard error. The argument \<open>written\<close> is what writing to standard output answers.
\<close>

datatype emit_outcome = NotRequested | Emitted string | Exited go_error

definition runEmitManifestIfRequested ::
  "string list \<Rightarrow> go_error option \<Rightarrow> string result \<Rightarrow> emit_outcome" where
  "runEmitManifestIfRequested args written render =
     (if \<not> emitManifestRequested args then NotRequested
      else
        (case render of
           Inl e \<Rightarrow> Exited e
         | Inr b \<Rightarrow>
             (case written of
                Some e \<Rightarrow> Exited (Wrapf [Lit ''adapterhost: --emit-manifest: write: ''] e [])
              | None \<Rightarrow> Emitted b)))"

end
