(* ===== verification/Strict_Manifest.thy ===== *)
theory Strict_Manifest
  imports Go_JSON_Facts Go_Regexp Manifest_Emit
begin

text \<open>
  \<open>src/internal/strictmanifest/strictmanifest.go\<close>: the strict restatement of the host's manifest parser.
  The first part models how \<open>encoding/json\<close> decodes a value into a struct: field names match exactly or up to case, null leaves scalars
  alone and empties slices, maps and pointers, and an unknown field is an error. A decoder takes the value that is already there, since a
  repeated key decodes into it; for a slice that is the elements it has.
\<close>

section \<open>Decoding into structs\<close>

type_synonym 'a decoder = "gval \<Rightarrow> 'a \<Rightarrow> 'a option"

fun dec_string :: "string decoder" where
  "dec_string (GStr s) old = Some s"
| "dec_string GNil old = Some old"
| "dec_string _ old = None"

fun dec_bool :: "bool decoder" where
  "dec_bool (GBool b) old = Some b"
| "dec_bool GNil old = Some old"
| "dec_bool _ old = None"

fun dec_number :: "int decoder" where
  "dec_number (GNum n) old = Atoi n"
| "dec_number GNil old = Some old"
| "dec_number _ old = None"

text \<open>Into \<open>any\<close>: a number out of the range of \<open>float64\<close> is an error.\<close>

definition dec_any :: "gval decoder" where
  "dec_any v old = (if nums_ok v then Some (any_of v) else None)"

fun dec_elems :: "'a decoder \<Rightarrow> 'a \<Rightarrow> gval list \<Rightarrow> 'a list \<Rightarrow> 'a list option" where
  "dec_elems d zero [] old = Some []"
| "dec_elems d zero (v # vs) old =
     (case d v (case old of [] \<Rightarrow> zero | x # _ \<Rightarrow> x) of
        None \<Rightarrow> None
      | Some y \<Rightarrow> map_option (\<lambda>ys. y # ys) (dec_elems d zero vs (tl old)))"

fun dec_slice :: "'a decoder \<Rightarrow> 'a \<Rightarrow> 'a list decoder" where
  "dec_slice d zero (GList vs) old = dec_elems d zero vs old"
| "dec_slice d zero GNil old = Some []"
| "dec_slice d zero _ old = None"

fun dec_entries :: "'a decoder \<Rightarrow> 'a \<Rightarrow> gobj \<Rightarrow> 'a gomap \<Rightarrow> 'a gomap option" where
  "dec_entries d zero [] m = Some m"
| "dec_entries d zero ((k, v) # kvs) m =
     (case d v zero of None \<Rightarrow> None | Some x \<Rightarrow> dec_entries d zero kvs (m(k \<mapsto> x)))"

fun dec_map :: "'a decoder \<Rightarrow> 'a \<Rightarrow> 'a gomap decoder" where
  "dec_map d zero (GMap kvs) old = dec_entries d zero kvs old"
| "dec_map d zero GNil old = Some Map.empty"
| "dec_map d zero _ old = None"

definition dec_ptr :: "'a decoder \<Rightarrow> 'a \<Rightarrow> 'a option decoder" where
  "dec_ptr d zero v old =
     (if v = GNil then Some None
      else map_option Some (d v (case old of None \<Rightarrow> zero | Some x \<Rightarrow> x)))"

text \<open>
  Case folding of a key: ASCII letters, and the two other code points that fold to one (the long s and
  the Kelvin sign).
\<close>

definition fold_char :: "char \<Rightarrow> char" where
  "fold_char c = (if is_lower c then char_of (ord8 c - 32) else c)"

fun fold_key :: "string \<Rightarrow> string" where
  "fold_key [] = []"
| "fold_key [c] = [fold_char c]"
| "fold_key [c, d] = (if [c, d] = [CHR 0xC5, CHR 0xBF] then ''S'' else [fold_char c, fold_char d])"
| "fold_key (c # d # e # s) =
     (if [c, d] = [CHR 0xC5, CHR 0xBF] then CHR ''S'' # fold_key (e # s)
      else if [c, d, e] = [CHR 0xE2, CHR 0x84, CHR 0xAA] then CHR ''K'' # fold_key s
      else fold_char c # fold_key (d # e # s))"

definition find_field :: "string \<Rightarrow> (string \<times> 'f) list \<Rightarrow> 'f option" where
  "find_field k fds =
     (case map_of fds k of
        Some f \<Rightarrow> Some f
      | None \<Rightarrow> map_option snd (find (\<lambda>(name, f). fold_key name = fold_key k) fds))"

fun dec_fields :: "(string \<times> (gval \<Rightarrow> 'a \<Rightarrow> 'a option)) list \<Rightarrow> gobj \<Rightarrow> 'a \<Rightarrow> 'a option" where
  "dec_fields fds [] x = Some x"
| "dec_fields fds ((k, v) # kvs) x =
     (case find_field k fds of
        None \<Rightarrow> None
      | Some f \<Rightarrow> (case f v x of None \<Rightarrow> None | Some y \<Rightarrow> dec_fields fds kvs y))"

fun dec_struct :: "(string \<times> (gval \<Rightarrow> 'a \<Rightarrow> 'a option)) list \<Rightarrow> 'a decoder" where
  "dec_struct fds (GMap kvs) old = dec_fields fds kvs old"
| "dec_struct fds GNil old = Some old"
| "dec_struct fds _ old = None"

section \<open>The document\<close>

record Platform =
  pl_OS :: string
  pl_Arch :: string

record ManifestField =
  mf_Type :: string
  mf_Required :: bool
  mf_Description :: string
  mf_Default :: gval
  mf_Sensitive :: bool

record ManifestSecret =
  ms_Name :: string
  ms_Description :: string
  ms_Required :: bool

record ContainerImage =
  cm_Ref :: string
  cm_Digest :: string

record Manifest =
  ma_SchemaVersion :: int
  ma_Name :: string
  ma_Version :: string
  ma_Description :: string
  ma_SourceURL :: string
  ma_Capabilities :: "string list"
  ma_Platforms :: "Platform list"
  ma_SDKProtocolVersion :: int
  ma_ConfigSchema :: "(ManifestField gomap) option"
  ma_InputSchema :: "(ManifestField gomap) option"
  ma_OutputSchema :: "(ManifestField gomap) option"
  ma_Secrets :: "ManifestSecret list"
  ma_Permissions :: "string list"
  ma_CompatibleEnvironments :: "string list"
  ma_ContainerImage :: "ContainerImage option"

definition zero_platform :: Platform where "zero_platform = \<lparr>pl_OS = [], pl_Arch = []\<rparr>"
definition zero_field :: ManifestField where
  "zero_field = \<lparr>mf_Type = [], mf_Required = False, mf_Description = [], mf_Default = GNil, mf_Sensitive = False\<rparr>"
definition zero_secret :: ManifestSecret where
  "zero_secret = \<lparr>ms_Name = [], ms_Description = [], ms_Required = False\<rparr>"
definition zero_image :: ContainerImage where "zero_image = \<lparr>cm_Ref = [], cm_Digest = []\<rparr>"
definition zero_manifest :: Manifest where
  "zero_manifest = \<lparr>ma_SchemaVersion = 0, ma_Name = [], ma_Version = [], ma_Description = [], ma_SourceURL = [],
     ma_Capabilities = [], ma_Platforms = [], ma_SDKProtocolVersion = 0, ma_ConfigSchema = None, ma_InputSchema = None,
     ma_OutputSchema = None, ma_Secrets = [], ma_Permissions = [], ma_CompatibleEnvironments = [], ma_ContainerImage = None\<rparr>"

text \<open>A field of a struct: its key, its decoder, and how to read and update it.\<close>

definition field :: "string \<Rightarrow> 'b decoder \<Rightarrow> ('a \<Rightarrow> 'b) \<Rightarrow> (('b \<Rightarrow> 'b) \<Rightarrow> 'a \<Rightarrow> 'a) \<Rightarrow> string \<times> (gval \<Rightarrow> 'a \<Rightarrow> 'a option)" where
  "field name d get upd = (name, \<lambda>v x. map_option (\<lambda>y. upd (\<lambda>_. y) x) (d v (get x)))"

definition dec_platform :: "Platform decoder" where
  "dec_platform = dec_struct [field ''os'' dec_string pl_OS pl_OS_update, field ''arch'' dec_string pl_Arch pl_Arch_update]"

definition dec_field :: "ManifestField decoder" where
  "dec_field = dec_struct
     [field ''type'' dec_string mf_Type mf_Type_update, field ''required'' dec_bool mf_Required mf_Required_update,
      field ''description'' dec_string mf_Description mf_Description_update,
      field ''default'' dec_any mf_Default mf_Default_update,
      field ''sensitive'' dec_bool mf_Sensitive mf_Sensitive_update]"

definition dec_schema :: "ManifestField gomap decoder" where
  "dec_schema = dec_struct [field ''fields'' (dec_map dec_field zero_field) (\<lambda>m. m) (\<lambda>f m. f m)]"

definition dec_secret :: "ManifestSecret decoder" where
  "dec_secret = dec_struct
     [field ''name'' dec_string ms_Name ms_Name_update, field ''description'' dec_string ms_Description ms_Description_update,
      field ''required'' dec_bool ms_Required ms_Required_update]"

definition dec_image :: "ContainerImage decoder" where
  "dec_image = dec_struct [field ''ref'' dec_string cm_Ref cm_Ref_update, field ''digest'' dec_string cm_Digest cm_Digest_update]"

definition dec_manifest :: "Manifest decoder" where
  "dec_manifest = dec_struct
     [field ''schema_version'' dec_number ma_SchemaVersion ma_SchemaVersion_update,
      field ''name'' dec_string ma_Name ma_Name_update,
      field ''version'' dec_string ma_Version ma_Version_update,
      field ''description'' dec_string ma_Description ma_Description_update,
      field ''source_url'' dec_string ma_SourceURL ma_SourceURL_update,
      field ''capabilities'' (dec_slice dec_string []) ma_Capabilities ma_Capabilities_update,
      field ''platforms'' (dec_slice dec_platform zero_platform) ma_Platforms ma_Platforms_update,
      field ''sdk_protocol_version'' dec_number ma_SDKProtocolVersion ma_SDKProtocolVersion_update,
      field ''config_schema'' (dec_ptr dec_schema Map.empty) ma_ConfigSchema ma_ConfigSchema_update,
      field ''input_schema'' (dec_ptr dec_schema Map.empty) ma_InputSchema ma_InputSchema_update,
      field ''output_schema'' (dec_ptr dec_schema Map.empty) ma_OutputSchema ma_OutputSchema_update,
      field ''secrets'' (dec_slice dec_secret zero_secret) ma_Secrets ma_Secrets_update,
      field ''permissions'' (dec_slice dec_string []) ma_Permissions ma_Permissions_update,
      field ''compatible_environments'' (dec_slice dec_string []) ma_CompatibleEnvironments ma_CompatibleEnvironments_update,
      field ''container_image'' (dec_ptr dec_image zero_image) ma_ContainerImage ma_ContainerImage_update]"

text \<open>\<open>Parse\<close>: one value from the stream, decoded, and nothing after it that \<open>More\<close> reports.\<close>

definition Parse :: "string \<Rightarrow> Manifest result" where
  "Parse data =
     (case decoder_decode data of
        None \<Rightarrow> Err (Wrapf [Lit ''parse: ''] json_syntax_error [])
      | Some (v, rest) \<Rightarrow>
          (case dec_manifest v zero_manifest of
             None \<Rightarrow> Err (Wrapf [Lit ''parse: ''] json_type_error [])
           | Some m \<Rightarrow>
               if decoder_more rest then Err (Errorf [Lit ''parse: unexpected trailing content after manifest''])
               else Ok m))"

section \<open>Validation\<close>

definition manifestMaxSchemaVersion :: int where "manifestMaxSchemaVersion = 1"

fun platform_scan :: "Platform list \<Rightarrow> go_error option" where
  "platform_scan [] = None"
| "platform_scan (p # ps) =
     (if \<not> MatchString osRe (pl_OS p) then
        Some (Errorf [Lit ''manifest: platform os '', Verb_q (pl_OS p), Lit '' invalid''])
      else if \<not> MatchString archRe (pl_Arch p) then
        Some (Errorf [Lit ''manifest: platform arch '', Verb_q (pl_Arch p), Lit '' invalid''])
      else platform_scan ps)"

text \<open>\<open>validateSchema\<close>; the first argument is the order in which \<open>range\<close> visits the fields.\<close>

fun field_scan :: "string \<Rightarrow> ManifestField gomap \<Rightarrow> string list \<Rightarrow> go_error option" where
  "field_scan key m [] = None"
| "field_scan key m (name # names) =
     (let typ = mf_Type (the (m name))
      in if \<not> MatchString fieldTypeRe typ then
           Some (Errorf [Lit ''manifest: '', Verb_s key, Lit '': field '', Verb_q name, Lit '': type '', Verb_q typ,
             Lit '' is not one of string, number, boolean, object, array''])
         else field_scan key m names)"

definition validateSchema :: "string list \<Rightarrow> string \<Rightarrow> (ManifestField gomap) option \<Rightarrow> go_error option" where
  "validateSchema order key s = (case s of None \<Rightarrow> None | Some m \<Rightarrow> field_scan key m order)"

fun secret_name_scan :: "nat \<Rightarrow> ManifestSecret list \<Rightarrow> go_error option" where
  "secret_name_scan i [] = None"
| "secret_name_scan i (s # ss) =
     (if ms_Name s = [] then
        Some (Errorf [Lit ''manifest: secrets['', Verb_d (int i), Lit '']: name is required''])
      else secret_name_scan (Suc i) ss)"

fun env_scan :: "string list \<Rightarrow> go_error option" where
  "env_scan [] = None"
| "env_scan (env # envs) =
     (if env \<noteq> ''*'' \<and> \<not> MatchString envRe env then
        Some (Errorf [Lit ''manifest: compatible_environment '', Verb_q env, Lit '' invalid''])
      else env_scan envs)"

definition check :: "bool \<Rightarrow> fmt_arg list \<Rightarrow> go_error option" where
  "check bad as = (if bad then Some (Errorf as) else None)"

text \<open>\<open>Validate\<close>; the three orders are those of the range loops over the schemas.\<close>

definition Validate :: "string list \<Rightarrow> string list \<Rightarrow> string list \<Rightarrow> Manifest \<Rightarrow> go_error option" where
  "Validate co io oo m =
     and_then (check (ma_SchemaVersion m < 1 \<or> ma_SchemaVersion m > manifestMaxSchemaVersion)
       [Lit ''manifest: schema_version '', Verb_d (ma_SchemaVersion m), Lit '' outside supported range [1,'',
        Verb_d manifestMaxSchemaVersion, Lit '']''])
     (and_then (check (\<not> MatchString nameRe (ma_Name m))
       [Lit ''manifest: name '', Verb_q (ma_Name m), Lit '' does not match ^[a-z][a-z0-9-]*$''])
     (and_then (check (\<not> MatchString versionRe (ma_Version m))
       [Lit ''manifest: version '', Verb_q (ma_Version m), Lit '' is not a valid semver''])
     (and_then (check (ma_SourceURL m = []) [Lit ''manifest: source_url is required''])
     (and_then (check (\<not> MatchString urlSchemeRe (ma_SourceURL m))
       [Lit ''manifest: source_url '', Verb_q (ma_SourceURL m), Lit '' must include a scheme''])
     (and_then (check (ma_SDKProtocolVersion m \<noteq> 2)
       [Lit ''manifest: sdk_protocol_version '', Verb_d (ma_SDKProtocolVersion m), Lit '' outside supported range''])
     (and_then (check (ma_Platforms m = []) [Lit ''manifest: at least one platform is required''])
     (and_then (platform_scan (ma_Platforms m))
     (and_then (validateSchema co ''config_schema'' (ma_ConfigSchema m))
     (and_then (validateSchema io ''input_schema'' (ma_InputSchema m))
     (and_then (validateSchema oo ''output_schema'' (ma_OutputSchema m))
     (and_then (secret_name_scan 0 (ma_Secrets m))
     (and_then (env_scan (ma_CompatibleEnvironments m))
       (check (case ma_ContainerImage m of None \<Rightarrow> False | Some ci \<Rightarrow> cm_Ref ci = [])
         [Lit ''manifest: container_image.ref is required when set''])))))))))))))"

end
