(* ===== verification/Spec_Properties.thy ===== *)
theory Spec_Properties
  imports Adapter_Spec
begin

text \<open>
  What a spec promises (\<open>src/adapterhost/spec.go\<close>): which specs are accepted, what of the spec the host
  learns, which verbs are advertised and served, and what a step sends.
\<close>

section \<open>Validation\<close>

lemma validate_NoneD:
  assumes "validate spec = None"
  shows "sp_Name spec \<noteq> []" "sp_Version spec \<noteq> []" "sp_Execute spec \<noteq> None"
    and "schema_ok (sp_ConfigSchema spec)" "schema_ok (sp_InputSchema spec)" "schema_ok (sp_OutputSchema spec)"
    and "distinct (map sec_Name (sp_Secrets spec))" "list_all example_ok (sp_Examples spec)"
  using assms by (auto simp: validate_def scan_None Option.is_none_def split: if_splits)

text \<open>C14: the specs that pass validation are exactly those with a name, a version and an execute
  handler, whose three schemas have pairwise different field names and no untyped field, whose secrets have pairwise different names, and whose
  examples are named and declare exactly one of an inline body and a file.\<close>

theorem spec_accepted_iff:
  "validate spec = None \<longleftrightarrow>
     sp_Name spec \<noteq> [] \<and> sp_Version spec \<noteq> [] \<and> sp_Execute spec \<noteq> None \<and>
     schema_ok (sp_ConfigSchema spec) \<and> schema_ok (sp_InputSchema spec) \<and> schema_ok (sp_OutputSchema spec) \<and>
     distinct (map sec_Name (sp_Secrets spec)) \<and> list_all example_ok (sp_Examples spec)"
  by (auto simp: validate_def scan_None Option.is_none_def)

text \<open>A rejected schema is reported at its first faulty field: everything before that field is
  fine, and the error is the duplicate-field error if its name occurred before, the missing-type error otherwise.\<close>

theorem schema_error_names_first_fault:
  assumes "schema_scan spec schema {} fs = Some e"
  shows "\<exists>us f vs. fs = us @ f # vs \<and> schema_ok us \<and>
    (if sf_Name f \<in> sf_Name ` set us
     then e = Errorf [Lit ''adapterhost: spec '', Verb_q spec, Lit '': '', Verb_s schema,
                      Lit '': duplicate field '', Verb_q (sf_Name f)]
     else sf_Type f = [] \<and>
       e = Errorf [Lit ''adapterhost: spec '', Verb_q spec, Lit '': '', Verb_s schema,
                   Lit '': field '', Verb_q (sf_Name f), Lit '': type is required''])"
  using schema_fields.scan_first_error [OF assms] by (auto simp: schema_scan_None)

definition sample_fields :: Schema where
  "sample_fields = [Field ''a'' ''string'' True [], Field ''b'' ''number'' False [], Field ''a'' [] True []]"

theorem schema_error_names_first_fault_witness:
  "\<exists>us f vs. sample_fields = us @ f # vs \<and> schema_ok us \<and> sf_Name f = ''a'' \<and> sf_Name f \<in> sf_Name ` set us"
proof -
  have "schema_scan ''s'' ''InputSchema'' {} sample_fields =
      Some (Errorf [Lit ''adapterhost: spec '', Verb_q ''s'', Lit '': '', Verb_s ''InputSchema'',
                    Lit '': duplicate field '', Verb_q ''a''])"
    by (simp add: sample_fields_def Field_def)
  from schema_error_names_first_fault [OF this] show ?thesis by (auto split: if_splits)
qed

section \<open>The description the host receives\<close>

lemma fold_updates_lookup:
  assumes "distinct (map k xs)"
  shows "x \<in> set xs \<Longrightarrow> fold (\<lambda>x m. m(k x \<mapsto> v x)) xs base (k x) = Some (v x)"
    and "dom (fold (\<lambda>x m. m(k x \<mapsto> v x)) xs base) = k ` set xs \<union> dom base"
proof -
  show "fold (\<lambda>x m. m(k x \<mapsto> v x)) xs base (k x) = Some (v x)" if "x \<in> set xs"
    using that assms
  proof (induction xs arbitrary: base)
    case (Cons a xs)
    have other: "fold (\<lambda>x m. m(k x \<mapsto> v x)) xs m1 (k a) = m1 (k a)" if "k a \<notin> k ` set xs" for m1
      using that by (induction xs arbitrary: m1) auto
    show ?case
    proof (cases "x = a")
      case True
      with Cons.prems other show ?thesis by (simp del: fun_upd_apply) simp
    next
      case False
      with Cons show ?thesis by (simp del: fun_upd_apply)
    qed
  qed simp
  show "dom (fold (\<lambda>x m. m(k x \<mapsto> v x)) xs base) = k ` set xs \<union> dom base"
    by (induction xs arbitrary: base) auto
qed

lemma schema_proto_lookup:
  assumes "schema_ok fs"
  shows "f \<in> set fs \<Longrightarrow> \<exists>m. adapterSchemaProto fs = Some m \<and> m (sf_Name f) = Some (field_proto f)"
    and "adapterSchemaProto fs = Some m \<Longrightarrow> dom m = sf_Name ` set fs"
  using assms fold_updates_lookup [where k = sf_Name and xs = fs and v = field_proto and base = Map.empty]
  by (auto simp: adapterSchemaProto_def schema_ok_def split: if_splits)

lemma secretMap_lookup:
  assumes "distinct (map sec_Name ss)"
  shows "s \<in> set ss \<Longrightarrow> \<exists>m. secretMap ss = Some m \<and> m (sec_Name s) = Some (sec_Description s)"
    and "secretMap ss = Some m \<Longrightarrow> dom m = sec_Name ` set ss"
  using assms fold_updates_lookup [where k = sec_Name and xs = ss and v = sec_Description and base = Map.empty]
  by (auto simp: secretMap_def split: if_splits)

text \<open>The body of an example on the wire: what it declares inline, or what its file holds.\<close>

definition example_body :: "(string \<Rightarrow> string result) \<Rightarrow> Example \<Rightarrow> string result" where
  "example_body ReadFile ex = (if ex_File ex \<noteq> [] then ReadFile (ex_File ex) else Ok (ex_HCL ex))"

lemma inline_examples_Ok:
  "inline_examples RF exs = Ok ws \<Longrightarrow>
   list_all2 (\<lambda>ex w. wx_Name w = ex_Name ex \<and> wx_Description w = ex_Description ex \<and>
     example_body RF ex = Ok (wx_Hcl w)) exs ws"
proof (induction exs arbitrary: ws)
  case (Cons ex exs)
  then show ?case
    by (auto simp: result_defs example_body_def split: sum.splits if_splits)
qed simp

lemma resolveExamples_Ok:
  "resolveExamples RF spec = Ok ws \<Longrightarrow>
   list_all2 (\<lambda>ex w. wx_Name w = ex_Name ex \<and> wx_Description w = ex_Description ex \<and>
     example_body RF ex = Ok (wx_Hcl w)) (sp_Examples spec) (elems ws)"
  using inline_examples_Ok [of RF "sp_Examples spec"]
  by (auto simp: resolveExamples_def result_defs split: sum.splits if_splits)

lemma inline_examples_unreadable:
  "ex \<in> set exs \<Longrightarrow> example_body RF ex = Err e \<Longrightarrow> \<exists>e'. inline_examples RF exs = Err e'"
proof (induction exs)
  case (Cons x exs)
  then show ?case
    by (auto simp: result_defs example_body_def split: sum.splits if_splits)
qed simp

lemma deriveInfo_Ok:
  assumes "deriveInfo RF spec = Ok info"
  shows "validate spec = None" "resolveExamples RF spec = Ok (in_Examples info)"
    and "in_ConfigSchema info = adapterSchemaProto (sp_ConfigSchema spec)"
    and "in_InputSchema info = adapterSchemaProto (sp_InputSchema spec)"
    and "in_OutputSchema info = adapterSchemaProto (sp_OutputSchema spec)"
    and "in_Secrets info = secretMap (sp_Secrets spec)"
    and "in_Name info = sp_Name spec" "in_Version info = sp_Version spec"
    and "in_SdkProtocolVersion info = wireProtocolVersion"
    and "in_SupportedFeatures info = supportedFeaturesFromSpec spec"
    and "in_Platforms info = sp_Platforms spec" "in_SourceUrl info = sp_SourceURL spec"
    and "in_CompatibleEnvironments info = sp_CompatibleEnvironments spec"
    and "in_ContainerImage info = sp_ContainerImage spec" "in_Description info = sp_Description spec"
    and "in_Capabilities info = sp_Capabilities spec" "in_Permissions info = sp_Permissions spec"
  using assms by (auto simp: deriveInfo_def result_defs split: option.splits sum.splits)

text \<open>C15: the description loses nothing a spec declares. Every field of every schema is found under
  its own name with all its attributes and there is no other field; every secret is found under its name with its description; and the examples travel
  in order, each with the body it declares or the contents of its file.\<close>

theorem info_keeps_declarations:
  assumes "deriveInfo RF spec = Ok info"
    and "(fs, proto) \<in> {(sp_ConfigSchema spec, in_ConfigSchema info), (sp_InputSchema spec, in_InputSchema info),
                        (sp_OutputSchema spec, in_OutputSchema info)}"
  shows "(\<forall>f \<in> set fs. \<exists>m. proto = Some m \<and> m (sf_Name f) =
        Some \<lparr>cf_Type = sf_Type f, cf_Required = sf_Required f, cf_Description = sf_Description f,
          cf_DefaultStr = sf_Default f, cf_Sensitive = sf_Sensitive f\<rparr>) \<and>
    (\<forall>m. proto = Some m \<longrightarrow> dom m = sf_Name ` set fs) \<and>
    (\<forall>s \<in> set (sp_Secrets spec). \<exists>m. in_Secrets info = Some m \<and> m (sec_Name s) = Some (sec_Description s)) \<and>
    list_all2 (\<lambda>ex w. wx_Name w = ex_Name ex \<and> wx_Description w = ex_Description ex \<and>
      example_body RF ex = Ok (wx_Hcl w)) (sp_Examples spec) (elems (in_Examples info))"
proof -
  note info = deriveInfo_Ok [OF assms(1)]
  have ok: "schema_ok (sp_ConfigSchema spec)" "schema_ok (sp_InputSchema spec)" "schema_ok (sp_OutputSchema spec)"
    "distinct (map sec_Name (sp_Secrets spec))"
    by (rule validate_NoneD [OF info(1)])+
  have fs: "schema_ok fs" "proto = adapterSchemaProto fs"
    using assms(2) ok info(3-5) by auto
  show ?thesis
    unfolding fs(2) info(6) field_proto_def [symmetric]
    by (intro conjI ballI allI impI schema_proto_lookup [OF fs(1)] secretMap_lookup [OF ok(4)]
        resolveExamples_Ok [OF info(2)])
qed

definition sample_spec :: Spec where
  "sample_spec = \<lparr>sp_Name = ''greeter'', sp_Version = ''0.1.0'', sp_Description = ''d'',
     sp_SourceURL = ''https://example.org/g'', sp_Capabilities = None, sp_Platforms = Some [''linux/amd64''],
     sp_CompatibleEnvironments = None, sp_ContainerImage = [], sp_MaxChunkBytes = 0, sp_SupportedFeatures = None,
     sp_ConfigSchema = [], sp_InputSchema = [Field ''name'' ''string'' True ''who'', Field ''n'' ''number'' False []],
     sp_OutputSchema = [], sp_Secrets = [\<lparr>sec_Name = ''TOKEN'', sec_Description = ''t''\<rparr>], sp_Permissions = None,
     sp_Examples = [\<lparr>ex_Name = ''e'', ex_Description = [], ex_HCL = [], ex_File = ''x.hcl''\<rparr>],
     sp_OpenSession = None, sp_Execute = Some (\<lambda>i. Ok (Some \<lparr>er_Outcome = ''success'', er_Comment = [], er_Outputs = None\<rparr>)),
     sp_Log = Some (\<lambda>_. LogLine ''Bad'' ''x'' (\<lambda>_. LogLine ''stdout'' ''hi'' LogReturn)), sp_CloseSession = None,
     sp_PermissionsFunc = None, sp_Pause = Some (\<lambda>_. None),
     sp_Resume = None, sp_Snapshot = None, sp_Restore = None, sp_Inspect = None\<rparr>"

definition sample_files :: "string \<Rightarrow> string result" where
  "sample_files p = (if p = ''x.hcl'' then Ok ''step {}'' else Err (OpaqueError ''no such file''))"

lemma sample_spec_ok: "validate sample_spec = None"
  by (simp add: sample_spec_def validate_def Field_def)

lemma sample_info:
  "\<exists>info. deriveInfo sample_files sample_spec = Ok info \<and>
     in_Examples info = Some [\<lparr>wx_Name = ''e'', wx_Description = [], wx_Hcl = ''step {}''\<rparr>]"
  by (simp add: deriveInfo_def sample_spec_ok resolveExamples_def)
    (simp add: sample_spec_def sample_files_def)

theorem info_keeps_declarations_witness:
  "\<exists>info m. deriveInfo sample_files sample_spec = Ok info \<and> in_InputSchema info = Some m \<and>
     dom m = {''name'', ''n''} \<and>
     m ''name'' = Some \<lparr>cf_Type = ''string'', cf_Required = True, cf_Description = ''who'', cf_DefaultStr = [], cf_Sensitive = False\<rparr>"
proof -
  obtain info where info: "deriveInfo sample_files sample_spec = Ok info" using sample_info by blast
  let ?f = "Field ''name'' ''string'' True ''who''"
  have fs: "?f \<in> set (sp_InputSchema sample_spec)" "sf_Name ` set (sp_InputSchema sample_spec) = {''name'', ''n''}"
    by (simp_all add: sample_spec_def Field_def)
  have "(sp_InputSchema sample_spec, in_InputSchema info) \<in>
      {(sp_ConfigSchema sample_spec, in_ConfigSchema info), (sp_InputSchema sample_spec, in_InputSchema info),
       (sp_OutputSchema sample_spec, in_OutputSchema info)}" by blast
  note kept = info_keeps_declarations [OF info this]
  obtain m where m: "in_InputSchema info = Some m" "m (sf_Name ?f) =
      Some \<lparr>cf_Type = sf_Type ?f, cf_Required = sf_Required ?f, cf_Description = sf_Description ?f,
        cf_DefaultStr = sf_Default ?f, cf_Sensitive = sf_Sensitive ?f\<rparr>"
    using bspec [OF conjunct1 [OF kept] fs(1)] by blast
  from m(2) have "m ''name'' = Some \<lparr>cf_Type = ''string'', cf_Required = True, cf_Description = ''who'', cf_DefaultStr = [], cf_Sensitive = False\<rparr>"
    by (simp add: Field_def)
  moreover have "dom m = {''name'', ''n''}"
    using conjunct1 [OF conjunct2 [OF kept]] m(1) unfolding fs(2) by simp
  ultimately show ?thesis using info m(1) by metis
qed

text \<open>An example whose file cannot be read is never dropped: the description fails as a whole,
  and otherwise an accepted spec always has one.\<close>

theorem unreadable_example_fails_info:
  assumes "validate spec = None"
  shows "(\<exists>info. deriveInfo RF spec = Ok info) \<longleftrightarrow>
    (\<forall>ex \<in> set (sp_Examples spec). \<exists>body. example_body RF ex = Ok body)"
proof
  assume "\<exists>info. deriveInfo RF spec = Ok info"
  then obtain info where "deriveInfo RF spec = Ok info" by blast
  from resolveExamples_Ok [OF deriveInfo_Ok(2) [OF this]]
  show "\<forall>ex \<in> set (sp_Examples spec). \<exists>body. example_body RF ex = Ok body"
    by (fastforce simp: list_all2_conv_all_nth in_set_conv_nth)
next
  assume ok: "\<forall>ex \<in> set (sp_Examples spec). \<exists>body. example_body RF ex = Ok body"
  have "\<exists>ws. inline_examples RF exs = Ok ws" if "\<forall>ex \<in> set exs. \<exists>body. example_body RF ex = Ok body" for exs
    using that
  proof (induction exs)
    case (Cons ex exs)
    then show ?case by (auto simp: example_body_def split: if_splits)
  qed simp
  with ok assms show "\<exists>info. deriveInfo RF spec = Ok info"
    by (fastforce simp: deriveInfo_def resolveExamples_def)
qed

theorem unreadable_example_fails_info_witness:
  "\<exists>e. deriveInfo (\<lambda>_. Err (OpaqueError ''gone'')) sample_spec = Err e"
proof -
  have "\<not> (\<forall>ex \<in> set (sp_Examples sample_spec). \<exists>body. example_body (\<lambda>_. Err (OpaqueError ''gone'')) ex = Ok body)"
    by (simp add: sample_spec_def example_body_def)
  then have "\<nexists>info. deriveInfo (\<lambda>_. Err (OpaqueError ''gone'')) sample_spec = Ok info"
    using unreadable_example_fails_info [OF sample_spec_ok] by blast
  then show ?thesis by (cases "deriveInfo (\<lambda>_. Err (OpaqueError ''gone'')) sample_spec") auto
qed

section \<open>Steps\<close>

text \<open>The messages a result is sent as.\<close>

definition result_messages :: "chunk_env \<Rightarrow> Spec \<Rightarrow> ExecuteResult \<Rightarrow> string \<Rightarrow> ExecuteResultMsg list" where
  "result_messages env s res json =
     (let chunkSize = (if sp_MaxChunkBytes s = 0 then DefaultMaxChunkBytes env else sp_MaxChunkBytes s);
          base = \<lparr>res_outcome = er_Outcome res, res_comment = er_Comment res, res_outputs_json = [], res_chunk = None\<rparr>
      in if NeedsChunking env json chunkSize then ChunkExecuteResultOutputs env base json chunkSize
         else [base\<lparr>res_outputs_json := json\<rparr>])"

lemma Execute_result:
  assumes "sp_Execute s = Some h" "h (execute_input req) = Ok (Some res)" "MarshalOutputs env (er_Outputs res) = Ok json"
  shows "Execute env net s req out = Some (send_results net (rq_StepName req) (result_messages env s res json) out)"
  using assms by (auto simp: Execute_def result_messages_def Let_def)

lemma send_results_ok:
  "(\<forall>k < length frags. net (n + k) = None) \<Longrightarrow>
   send_results net step frags (n, evs) = (None, (n + length frags, evs @ map EvResult frags))"
proof (induction frags arbitrary: n evs)
  case (Cons f frags)
  from Cons.prems have "net n = None" "\<forall>k < length frags. net (Suc n + k) = None"
    by (auto dest: spec [of _ 0] spec [of _ "Suc _"])
  with Cons.IH [of "Suc n"] show ?case by (simp add: send_msg_def)
qed simp

lemma send_results_fail:
  "k < length frags \<Longrightarrow> (\<forall>j < k. net (n + j) = None) \<Longrightarrow> net (n + k) = Some e \<Longrightarrow>
   send_results net step frags (n, evs) =
     (Some (Wrapf [Lit ''adapterhost: step '', Verb_q step, Lit '': send result: ''] e []),
      (n + k + 1, evs @ map EvResult (take k frags)))"
proof (induction frags arbitrary: n evs k)
  case (Cons f frags)
  show ?case
  proof (cases k)
    case 0
    with Cons.prems show ?thesis by (simp add: send_msg_def)
  next
    case (Suc j)
    with Cons.prems have "net n = None" "\<forall>i < j. net (Suc n + i) = None" "net (Suc n + j) = Some e" "j < length frags"
      by (auto dest: spec [of _ 0] spec [of _ "Suc _"])
    with Cons.IH [of j "Suc n"] Suc show ?thesis by (simp add: send_msg_def)
  qed
qed simp

text \<open>A step delivers its result or reports why not. If the handler returns a result and its
  outputs can be encoded, the messages of that result go out in order, all of them if the stream takes them; the first send the stream refuses ends the
  step with an error that wraps the stream's, after exactly the messages before it.\<close>

theorem step_result_is_sent:
  assumes "sp_Execute s = Some h" "h (execute_input req) = Ok (Some res)" "MarshalOutputs env (er_Outputs res) = Ok json"
    and "k \<le> length (result_messages env s res json)" "\<forall>j < k. net (n + j) = None"
    and "k < length (result_messages env s res json) \<Longrightarrow> net (n + k) = Some e"
  shows "\<exists>err m. Execute env net s req (n, evs) =
      Some (err, (m, evs @ map EvResult (take k (result_messages env s res json)))) \<and>
    (if k = length (result_messages env s res json) then err = None
     else \<exists>pre post. err = Some (Wrapf pre e post))"
proof (cases "k = length (result_messages env s res json)")
  case True
  then show ?thesis using Execute_result [OF assms(1-3)] send_results_ok assms(5) by simp
next
  case False
  with assms(4) have "k < length (result_messages env s res json)" by simp
  with False show ?thesis
    using Execute_result [OF assms(1-3)] send_results_fail assms(5,6) by simp
qed

definition sample_chunks :: chunk_env where
  "sample_chunks = \<lparr>MarshalOutputs = (\<lambda>_. Ok ''{}''), NeedsChunking = (\<lambda>json n. unat n < length json),
     ChunkExecuteResultOutputs = (\<lambda>base json n. []), DefaultMaxChunkBytes = 4\<rparr>"

definition sample_request :: ExecuteRequest where
  "sample_request = \<lparr>rq_SessionId = ''s'', rq_StepName = ''greet'', rq_Input = None, rq_SecretInputs = None,
     rq_AllowedOutcomes = None, rq_Timeout = 5\<rparr>"

lemma sample_execute:
  "sp_Execute sample_spec = Some (\<lambda>i. Ok (Some \<lparr>er_Outcome = ''success'', er_Comment = [], er_Outputs = None\<rparr>))"
  by (simp add: sample_spec_def)

theorem step_result_is_sent_witness:
  "\<exists>m. Execute sample_chunks (\<lambda>_. None) sample_spec sample_request (0, []) =
    Some (None, (m, [EvResult \<lparr>res_outcome = ''success'', res_comment = [], res_outputs_json = ''{}'', res_chunk = None\<rparr>]))"
proof -
  let ?res = "\<lparr>er_Outcome = ''success'', er_Comment = [], er_Outputs = None\<rparr>"
  have msgs: "result_messages sample_chunks sample_spec ?res ''{}'' =
      [\<lparr>res_outcome = ''success'', res_comment = [], res_outputs_json = ''{}'', res_chunk = None\<rparr>]"
    by (simp add: result_messages_def sample_chunks_def sample_spec_def)
  have marshal: "MarshalOutputs sample_chunks (er_Outputs ?res) = Ok ''{}''" by (simp add: sample_chunks_def)
  show ?thesis
    using step_result_is_sent [OF sample_execute refl marshal, of 1 "\<lambda>_. None" 0 undefined sample_request "[]"]
    unfolding msgs by auto
qed

text \<open>A step that fails before sending sends nothing: an error of the handler, a missing result
  or outputs that cannot be encoded end the step with an error and leave the stream untouched.\<close>

theorem failing_step_sends_nothing:
  assumes "sp_Execute s = Some h"
    and "h (execute_input req) = Err e \<or> h (execute_input req) = Ok None \<or>
      (\<exists>res. h (execute_input req) = Ok (Some res) \<and> MarshalOutputs env (er_Outputs res) = Err e)"
  shows "\<exists>err. Execute env net s req out = Some (Some err, out) \<and>
    (h (execute_input req) = Err e \<longrightarrow> err = e)"
  using assms by (auto simp: Execute_def)

theorem failing_step_sends_nothing_witness:
  "\<exists>err. Execute sample_chunks (\<lambda>_. None) (sample_spec\<lparr>sp_Execute := Some (\<lambda>_. Ok None)\<rparr>) sample_request (0, []) =
     Some (Some err, (0, []))"
  using failing_step_sends_nothing [of "sample_spec\<lparr>sp_Execute := Some (\<lambda>_. Ok None)\<rparr>" "\<lambda>_. Ok None"] by auto

section \<open>Logs\<close>

definition stamped :: "LogInput \<Rightarrow> LogEvent \<Rightarrow> bool" where
  "stamped input ev \<longleftrightarrow>
     le_SessionId ev = li_SessionID input \<and> le_StepName ev = li_StepName input \<and>
     MatchString logStreamNamePattern (le_StreamName ev) \<and> \<not> le_Heartbeat ev"

text \<open>
  A line is accepted exactly if its stream name is a lower-case letter followed by at most 31 lower-case letters, digits, underscores and
  dashes, and it is then stamped with the session and the step.
\<close>

lemma Line_accepts_iff:
  "(\<exists>ev. Line input name body = Ok ev) \<longleftrightarrow>
     (\<exists>c w. name = c # w \<and> in_class [lower] c \<and> length w \<le> 31 \<and> chars [lower, digits, (95, 95), (45, 45)] w)"
  by (auto simp: Line_def logStreamName_iff)

lemma Line_stamped: "Line input name body = Ok ev \<Longrightarrow> stamped input ev \<and> le_Line ev = body \<and> le_StreamName ev = name"
  by (auto simp: Line_def stamped_def split: if_splits)

end
