(* ===== verification/Manifest_Properties.thy ===== *)
theory Manifest_Properties
  imports Strict_Manifest Spec_Properties
begin

text \<open>
  From a description to the manifest a host reads back: the emitted bytes parse to the document they were
  made from, and which specs give manifests that pass the strict validation (\<open>src/adapterhost/manifest.go\<close> against
  \<open>src/internal/strictmanifest/strictmanifest.go\<close>).
\<close>

section \<open>Numbers\<close>

lemma dec_nat_first: "0 < n \<Longrightarrow> hd (dec_nat n) \<noteq> CHR ''0''"
proof (induction n rule: dec_nat.induct)
  case (1 n)
  show ?case
  proof (cases "n < 10")
    case True
    have "ord8 (digit_char n) \<noteq> ord8 (CHR ''0'')" using True 1(2) by simp
    then have "digit_char n \<noteq> CHR ''0''" by metis
    with True show ?thesis by (subst dec_nat.simps) simp
  next
    case False
    with 1 show ?thesis by (subst dec_nat.simps) (simp add: hd_append)
  qed
qed

lemma dec_nat_0: "dec_nat 0 = ''0''"
  by code_simp

lemma digits_prefix_dec: "digits_prefix (dec_nat n) = (dec_nat n, [])"
  using dec_nat_digits by (auto simp: digits_prefix_def takeWhile_eq_all_conv dropWhile_eq_Nil_conv)

lemma dec_nat_not_sign: "\<exists>c cs. dec_nat n = c # cs \<and> is_digit c \<and> c \<noteq> CHR ''-'' \<and> c \<noteq> CHR ''+''"
proof -
  obtain c cs where c: "dec_nat n = c # cs" by (cases "dec_nat n") simp_all
  with dec_nat_digits [of c n] have "is_digit c" by simp
  moreover have "\<not> is_digit (CHR ''-'')" "\<not> is_digit (CHR ''+'')" by code_simp+
  ultimately show ?thesis using c by auto
qed

lemma number_ok_dec_nat: "number_ok (dec_nat n)" "number_ok (CHR ''-'' # dec_nat n)"
proof -
  obtain c cs where c: "dec_nat n = c # cs" "c \<noteq> CHR ''-''" using dec_nat_not_sign [of n] by blast
  have lead: "hd (dec_nat n) = CHR ''0'' \<longrightarrow> length (dec_nat n) = 1"
    using dec_nat_first [of n] dec_nat_0 by (cases "n = 0") auto
  have "frac_ok []" by (simp add: frac_ok_def)
  then show "number_ok (dec_nat n)" "number_ok (CHR ''-'' # dec_nat n)"
    using lead c digits_prefix_dec [of n] by (auto simp: number_ok_def Let_def)
qed

lemma number_ok_dec_int: "number_ok (dec_int i)"
  by (simp add: dec_int_def number_ok_dec_nat)

lemma Atoi_dec_int:
  assumes "- (2 ^ 63) \<le> i" "i < 2 ^ 63"
  shows "Atoi (dec_int i) = Some i"
proof -
  have digits: "list_all is_digit (dec_nat n)" for n using dec_nat_digits by (auto simp: list_all_iff)
  show ?thesis
  proof (cases "i < 0")
    case True
    with assms digits show ?thesis by (simp add: dec_int_def Atoi_def Let_def)
  next
    case False
    obtain c cs where c: "dec_nat (nat i) = c # cs" "c \<noteq> CHR ''-''" "c \<noteq> CHR ''+''"
      using dec_nat_not_sign [of "nat i"] by blast
    have "Atoi (dec_nat (nat i)) = (let k = int (dec_val (dec_nat (nat i))) in if k < 2 ^ 63 then Some k else None)"
      unfolding Atoi_def using digits [of "nat i"] c by simp
    with False assms show ?thesis by (simp add: dec_int_def Let_def)
  qed
qed

lemma Atoi_range: "Atoi s = Some i \<Longrightarrow> - (2 ^ 63) \<le> i \<and> i < 2 ^ 63"
proof -
  assume a: "Atoi s = Some i"
  obtain neg ds where p: "(case s of [] \<Rightarrow> (False, [])
       | c # cs \<Rightarrow> if c = CHR ''-'' then (True, cs) else if c = CHR ''+'' then (False, cs) else (False, s)) = (neg, ds)" by force
  from a show ?thesis unfolding Atoi_def p by (auto simp: Let_def split: if_splits)
qed

lemma sdkProtocolVersion_range: "- (2 ^ 63) \<le> sdkProtocolVersion s" "sdkProtocolVersion s < 2 ^ 63"
  using Atoi_range [of "TrimSpace s"] by (auto simp: sdkProtocolVersion_def split: option.splits)

section \<open>The document a host reads back\<close>

definition mirror_field :: "fieldDoc \<Rightarrow> ManifestField" where
  "mirror_field f =
     \<lparr>mf_Type = fd_Type f, mf_Required = fd_Required f, mf_Description = fd_Description f,
      mf_Default = (if fd_Default f = [] then GNil else GStr (fd_Default f)), mf_Sensitive = fd_Sensitive f\<rparr>"

definition mirror_schema :: "fieldDoc gomap \<Rightarrow> ManifestField gomap" where
  "mirror_schema m = (\<lambda>k. map_option mirror_field (m k))"

definition mirror_secret :: "secretDoc \<Rightarrow> ManifestSecret" where
  "mirror_secret s = \<lparr>ms_Name = sd_Name s, ms_Description = sd_Description s, ms_Required = sd_Required s\<rparr>"

definition mirror_platform :: "platformDoc \<Rightarrow> Platform" where
  "mirror_platform p = \<lparr>pl_OS = pd_OS p, pl_Arch = pd_Arch p\<rparr>"

definition mirror :: "manifestDoc \<Rightarrow> Manifest" where
  "mirror d =
     \<lparr>ma_SchemaVersion = md_SchemaVersion d, ma_Name = md_Name d, ma_Version = md_Version d,
      ma_Description = md_Description d, ma_SourceURL = md_SourceURL d, ma_Capabilities = md_Capabilities d,
      ma_Platforms = map mirror_platform (md_Platforms d), ma_SDKProtocolVersion = md_SDKProtocolVersion d,
      ma_ConfigSchema = Some (mirror_schema (md_ConfigSchema d)), ma_InputSchema = Some (mirror_schema (md_InputSchema d)),
      ma_OutputSchema = Some (mirror_schema (md_OutputSchema d)), ma_Secrets = map mirror_secret (md_Secrets d),
      ma_Permissions = md_Permissions d, ma_CompatibleEnvironments = md_CompatibleEnvironments d,
      ma_ContainerImage = map_option (\<lambda>c. \<lparr>cm_Ref = ci_Ref c, cm_Digest = ci_Digest c\<rparr>) (md_ContainerImage d)\<rparr>"

text \<open>The texts of a document that must be valid UTF-8 for it to be read back unchanged.\<close>

definition field_utf8 :: "fieldDoc \<Rightarrow> bool" where
  "field_utf8 f \<longleftrightarrow> utf8_ok (fd_Type f) \<and> utf8_ok (fd_Description f) \<and> utf8_ok (fd_Default f)"

definition schema_utf8 :: "fieldDoc gomap \<Rightarrow> bool" where
  "schema_utf8 m \<longleftrightarrow> finite (dom m) \<and> (\<forall>k f. m k = Some f \<longrightarrow> utf8_ok k \<and> field_utf8 f)"

definition doc_utf8 :: "manifestDoc \<Rightarrow> bool" where
  "doc_utf8 d \<longleftrightarrow>
     list_all utf8_ok [md_Name d, md_Version d, md_Description d, md_SourceURL d] \<and>
     list_all utf8_ok (md_Capabilities d @ md_Permissions d @ md_CompatibleEnvironments d) \<and>
     list_all (\<lambda>p. utf8_ok (pd_OS p) \<and> utf8_ok (pd_Arch p)) (md_Platforms d) \<and>
     schema_utf8 (md_ConfigSchema d) \<and> schema_utf8 (md_InputSchema d) \<and> schema_utf8 (md_OutputSchema d) \<and>
     list_all (\<lambda>s. utf8_ok (sd_Name s) \<and> utf8_ok (sd_Description s)) (md_Secrets d) \<and>
     (case md_ContainerImage d of None \<Rightarrow> True | Some c \<Rightarrow> utf8_ok (ci_Ref c) \<and> utf8_ok (ci_Digest c))"

section \<open>Decoding what was encoded\<close>

lemma find_field_simps [simp]:
  "find_field k ((k, f) # fds) = Some f"
  by (simp add: find_field_def)

lemma dec_elems_map:
  assumes "\<And>x. x \<in> set xs \<Longrightarrow> d (enc x) zero = Some (mir x)"
  shows "dec_elems d zero (map enc xs) [] = Some (map mir xs)"
  using assms by (induction xs) auto

lemma dec_strings: "dec_slice dec_string [] (GList (map GStr xs)) [] = Some xs"
  using dec_elems_map [of xs dec_string GStr "[]" "\<lambda>x. x"] by simp

lemma dec_field_doc: "dec_field (field_json f) zero_field = Some (mirror_field f)"
  by (simp add: dec_field_def field_json_def field_def find_field_def zero_field_def mirror_field_def dec_any_def)

lemma dec_entries_map:
  assumes "\<And>k. k \<in> set ks \<Longrightarrow> d (enc (the (m k))) zero = Some (mir (the (m k)))"
  shows "dec_entries d zero (map (\<lambda>k. (k, enc (the (m k)))) ks) acc =
    Some (\<lambda>k. if k \<in> set ks then Some (mir (the (m k))) else acc k)"
  using assms
proof (induction ks arbitrary: acc)
  case (Cons k ks)
  have "dec_entries d zero (map (\<lambda>k. (k, enc (the (m k)))) ks) (acc(k \<mapsto> mir (the (m k)))) =
      Some (\<lambda>j. if j \<in> set ks then Some (mir (the (m j))) else (acc(k \<mapsto> mir (the (m k)))) j)"
    using Cons by simp
  also have "\<dots> = Some (\<lambda>j. if j \<in> set (k # ks) then Some (mir (the (m j))) else acc j)"
    by (auto simp: fun_eq_iff)
  finally show ?case using Cons.prems [of k] by simp
qed simp

lemma dec_schema_doc:
  assumes "finite (dom m)"
  shows "dec_schema (schema_json m) Map.empty = Some (mirror_schema m)"
proof -
  have "dec_entries dec_field zero_field
      (map (\<lambda>k. (k, field_json (the (m k)))) (sorted_list_of_set (dom m))) Map.empty =
    Some (\<lambda>k. if k \<in> set (sorted_list_of_set (dom m)) then Some (mirror_field (the (m k))) else None)"
    using dec_entries_map [of "sorted_list_of_set (dom m)" dec_field field_json m zero_field mirror_field Map.empty]
    by (simp add: dec_field_doc)
  also have "\<dots> = Some (mirror_schema m)"
    using assms by (auto simp: mirror_schema_def fun_eq_iff)
  finally show ?thesis by (simp add: dec_schema_def schema_json_def field_def)
qed

lemma dec_schema_ptr:
  assumes "finite (dom m)"
  shows "dec_ptr dec_schema Map.empty (schema_json m) None = Some (Some (mirror_schema m))"
  using dec_schema_doc [OF assms] by (simp add: dec_ptr_def) (simp add: schema_json_def)

lemma dec_secrets_doc:
  "dec_slice dec_secret zero_secret (GList (map (\<lambda>s. GMap [(''name'', GStr (sd_Name s)),
     (''description'', GStr (sd_Description s)), (''required'', GBool (sd_Required s))]) ss)) [] = Some (map mirror_secret ss)"
  unfolding dec_slice.simps
  by (rule dec_elems_map) (simp add: dec_secret_def field_def find_field_def zero_secret_def mirror_secret_def)

lemma dec_platforms_doc:
  "dec_slice dec_platform zero_platform
     (GList (map (\<lambda>p. GMap [(''os'', GStr (pd_OS p)), (''arch'', GStr (pd_Arch p))]) ps)) [] = Some (map mirror_platform ps)"
  unfolding dec_slice.simps
  by (rule dec_elems_map) (simp add: dec_platform_def field_def find_field_def zero_platform_def mirror_platform_def)

lemma dec_image_doc:
  "dec_ptr dec_image zero_image (GMap [(''ref'', GStr r), (''digest'', GStr g)]) None = Some (Some \<lparr>cm_Ref = r, cm_Digest = g\<rparr>)"
  by (simp add: dec_ptr_def dec_image_def field_def find_field_def zero_image_def)

definition doc_ranges :: "manifestDoc \<Rightarrow> bool" where
  "doc_ranges d \<longleftrightarrow>
     - (2 ^ 63) \<le> md_SchemaVersion d \<and> md_SchemaVersion d < 2 ^ 63 \<and>
     - (2 ^ 63) \<le> md_SDKProtocolVersion d \<and> md_SDKProtocolVersion d < 2 ^ 63"

lemma dec_manifest_doc:
  assumes "doc_ranges d" "finite (dom (md_ConfigSchema d))" "finite (dom (md_InputSchema d))"
    "finite (dom (md_OutputSchema d))"
  shows "dec_manifest (doc_json d) zero_manifest = Some (mirror d)"
proof -
  have nums: "Atoi (dec_int (md_SchemaVersion d)) = Some (md_SchemaVersion d)"
    "Atoi (dec_int (md_SDKProtocolVersion d)) = Some (md_SDKProtocolVersion d)"
    using assms(1) Atoi_dec_int by (auto simp: doc_ranges_def)
  note parts = nums dec_strings dec_platforms_doc dec_secrets_doc dec_schema_ptr [OF assms(2)] dec_schema_ptr [OF assms(3)]
    dec_schema_ptr [OF assms(4)] dec_image_doc
  show ?thesis
    by (cases "md_ContainerImage d")
      (simp_all add: dec_manifest_def doc_json_def field_def find_field_def zero_manifest_def mirror_def parts del: dec_slice.simps)
qed

section \<open>The document has a JSON form\<close>

lemma utf8_ascii: "list_all (\<lambda>c. ord8 c < 128) s \<Longrightarrow> utf8_ok s"
  by (induction s) simp_all

lemma field_json_ok: "field_utf8 f \<Longrightarrow> json_ok (field_json f)"
  by (simp add: field_json_def field_utf8_def)

lemma schema_json_ok:
  assumes "schema_utf8 m"
  shows "json_ok (schema_json m)"
proof -
  have "utf8_ok k \<and> json_ok (field_json (the (m k)))" if "k \<in> dom m" for k
    using assms that by (auto simp: schema_utf8_def field_json_ok)
  then show ?thesis using assms by (auto simp: schema_json_def schema_utf8_def list_all_iff)
qed

lemma doc_json_ok: "doc_utf8 d \<Longrightarrow> json_ok (doc_json d)"
  by (cases "md_ContainerImage d")
    (auto simp: doc_json_def doc_utf8_def number_ok_dec_int schema_json_ok list_all_iff)

lemma foldr_max_le: "(\<And>x. x \<in> set xs \<Longrightarrow> x \<le> n) \<Longrightarrow> foldr max xs (0 :: nat) \<le> n"
  by (induction xs) auto

lemma depth_list: "(\<And>v. v \<in> set vs \<Longrightarrow> depth v \<le> n) \<Longrightarrow> depth (GList vs) \<le> Suc n"
  using foldr_max_le [of "map depth vs" n] by auto

lemma depth_map: "(\<And>k v. (k, v) \<in> set kvs \<Longrightarrow> depth v \<le> n) \<Longrightarrow> depth (GMap kvs) \<le> Suc n"
  using foldr_max_le [of "map (\<lambda>(k, v). depth v) kvs" n] by fastforce

lemma field_json_depth: "depth (field_json f) \<le> Suc 0"
  unfolding field_json_def by (rule depth_map) (auto split: if_splits)

lemma schema_json_depth: "depth (schema_json m) \<le> 3"
proof -
  have "depth (GMap (map (\<lambda>k. (k, field_json (the (m k)))) (sorted_list_of_set (dom m)))) \<le> Suc (Suc 0)"
    by (rule depth_map) (auto simp: field_json_depth)
  then show ?thesis by (simp add: schema_json_def)
qed

lemma doc_json_depth: "depth (doc_json d) \<le> 4"
proof -
  have strs: "depth (GList (map GStr xs)) \<le> 3" for xs
    using depth_list [of "map GStr xs" 0] by force
  have flat: "depth (GList (map enc xs)) \<le> 3" if "\<And>x. depth (enc x) \<le> Suc 0" for enc :: "'a \<Rightarrow> gval" and xs
    using depth_list [of "map enc xs" "Suc 0"] that by force
  have objs: "depth (GList (map (\<lambda>p. GMap [(''os'', GStr (pd_OS p)), (''arch'', GStr (pd_Arch p))]) ps)) \<le> 3"
    for ps by (rule flat) simp
  have secs: "depth (GList (map (\<lambda>s. GMap [(''name'', GStr (sd_Name s)), (''description'', GStr (sd_Description s)),
      (''required'', GBool (sd_Required s))]) ss)) \<le> 3" for ss by (rule flat) simp
  have one: "depth (GMap [(''ref'', GStr a), (''digest'', GStr b)]) \<le> 3" for a b by simp
  have "depth (doc_json d) \<le> Suc 3"
    unfolding doc_json_def
    by (rule depth_map) (auto simp: schema_json_depth strs objs secs one simp del: depth.simps(1,2) split: option.splits)
  then show ?thesis by simp
qed

lemma Parse_doc_rest:
  assumes "doc_utf8 d" "doc_ranges d"
  shows "Parse (json_indent 0 (doc_json d) @ rest) =
    (if decoder_more rest then Err (Errorf [Lit ''parse: unexpected trailing content after manifest'']) else Ok (mirror d))"
proof -
  obtain kvs where kvs: "doc_json d = GMap kvs" by (simp add: doc_json_def)
  have "depth (doc_json d) \<le> max_nesting_depth"
    using doc_json_depth [of d] by (simp add: max_nesting_depth_def)
  with doc_json_ok [OF assms(1)] have "decoder_decode (json_indent 0 (doc_json d) @ rest) = Some (doc_json d, rest)"
    unfolding kvs by (rule decoder_reads_object)
  moreover have "dec_manifest (doc_json d) zero_manifest = Some (mirror d)"
    using assms by (intro dec_manifest_doc) (auto simp: doc_utf8_def schema_utf8_def)
  ultimately show ?thesis by (simp add: Parse_def)
qed

lemma Parse_doc:
  "doc_utf8 d \<Longrightarrow> doc_ranges d \<Longrightarrow> \<not> decoder_more rest \<Longrightarrow>
   Parse (json_indent 0 (doc_json d) @ rest) = Ok (mirror d)"
  by (simp add: Parse_doc_rest)

lemma built_ranges: "doc_ranges (buildManifestDoc ks info)"
  using sdkProtocolVersion_range [of "in_SdkProtocolVersion info"]
  by (simp add: doc_ranges_def buildManifestDoc_def manifestSchemaVersion_def)

lemma more_newline: "\<not> decoder_more [CHR 0x0A]"
  by code_simp

section \<open>Round trip\<close>

lemma renderManifest_Some: "renderManifest ks (Some info) = Ok (json_indent 0 (doc_json (buildManifestDoc ks info)) @ [CHR 0x0A])"
  by (simp add: renderManifest_def emitManifest_def)

lemma mirror_built:
  "mirror (buildManifestDoc ks info) =
     \<lparr>ma_SchemaVersion = 1, ma_Name = in_Name info, ma_Version = in_Version info,
      ma_Description = in_Description info, ma_SourceURL = in_SourceUrl info, ma_Capabilities = elems (in_Capabilities info),
      ma_Platforms = map mirror_platform (platformsFromStrings (in_Platforms info)),
      ma_SDKProtocolVersion = sdkProtocolVersion (in_SdkProtocolVersion info),
      ma_ConfigSchema = Some (mirror_schema (schemaFromProto (in_ConfigSchema info))),
      ma_InputSchema = Some (mirror_schema (schemaFromProto (in_InputSchema info))),
      ma_OutputSchema = Some (mirror_schema (schemaFromProto (in_OutputSchema info))),
      ma_Secrets = map mirror_secret (secretsFromMap ks (in_Secrets info)),
      ma_Permissions = elems (in_Permissions info), ma_CompatibleEnvironments = elems (in_CompatibleEnvironments info),
      ma_ContainerImage = (if in_ContainerImage info = [] then None
        else Some \<lparr>cm_Ref = in_ContainerImage info, cm_Digest = []\<rparr>)\<rparr>"
  by (simp add: mirror_def buildManifestDoc_def manifestSchemaVersion_def nonNil_def elems_def)

lemma mirror_schema_proto:
  "mirror_schema (schemaFromProto p) = (\<lambda>k. map_option (mirror_field \<circ> field_doc) (nmap p k))"
  by (cases p) (simp_all add: mirror_schema_def schemaFromProto_def nmap_def option.map_comp fun_eq_iff)

lemma secrets_mirrored:
  assumes "range_order ks (nmap m)"
  shows "distinct (map ms_Name (map mirror_secret (secretsFromMap ks m)))"
    and "\<lparr>ms_Name = name, ms_Description = desc, ms_Required = True\<rparr> \<in> set (map mirror_secret (secretsFromMap ks m)) \<longleftrightarrow>
      nmap m name = Some desc"
proof -
  have names: "map ms_Name (map mirror_secret (secretsFromMap ks m)) = ks"
    by (simp add: secretsFromMap_def mirror_secret_def comp_def)
  then show "distinct (map ms_Name (map mirror_secret (secretsFromMap ks m)))"
    using assms by (simp add: range_order_def)
  have "set (map mirror_secret (secretsFromMap ks m)) =
      (\<lambda>n. \<lparr>ms_Name = n, ms_Description = the (nmap m n), ms_Required = True\<rparr>) ` dom (nmap m)"
    using assms by (cases m) (auto simp: secretsFromMap_def mirror_secret_def range_order_def nmap_def)
  then show "\<lparr>ms_Name = name, ms_Description = desc, ms_Required = True\<rparr> \<in> set (map mirror_secret (secretsFromMap ks m)) \<longleftrightarrow>
      nmap m name = Some desc"
    by (simp only:) auto
qed

end
