(* ===== verification/Publishing.thy ===== *)
theory Publishing
  imports Manifest_Properties
begin

text \<open>
  Which specs can be published: the manifest emitted for an accepted spec passes the strict validation
  of \<open>src/internal/strictmanifest/strictmanifest.go\<close> exactly if the spec meets conditions that its own validation
  (\<open>src/adapterhost/spec.go\<close>) does not check.
\<close>

section \<open>Texts of a spec\<close>

lemma utf8_cut:
  "utf8_ok (a @ c # b) \<Longrightarrow> ord8 c < 128 \<Longrightarrow> utf8_ok a \<and> utf8_ok b"
proof (induction a rule: length_induct)
  case (1 a)
  show ?case
  proof (cases a)
    case Nil
    with 1(2,3) show ?thesis by simp
  next
    case (Cons x w)
    show ?thesis
    proof (cases "ord8 x < 128")
      case True
      with 1(2,3) Cons have "utf8_ok (w @ c # b)" by simp
      with 1(1) [rule_format, of w] 1(3) Cons True show ?thesis by simp
    next
      case False
      define n where "n = rune_len (x # w @ c # b)"
      from 1(2) Cons have n: "n \<noteq> 0" and rest: "utf8_ok (drop (n - 1) (w @ c # b))"
        by (simp_all add: n_def)
      have "128 \<le> ord8 x" using False by simp
      note run = rune_len_local [OF this n_def [symmetric] n]
      have len: "n - 1 \<le> length w"
      proof (rule ccontr)
        assume "\<not> n - 1 \<le> length w"
        then have "length w < n - 1" by simp
        then have "c \<in> set (take (n - 1) (w @ c # b))"
          by (cases "n - 1 - length w") auto
        with run(2) have "is_cont c" unfolding list_all_iff by blast
        with 1(3) show False by (simp add: is_cont_def)
      qed
      then have eq: "take (n - 1) (w @ c # b) = take (n - 1) w" "drop (n - 1) (w @ c # b) = drop (n - 1) w @ c # b"
        by simp_all
      have "rune_len a = n"
        using run(1) [of "drop (n - 1) w"] unfolding eq Cons by simp
      moreover have "utf8_ok (drop (n - 1) w) \<and> utf8_ok b"
        using 1(1) [rule_format, of "drop (n - 1) w"] rest 1(3) Cons unfolding eq by simp
      ultimately show ?thesis using n Cons by simp
    qed
  qed
qed

lemma cut_at_Some: "cut_at c s = Some (u, v) \<Longrightarrow> s = u @ c # v"
proof -
  assume cut: "cut_at c s = Some (u, v)"
  then have c: "c \<in> set s" and uv: "u = takeWhile (\<lambda>x. x \<noteq> c) s" "v = tl (dropWhile (\<lambda>x. x \<noteq> c) s)"
    by (auto simp: cut_at_def split: if_splits)
  obtain y ys where d: "dropWhile (\<lambda>x. x \<noteq> c) s = y # ys"
    using c by (cases "dropWhile (\<lambda>x. x \<noteq> c) s") (auto simp: dropWhile_eq_Nil_conv)
  then have "y = c" using hd_dropWhile [of "\<lambda>x. x \<noteq> c" s] by simp
  with d uv show ?thesis by (metis list.sel(3) takeWhile_dropWhile_id)
qed

definition spec_texts :: "Spec \<Rightarrow> string list" where
  "spec_texts spec =
     [sp_Name spec, sp_Version spec, sp_Description spec, sp_SourceURL spec, sp_ContainerImage spec] @
     elems (sp_Capabilities spec) @ elems (sp_Platforms spec) @ elems (sp_Permissions spec) @
     elems (sp_CompatibleEnvironments spec) @
     concat (map (\<lambda>f. [sf_Name f, sf_Type f, sf_Description f, sf_Default f])
       (sp_ConfigSchema spec @ sp_InputSchema spec @ sp_OutputSchema spec)) @
     concat (map (\<lambda>s. [sec_Name s, sec_Description s]) (sp_Secrets spec))"

lemma schema_of_spec:
  assumes "schema_ok fs"
  shows "dom (nmap (adapterSchemaProto fs)) = sf_Name ` set fs"
    and "f \<in> set fs \<Longrightarrow> nmap (adapterSchemaProto fs) (sf_Name f) = Some (field_proto f)"
proof -
  show "dom (nmap (adapterSchemaProto fs)) = sf_Name ` set fs"
  proof (cases "adapterSchemaProto fs")
    case None
    then show ?thesis by (simp add: adapterSchemaProto_def nmap_def split: if_splits)
  next
    case (Some m)
    with schema_proto_lookup(2) [OF assms] show ?thesis by (simp add: nmap_def)
  qed
  show "nmap (adapterSchemaProto fs) (sf_Name f) = Some (field_proto f)" if "f \<in> set fs"
    using schema_proto_lookup(1) [OF assms that] by (auto simp: nmap_def)
qed

lemma schema_of_spec_cases:
  assumes "schema_ok fs" "nmap (adapterSchemaProto fs) k = Some p"
  obtains f where "f \<in> set fs" "k = sf_Name f" "p = field_proto f"
proof -
  from assms(2) have "k \<in> dom (nmap (adapterSchemaProto fs))" by blast
  with schema_of_spec(1) [OF assms(1)] obtain f where f: "f \<in> set fs" "k = sf_Name f" by auto
  with schema_of_spec(2) [OF assms(1) f(1)] assms(2) show thesis by (intro that) auto
qed

lemma schemaFromProto_nmap: "schemaFromProto p = (\<lambda>k. map_option field_doc (nmap p k))"
  by (cases p) (simp_all add: schemaFromProto_def nmap_def)

lemma spec_schema_utf8:
  assumes "schema_ok fs" "\<And>f. f \<in> set fs \<Longrightarrow> list_all utf8_ok [sf_Name f, sf_Type f, sf_Description f, sf_Default f]"
  shows "schema_utf8 (schemaFromProto (adapterSchemaProto fs))"
proof -
  have "dom (schemaFromProto (adapterSchemaProto fs)) = sf_Name ` set fs"
    using schema_of_spec(1) [OF assms(1)] by (auto simp: schemaFromProto_nmap dom_def)
  moreover have "utf8_ok k \<and> field_utf8 d" if "schemaFromProto (adapterSchemaProto fs) k = Some d" for k d
  proof -
    from that obtain p where p: "nmap (adapterSchemaProto fs) k = Some p" "d = field_doc p"
      by (auto simp: schemaFromProto_nmap)
    from schema_of_spec_cases [OF assms(1) p(1)] obtain f where "f \<in> set fs" "k = sf_Name f" "p = field_proto f" .
    with assms(2) p(2) show ?thesis by (simp add: field_utf8_def field_doc_def field_proto_def)
  qed
  ultimately show ?thesis by (simp add: schema_utf8_def)
qed

lemma platform_utf8:
  assumes "\<And>p. p \<in> set (elems ps) \<Longrightarrow> utf8_ok p"
  shows "list_all (\<lambda>p. utf8_ok (pd_OS p) \<and> utf8_ok (pd_Arch p)) (platformsFromStrings ps)"
proof -
  have "utf8_ok u \<and> utf8_ok v" if "p \<in> set (elems ps)" "cut_at (CHR ''/'') p = Some (u, v)" for p u v
    using utf8_cut [of u "CHR ''/''" v] assms [OF that(1)] cut_at_Some [OF that(2)] by simp
  with assms show ?thesis by (auto simp: platformsFromStrings_def list_all_iff split: option.splits)
qed

lemma secrets_of_spec:
  assumes "distinct (map sec_Name ss)"
  shows "dom (nmap (secretMap ss)) = sec_Name ` set ss"
    and "s \<in> set ss \<Longrightarrow> nmap (secretMap ss) (sec_Name s) = Some (sec_Description s)"
proof -
  show "dom (nmap (secretMap ss)) = sec_Name ` set ss"
  proof (cases "secretMap ss")
    case None
    then show ?thesis by (simp add: secretMap_def nmap_def split: if_splits)
  next
    case (Some m)
    with secretMap_lookup(2) [OF assms] show ?thesis by (simp add: nmap_def)
  qed
  show "nmap (secretMap ss) (sec_Name s) = Some (sec_Description s)" if "s \<in> set ss"
    using secretMap_lookup(1) [OF assms that] by (auto simp: nmap_def)
qed

lemma spec_secrets_utf8:
  assumes "distinct (map sec_Name ss)" "range_order ks (nmap (secretMap ss))"
    and "\<And>s. s \<in> set ss \<Longrightarrow> utf8_ok (sec_Name s) \<and> utf8_ok (sec_Description s)"
  shows "list_all (\<lambda>s. utf8_ok (sd_Name s) \<and> utf8_ok (sd_Description s)) (secretsFromMap ks (secretMap ss))"
proof -
  have ks: "set ks = sec_Name ` set ss"
    using assms(2) secrets_of_spec(1) [OF assms(1)] by (simp add: range_order_def)
  have "(case secretMap ss of Some f \<Rightarrow> the (f (sec_Name s)) | None \<Rightarrow> []) = sec_Description s" if "s \<in> set ss" for s
    using secretMap_lookup(1) [OF assms(1) that] by auto
  with ks assms(3) show ?thesis by (auto simp: secretsFromMap_def list_all_iff)
qed

lemma spec_doc_utf8:
  assumes "deriveInfo RF spec = Ok info" "list_all utf8_ok (spec_texts spec)"
    and "range_order ks (nmap (in_Secrets info))"
  shows "doc_utf8 (buildManifestDoc ks info)"
proof -
  note info = deriveInfo_Ok [OF assms(1)] and ok = validate_NoneD [OF deriveInfo_Ok(1) [OF assms(1)]]
  have texts: "\<And>t. t \<in> set (spec_texts spec) \<Longrightarrow> utf8_ok t" using assms(2) by (simp add: list_all_iff)
  have field: "list_all utf8_ok [sf_Name f, sf_Type f, sf_Description f, sf_Default f]"
    if "f \<in> set (sp_ConfigSchema spec @ sp_InputSchema spec @ sp_OutputSchema spec)" for f
    using that by (auto simp: spec_texts_def intro!: texts)
  have schemas: "schema_utf8 (schemaFromProto (in_ConfigSchema info))" "schema_utf8 (schemaFromProto (in_InputSchema info))"
    "schema_utf8 (schemaFromProto (in_OutputSchema info))"
    unfolding info(3-5) by (intro spec_schema_utf8 ok field; simp)+
  have "utf8_ok (sec_Name s) \<and> utf8_ok (sec_Description s)" if "s \<in> set (sp_Secrets spec)" for s
    using that by (auto simp: spec_texts_def intro!: texts)
  then have secrets: "list_all (\<lambda>s. utf8_ok (sd_Name s) \<and> utf8_ok (sd_Description s)) (secretsFromMap ks (in_Secrets info))"
    using assms(3) unfolding info(6) by (intro spec_secrets_utf8 ok)
  have platforms: "list_all (\<lambda>p. utf8_ok (pd_OS p) \<and> utf8_ok (pd_Arch p)) (platformsFromStrings (in_Platforms info))"
    unfolding info(11) by (rule platform_utf8) (simp add: spec_texts_def texts)
  have rest: "list_all utf8_ok [in_Name info, in_Version info, in_Description info, in_SourceUrl info, in_ContainerImage info]"
    "list_all utf8_ok (elems (in_Capabilities info) @ elems (in_Permissions info) @ elems (in_CompatibleEnvironments info))"
    unfolding info(7,8,12-17) by (auto simp: list_all_iff spec_texts_def intro!: texts)
  show ?thesis
    using schemas secrets platforms rest
    by (simp add: doc_utf8_def buildManifestDoc_def nonNil_def elems_def)
qed

section \<open>What the strict validation asks of a spec\<close>

definition manifest_types :: "string set" where
  "manifest_types = {''string'', ''number'', ''boolean'', ''object'', ''array''}"

definition platform_ok :: "string \<Rightarrow> bool" where
  "platform_ok p = (case cut_at (CHR ''/'') p of None \<Rightarrow> False | Some (os, arch) \<Rightarrow> MatchString osRe os \<and> MatchString archRe arch)"

definition publishable :: "Spec \<Rightarrow> bool" where
  "publishable spec \<longleftrightarrow>
     MatchString nameRe (sp_Name spec) \<and> MatchString versionRe (sp_Version spec) \<and>
     MatchString urlSchemeRe (sp_SourceURL spec) \<and>
     elems (sp_Platforms spec) \<noteq> [] \<and> list_all platform_ok (elems (sp_Platforms spec)) \<and>
     list_all (\<lambda>f. sf_Type f \<in> manifest_types) (sp_ConfigSchema spec @ sp_InputSchema spec @ sp_OutputSchema spec) \<and>
     list_all (\<lambda>s. sec_Name s \<noteq> []) (sp_Secrets spec) \<and>
     list_all (\<lambda>env. env = ''*'' \<or> MatchString envRe env) (elems (sp_CompatibleEnvironments spec))"

lemma field_scan_None [scan_None]:
  "field_scan key m ks = None \<longleftrightarrow> list_all (\<lambda>k. mf_Type (the (m k)) \<in> manifest_types) ks"
  by (induction ks) (auto simp: Let_def fieldType_iff manifest_types_def)

lemma platform_scan_None [scan_None]:
  "platform_scan ps = None \<longleftrightarrow> list_all (\<lambda>p. MatchString osRe (pl_OS p) \<and> MatchString archRe (pl_Arch p)) ps"
  by (induction ps) auto

lemma secret_name_scan_None [scan_None]: "secret_name_scan i ss = None \<longleftrightarrow> list_all (\<lambda>s. ms_Name s \<noteq> []) ss"
  by (induction ss arbitrary: i) auto

lemma env_scan_None [scan_None]: "env_scan envs = None \<longleftrightarrow> list_all (\<lambda>env. env = ''*'' \<or> MatchString envRe env) envs"
  by (induction envs) auto

lemma check_None [simp]: "check bad as = None \<longleftrightarrow> \<not> bad"
  by (simp add: check_def)

lemma validateSchema_spec:
  assumes "schema_ok fs" "range_order ks (nmap (adapterSchemaProto fs))"
  shows "validateSchema ks key (Some (mirror_schema (schemaFromProto (adapterSchemaProto fs)))) = None \<longleftrightarrow>
    list_all (\<lambda>f. sf_Type f \<in> manifest_types) fs"
proof -
  have ks: "set ks = sf_Name ` set fs"
    using assms schema_of_spec(1) by (simp add: range_order_def)
  have "mf_Type (the (mirror_schema (schemaFromProto (adapterSchemaProto fs)) (sf_Name f))) = sf_Type f" if "f \<in> set fs" for f
    using schema_of_spec(2) [OF assms(1) that]
    by (simp add: mirror_schema_proto mirror_field_def field_doc_def field_proto_def)
  then show ?thesis unfolding validateSchema_def option.case field_scan_None list_all_iff ks by simp
qed

lemma platforms_mirrored:
  "list_all (\<lambda>p. MatchString osRe (pl_OS p) \<and> MatchString archRe (pl_Arch p))
     (map mirror_platform (platformsFromStrings ps)) \<longleftrightarrow> list_all platform_ok (elems ps)"
proof -
  have "\<not> MatchString archRe []" by code_simp
  then show ?thesis
    by (auto simp: list_all_iff platformsFromStrings_def platform_ok_def mirror_platform_def split: option.splits)
qed

lemma secret_names_mirrored:
  assumes "distinct (map sec_Name ss)" "range_order ks (nmap (secretMap ss))"
  shows "list_all (\<lambda>s. ms_Name s \<noteq> []) (map mirror_secret (secretsFromMap ks (secretMap ss))) \<longleftrightarrow>
    list_all (\<lambda>s. sec_Name s \<noteq> []) ss"
proof -
  have "set ks = sec_Name ` set ss"
    using assms secrets_of_spec(1) by (simp add: range_order_def)
  then show ?thesis by (auto simp: list_all_iff mirror_secret_def secretsFromMap_def)
qed

lemma wire_version: "sdkProtocolVersion wireProtocolVersion = 2"
proof -
  have "strip_rune ''2'' = None" "strip_last_rune ''2'' = None" by code_simp+
  then have "TrimSpace ''2'' = ''2''" by (simp add: TrimSpace_def trim_left.simps trim_right.simps)
  moreover have "Atoi ''2'' = Some 2" by code_simp
  ultimately show ?thesis by (simp add: sdkProtocolVersion_def wireProtocolVersion_def)
qed

lemma Validate_spec:
  assumes "deriveInfo RF spec = Ok info" "range_order ks (nmap (in_Secrets info))"
    and "range_order co (nmap (in_ConfigSchema info))" "range_order io (nmap (in_InputSchema info))"
      "range_order oo (nmap (in_OutputSchema info))"
  shows "Validate co io oo (mirror (buildManifestDoc ks info)) = None \<longleftrightarrow> publishable spec"
proof -
  note info = deriveInfo_Ok [OF assms(1)] and ok = validate_NoneD [OF deriveInfo_Ok(1) [OF assms(1)]]
  have url: "\<not> MatchString urlSchemeRe []" by code_simp
  have platforms: "platformsFromStrings ps = [] \<longleftrightarrow> elems ps = []" for ps
    by (simp add: platformsFromStrings_def)
  have "Validate co io oo (mirror (buildManifestDoc ks info)) = None \<longleftrightarrow>
     MatchString nameRe (sp_Name spec) \<and> MatchString versionRe (sp_Version spec) \<and>
     sp_SourceURL spec \<noteq> [] \<and> MatchString urlSchemeRe (sp_SourceURL spec) \<and>
     elems (sp_Platforms spec) \<noteq> [] \<and> list_all platform_ok (elems (sp_Platforms spec)) \<and>
     list_all (\<lambda>f. sf_Type f \<in> manifest_types) (sp_ConfigSchema spec) \<and>
     list_all (\<lambda>f. sf_Type f \<in> manifest_types) (sp_InputSchema spec) \<and>
     list_all (\<lambda>f. sf_Type f \<in> manifest_types) (sp_OutputSchema spec) \<and>
     list_all (\<lambda>s. sec_Name s \<noteq> []) (sp_Secrets spec) \<and>
     list_all (\<lambda>env. env = ''*'' \<or> MatchString envRe env) (elems (sp_CompatibleEnvironments spec))"
    using validateSchema_spec [OF ok(4) assms(3) [unfolded info(3)]] validateSchema_spec [OF ok(5) assms(4) [unfolded info(4)]]
      validateSchema_spec [OF ok(6) assms(5) [unfolded info(5)]] secret_names_mirrored [OF ok(7) assms(2) [unfolded info(6)]]
    unfolding Validate_def mirror_built and_then_None check_None
    by (simp add: info wire_version manifestMaxSchemaVersion_def scan_None platforms_mirrored platforms del: list_all_append)
  then show ?thesis using url by (auto simp: publishable_def)
qed

lemma emitManifestFromSpec_Ok:
  "deriveInfo RF spec = Ok info \<Longrightarrow>
   emitManifestFromSpec RF ks spec = Ok (json_indent 0 (doc_json (buildManifestDoc ks info)) @ [CHR 0x0A])"
  by (simp add: emitManifestFromSpec_def renderManifest_Some)

text \<open>The order of every range loop over a map of the description.\<close>

definition info_orders :: "string list \<Rightarrow> string list \<Rightarrow> string list \<Rightarrow> string list \<Rightarrow> InfoResponse \<Rightarrow> bool" where
  "info_orders ks co io oo info \<longleftrightarrow>
     range_order ks (nmap (in_Secrets info)) \<and> range_order co (nmap (in_ConfigSchema info)) \<and>
     range_order io (nmap (in_InputSchema info)) \<and> range_order oo (nmap (in_OutputSchema info))"

text \<open>C13: the manifest emitted for an accepted spec always parses strictly, and it passes the
  strict validation exactly if the spec is publishable: a name, version and address of the required shape, at least one platform and each of
  the form os/arch, field types among the five of the manifest vocabulary, non-empty secret names, and environments of the required shape.
  The order in which the maps are visited does not matter.\<close>

theorem emitted_manifest_validity:
  assumes "deriveInfo RF spec = Ok info" "list_all utf8_ok (spec_texts spec)" "info_orders ks co io oo info"
  shows "\<exists>bytes m. emitManifestFromSpec RF ks spec = Ok bytes \<and> Parse bytes = Ok m \<and>
    (Validate co io oo m = None \<longleftrightarrow> publishable spec)"
proof -
  have ord: "range_order ks (nmap (in_Secrets info))" "range_order co (nmap (in_ConfigSchema info))"
    "range_order io (nmap (in_InputSchema info))" "range_order oo (nmap (in_OutputSchema info))"
    using assms(3) by (simp_all add: info_orders_def)
  show ?thesis
    by (rule exI, rule exI, rule conjI [OF emitManifestFromSpec_Ok [OF assms(1)]],
        rule conjI [OF Parse_doc [OF spec_doc_utf8 [OF assms(1,2) ord(1)] built_ranges more_newline]
          Validate_spec [OF assms(1) ord]])
qed

lemma sample_texts: "list_all utf8_ok (spec_texts sample_spec)"
  unfolding spec_texts_def sample_spec_def Field_def by (simp del: utf8_ok.simps(2) add: utf8_ascii)

lemma sample_publishable: "publishable sample_spec"
proof -
  have "MatchString nameRe ''greeter''" "MatchString versionRe ''0.1.0''"
    "MatchString urlSchemeRe ''https://example.org/g''" "platform_ok ''linux/amd64''" by code_simp+
  then show ?thesis by (simp add: publishable_def sample_spec_def Field_def manifest_types_def)
qed

lemma sample_orders:
  assumes "deriveInfo RF sample_spec = Ok info"
  shows "info_orders [''TOKEN''] [] [''n'', ''name''] [] info"
proof -
  note info = deriveInfo_Ok [OF assms] and ok = validate_NoneD [OF sample_spec_ok]
  have "dom (nmap (in_Secrets info)) = {''TOKEN''}" "dom (nmap (in_ConfigSchema info)) = {}"
    "dom (nmap (in_InputSchema info)) = {''name'', ''n''}" "dom (nmap (in_OutputSchema info)) = {}"
    unfolding info(3-6) schema_of_spec(1) [OF ok(4)] schema_of_spec(1) [OF ok(5)] schema_of_spec(1) [OF ok(6)] secrets_of_spec(1) [OF ok(7)]
    by (simp_all add: sample_spec_def Field_def)
  then show ?thesis by (auto simp: info_orders_def range_order_def)
qed

theorem emitted_manifest_validity_witness:
  "\<exists>bytes m. emitManifestFromSpec sample_files [''TOKEN''] sample_spec = Ok bytes \<and> Parse bytes = Ok m \<and>
     Validate [] [''n'', ''name''] [] m = None"
proof -
  obtain info where info: "deriveInfo sample_files sample_spec = Ok info" using sample_info by blast
  from emitted_manifest_validity [OF info sample_texts sample_orders [OF info]] sample_publishable show ?thesis by blast
qed


text \<open>Two of the five type names the SDK offers for schema fields, and a platform without an
  architecture, make a spec unpublishable although its own validation accepts it: a spec with a field of type \<open>bool\<close> or
  \<open>list_string\<close>, or with a platform that has no slash, is emitted and parsed but fails the strict validation.\<close>

theorem offered_types_unpublishable:
  assumes "deriveInfo RF spec = Ok info" "list_all utf8_ok (spec_texts spec)" "info_orders ks co io oo info"
    and "(\<exists>f \<in> set (sp_ConfigSchema spec @ sp_InputSchema spec @ sp_OutputSchema spec).
        sf_Type f \<in> {SchemaTypeBool, SchemaTypeListString}) \<or>
      (\<exists>p \<in> set (elems (sp_Platforms spec)). CHR ''/'' \<notin> set p)"
  shows "validate spec = None \<and>
    (\<exists>bytes m e. emitManifestFromSpec RF ks spec = Ok bytes \<and> Parse bytes = Ok m \<and> Validate co io oo m = Some e)"
proof -
  have slash: "platform_ok p \<Longrightarrow> CHR ''/'' \<in> set p" for p by (auto simp: platform_ok_def cut_at_def split: if_splits)
  have types: "t \<notin> manifest_types" if "t \<in> {SchemaTypeBool, SchemaTypeListString}" for t
    using that by (auto simp: SchemaTypeBool_def SchemaTypeListString_def manifest_types_def)
  have no: "\<not> publishable spec"
  proof
    assume "publishable spec"
    then have "\<forall>f \<in> set (sp_ConfigSchema spec @ sp_InputSchema spec @ sp_OutputSchema spec). sf_Type f \<in> manifest_types"
      "\<forall>p \<in> set (elems (sp_Platforms spec)). platform_ok p"
      unfolding publishable_def list_all_iff by simp_all
    with assms(4) types slash show False by blast
  qed
  have ord: "range_order ks (nmap (in_Secrets info))" "range_order co (nmap (in_ConfigSchema info))"
    "range_order io (nmap (in_InputSchema info))" "range_order oo (nmap (in_OutputSchema info))"
    using assms(3) by (simp_all add: info_orders_def)
  from Validate_spec [OF assms(1) ord] no obtain e where
    "Validate co io oo (mirror (buildManifestDoc ks info)) = Some e" by blast
  from conjI [OF Parse_doc [OF spec_doc_utf8 [OF assms(1,2) ord(1)] built_ranges more_newline] this]
  show ?thesis
    by (intro conjI deriveInfo_Ok(1) [OF assms(1)]) (rule exI, rule exI, rule exI, rule conjI [OF emitManifestFromSpec_Ok [OF assms(1)]])
qed

definition flag_spec :: Spec where
  "flag_spec = sample_spec\<lparr>sp_InputSchema := [Field ''loud'' SchemaTypeBool False []], sp_Secrets := [], sp_Examples := []\<rparr>"

theorem offered_types_unpublishable_witness:
  "validate flag_spec = None \<and>
   (\<exists>bytes m e. emitManifestFromSpec sample_files [] flag_spec = Ok bytes \<and> Parse bytes = Ok m \<and>
      Validate [] [''loud''] [] m = Some e)"
proof -
  have ok: "validate flag_spec = None"
    by (simp add: flag_spec_def sample_spec_def validate_def Field_def SchemaTypeBool_def)
  have "\<exists>info. deriveInfo sample_files flag_spec = Ok info"
    unfolding deriveInfo_def ok by (simp add: resolveExamples_def flag_spec_def)
  then obtain info where info: "deriveInfo sample_files flag_spec = Ok info" by blast
  note d = deriveInfo_Ok [OF info] and v = validate_NoneD [OF ok]
  have "dom (nmap (in_Secrets info)) = {}" "dom (nmap (in_ConfigSchema info)) = {}"
    "dom (nmap (in_InputSchema info)) = {''loud''}" "dom (nmap (in_OutputSchema info)) = {}"
    unfolding d(3-6) schema_of_spec(1) [OF v(4)] schema_of_spec(1) [OF v(5)] schema_of_spec(1) [OF v(6)] secrets_of_spec(1) [OF v(7)]
    by (simp_all add: flag_spec_def sample_spec_def Field_def)
  then have ord: "info_orders [] [] [''loud''] [] info" by (simp add: info_orders_def range_order_def)
  have texts: "list_all utf8_ok (spec_texts flag_spec)"
    unfolding spec_texts_def flag_spec_def sample_spec_def Field_def SchemaTypeBool_def
    by (simp del: utf8_ok.simps(2) add: utf8_ascii)
  have "\<exists>f \<in> set (sp_ConfigSchema flag_spec @ sp_InputSchema flag_spec @ sp_OutputSchema flag_spec).
      sf_Type f \<in> {SchemaTypeBool, SchemaTypeListString}"
    by (simp add: flag_spec_def sample_spec_def Field_def)
  from offered_types_unpublishable [OF info texts ord disjI1 [OF this]] show ?thesis .
qed

section \<open>Trailing content\<close>

text \<open>C38: what may follow a manifest. White space is accepted; after it, the parser rejects the
  input if another byte follows, unless that byte is a closing bracket or brace, in which case it accepts it with everything that comes after.\<close>

theorem parse_trailing_content:
  assumes "doc_utf8 (buildManifestDoc ks info)" and "list_all is_space ws" and "\<not> is_space c"
  shows "Parse (json_indent 0 (doc_json (buildManifestDoc ks info)) @ ws) = Ok (mirror (buildManifestDoc ks info)) \<and>
    Parse (json_indent 0 (doc_json (buildManifestDoc ks info)) @ ws @ c # rest) =
      (if c = CHR ''}'' \<or> c = CHR '']'' then Ok (mirror (buildManifestDoc ks info))
       else Err (Errorf [Lit ''parse: unexpected trailing content after manifest'']))"
proof -
  have "dropWhile is_space ws = []" "dropWhile is_space (ws @ c # rest) = c # rest"
    using assms(2,3) by (simp_all add: list_all_iff)
  then have more: "\<not> decoder_more ws" "decoder_more (ws @ c # rest) \<longleftrightarrow> c \<noteq> CHR ''}'' \<and> c \<noteq> CHR '']''"
    unfolding decoder_more_def by (simp_all only: list.case) auto
  show ?thesis unfolding Parse_doc_rest [OF assms(1) built_ranges] using more by auto
qed

lemma sample_doc_utf8:
  assumes "deriveInfo sample_files sample_spec = Ok info"
  shows "doc_utf8 (buildManifestDoc [''TOKEN''] info)"
  using spec_doc_utf8 [OF assms sample_texts] sample_orders [OF assms] by (simp add: info_orders_def)

theorem parse_trailing_content_witness:
  "\<exists>info bytes m. deriveInfo sample_files sample_spec = Ok info \<and>
     json_indent 0 (doc_json (buildManifestDoc [''TOKEN''] info)) = bytes \<and>
     Parse (bytes @ '' } trailing'') = Ok m \<and> Parse (bytes @ '' trailing'') =
       Err (Errorf [Lit ''parse: unexpected trailing content after manifest''])"
proof -
  obtain info where info: "deriveInfo sample_files sample_spec = Ok info" using sample_info by blast
  have sp: "list_all is_space '' ''" "\<not> is_space (CHR ''}'')" "\<not> is_space (CHR ''t'')" by code_simp+
  note brace = parse_trailing_content [OF sample_doc_utf8 [OF info] sp(1,2), of "'' trailing''"]
    and word = parse_trailing_content [OF sample_doc_utf8 [OF info] sp(1,3), of "''railing''"]
  have eqs: "'' } trailing'' = '' '' @ CHR ''}'' # '' trailing''" "'' trailing'' = '' '' @ CHR ''t'' # ''railing''" by simp_all
  show ?thesis
    unfolding eqs(1) using info conjunct2 [OF brace] conjunct2 [OF word] by auto
qed

section \<open>Round trip\<close>

text \<open>A field of a description as the manifest shows it; without a default the key is absent.\<close>

definition manifest_field :: "ConfigFieldProto \<Rightarrow> ManifestField" where
  "manifest_field f =
     \<lparr>mf_Type = cf_Type f, mf_Required = cf_Required f, mf_Description = cf_Description f,
      mf_Default = (if cf_DefaultStr f = [] then GNil else GStr (cf_DefaultStr f)), mf_Sensitive = cf_Sensitive f\<rparr>"

lemma mirror_field_doc: "mirror_field \<circ> field_doc = manifest_field"
proof
  fix f
  show "(mirror_field \<circ> field_doc) f = manifest_field f"
    by (cases "cf_DefaultStr f = []") (simp_all add: mirror_field_def field_doc_def manifest_field_def)
qed

text \<open>A version in decimal digits is not changed by the trimming of white space.\<close>

lemma space_runes_ends: "list_all (\<lambda>p. p \<noteq> [] \<and> \<not> is_digit (hd p) \<and> \<not> is_digit (last p)) space_runes"
  by code_simp

lemma trim_digits:
  assumes "list_all is_digit s" "s \<noteq> []"
  shows "TrimSpace s = s"
proof -
  have ends: "is_digit (hd s)" "is_digit (last s)" using assms by (simp_all add: list_all_iff)
  have "\<not> (take (length p) s = p \<and> p \<noteq> [])" if "p \<in> set space_runes" for p
  proof
    assume p: "take (length p) s = p \<and> p \<noteq> []"
    then have "hd s = hd p" by (metis append_take_drop_id hd_append2)
    with ends(1) that space_runes_ends show False by (auto simp: list_all_iff)
  qed
  then have "strip_rune s = None" by (auto simp: strip_rune_def find_None_iff)
  moreover have "\<not> (length p \<le> length s \<and> drop (length s - length p) s = p \<and> p \<noteq> [])" if "p \<in> set space_runes" for p
  proof
    assume p: "length p \<le> length s \<and> drop (length s - length p) s = p \<and> p \<noteq> []"
    then have "last s = last p" by (metis append_take_drop_id last_appendR)
    with ends(2) that space_runes_ends show False by (auto simp: list_all_iff)
  qed
  then have "strip_last_rune s = None" by (auto simp: strip_last_rune_def find_None_iff)
  ultimately show ?thesis by (simp add: TrimSpace_def trim_left.simps [of s] trim_right.simps [of s])
qed

lemma decimal_version: "n < 2 ^ 63 \<Longrightarrow> sdkProtocolVersion (dec_nat n) = int n"
proof -
  assume "n < 2 ^ 63"
  have "list_all is_digit (dec_nat n)" using dec_nat_digits by (auto simp: list_all_iff)
  moreover have "dec_nat n \<noteq> []" using dec_nat_not_sign [of n] by auto
  ultimately have "TrimSpace (dec_nat n) = dec_nat n" by (rule trim_digits)
  moreover have "Atoi (dec_nat n) = Some (int n)" using Atoi_dec_int [of "int n"] \<open>n < 2 ^ 63\<close> by (simp add: dec_int_def)
  ultimately show ?thesis by (simp add: sdkProtocolVersion_def)
qed

text \<open>How a platform of the manifest reads the string it comes from.\<close>

definition reads_platform :: "string \<Rightarrow> Platform \<Rightarrow> bool" where
  "reads_platform s p \<longleftrightarrow> CHR ''/'' \<notin> set (pl_OS p) \<and>
     (if CHR ''/'' \<in> set s then s = pl_OS p @ ''/'' @ pl_Arch p else s = pl_OS p \<and> pl_Arch p = [])"

lemma platforms_read: "list_all2 reads_platform (elems ps) (map mirror_platform (platformsFromStrings ps))"
proof -
  have "s = takeWhile (\<lambda>x. x \<noteq> c) s @ c # tl (dropWhile (\<lambda>x. x \<noteq> c) s)" if "c \<in> set s" for c :: char and s
    using that by (induction s) auto
  then have "reads_platform s (mirror_platform (case cut_at (CHR ''/'') s of
      None \<Rightarrow> \<lparr>pd_OS = s, pd_Arch = []\<rparr> | Some (os, arch) \<Rightarrow> \<lparr>pd_OS = os, pd_Arch = arch\<rparr>))" for s
    by (auto simp: reads_platform_def mirror_platform_def cut_at_def dest: set_takeWhileD)
  then show ?thesis by (simp add: platformsFromStrings_def list_all2_map2 list.rel_refl)
qed

text \<open>C12: the manifest is read back as it was emitted. If the texts of the description are valid
  UTF-8, the emitted bytes parse strictly, with no unknown key and no trailing content, to a manifest that has the schema version, the name, version,
  description, address, capabilities, permissions and environments of the description, its platforms cut at the first slash, its protocol version
  if that is a decimal number below $2^{63}$, its container image exactly if it names one, every field of every schema with all its attributes and no
  other field, and each secret exactly once with its description, marked required. That is every field of the manifest.\<close>

theorem manifest_round_trip:
  assumes "range_order ks (nmap (in_Secrets info))" and "doc_utf8 (buildManifestDoc ks info)"
  shows "\<exists>bytes m. renderManifest ks (Some info) = Ok bytes \<and> Parse bytes = Ok m \<and>
    ma_SchemaVersion m = 1 \<and> ma_Name m = in_Name info \<and> ma_Version m = in_Version info \<and>
    ma_Description m = in_Description info \<and> ma_SourceURL m = in_SourceUrl info \<and>
    ma_Capabilities m = elems (in_Capabilities info) \<and> list_all2 reads_platform (elems (in_Platforms info)) (ma_Platforms m) \<and>
    (\<forall>n < 2 ^ 63. in_SdkProtocolVersion info = dec_nat n \<longrightarrow> ma_SDKProtocolVersion m = int n) \<and>
    ma_ContainerImage m = (if in_ContainerImage info = [] then None else Some \<lparr>cm_Ref = in_ContainerImage info, cm_Digest = []\<rparr>) \<and>
    ma_Permissions m = elems (in_Permissions info) \<and> ma_CompatibleEnvironments m = elems (in_CompatibleEnvironments info) \<and>
    ma_ConfigSchema m = Some (\<lambda>k. map_option manifest_field (nmap (in_ConfigSchema info) k)) \<and>
    ma_InputSchema m = Some (\<lambda>k. map_option manifest_field (nmap (in_InputSchema info) k)) \<and>
    ma_OutputSchema m = Some (\<lambda>k. map_option manifest_field (nmap (in_OutputSchema info) k)) \<and>
    distinct (map ms_Name (ma_Secrets m)) \<and> list_all ms_Required (ma_Secrets m) \<and>
    (\<forall>name desc. \<lparr>ms_Name = name, ms_Description = desc, ms_Required = True\<rparr> \<in> set (ma_Secrets m) \<longleftrightarrow>
       nmap (in_Secrets info) name = Some desc)"
proof -
  let ?m = "mirror (buildManifestDoc ks info)"
  have parse: "Parse (json_indent 0 (doc_json (buildManifestDoc ks info)) @ [CHR 0x0A]) = Ok ?m"
    by (rule Parse_doc [OF assms(2) built_ranges more_newline])
  have secs: "ma_Secrets ?m = map mirror_secret (secretsFromMap ks (in_Secrets info))" by (simp add: mirror_built)
  note secrets = secrets_mirrored [OF assms(1), folded secs]
  have required: "list_all ms_Required (ma_Secrets ?m)"
    unfolding secs by (simp add: list_all_iff mirror_secret_def secretsFromMap_def)
  have schemas: "ma_ConfigSchema ?m = Some (\<lambda>k. map_option manifest_field (nmap (in_ConfigSchema info) k))"
    "ma_InputSchema ?m = Some (\<lambda>k. map_option manifest_field (nmap (in_InputSchema info) k))"
    "ma_OutputSchema ?m = Some (\<lambda>k. map_option manifest_field (nmap (in_OutputSchema info) k))"
    unfolding mirror_built mirror_schema_proto mirror_field_doc by simp_all
  have platforms: "list_all2 reads_platform (elems (in_Platforms info)) (ma_Platforms ?m)"
    using platforms_read by (simp add: mirror_built)
  have version: "\<forall>n < 2 ^ 63. in_SdkProtocolVersion info = dec_nat n \<longrightarrow> ma_SDKProtocolVersion ?m = int n"
    using decimal_version by (simp add: mirror_built)
  show ?thesis
    unfolding renderManifest_Some
    by (intro exI conjI, rule refl, rule parse) (use secrets required schemas platforms version in \<open>simp_all add: mirror_built\<close>)
qed

theorem manifest_round_trip_witness:
  "\<exists>info bytes m. deriveInfo sample_files sample_spec = Ok info \<and> renderManifest [''TOKEN''] (Some info) = Ok bytes \<and>
     Parse bytes = Ok m \<and> ma_Name m = ''greeter'' \<and> ma_SDKProtocolVersion m = 2 \<and> distinct (map ms_Name (ma_Secrets m)) \<and>
     \<lparr>ms_Name = ''TOKEN'', ms_Description = ''t'', ms_Required = True\<rparr> \<in> set (ma_Secrets m)"
proof -
  obtain info where info: "deriveInfo sample_files sample_spec = Ok info" using sample_info by blast
  note d = deriveInfo_Ok [OF info] and v = validate_NoneD [OF sample_spec_ok]
  have ord: "range_order [''TOKEN''] (nmap (in_Secrets info))" using sample_orders [OF info] by (simp add: info_orders_def)
  have name: "in_Name info = ''greeter''" unfolding d(7) by (simp add: sample_spec_def)
  let ?t = "\<lparr>sec_Name = ''TOKEN'', sec_Description = ''t''\<rparr>"
  have "?t \<in> set (sp_Secrets sample_spec)" by (simp add: sample_spec_def)
  from secrets_of_spec(2) [OF v(7) this] have "nmap (in_Secrets info) ''TOKEN'' = Some ''t''" unfolding d(6) by simp
  moreover obtain bytes m where
    m: "renderManifest [''TOKEN''] (Some info) = Ok bytes" "Parse bytes = Ok m" "ma_Name m = in_Name info"
      "\<forall>n < 2 ^ 63. in_SdkProtocolVersion info = dec_nat n \<longrightarrow> ma_SDKProtocolVersion m = int n"
      "distinct (map ms_Name (ma_Secrets m))"
      "\<forall>name desc. \<lparr>ms_Name = name, ms_Description = desc, ms_Required = True\<rparr> \<in> set (ma_Secrets m) \<longleftrightarrow>
         nmap (in_Secrets info) name = Some desc"
    using manifest_round_trip [OF ord sample_doc_utf8 [OF info]] by blast
  moreover have "in_SdkProtocolVersion info = dec_nat 2" unfolding d(9) wireProtocolVersion_def by code_simp
  moreover have "(2 :: nat) < 2 ^ 63" by simp
  ultimately have "\<lparr>ms_Name = ''TOKEN'', ms_Description = ''t'', ms_Required = True\<rparr> \<in> set (ma_Secrets m)"
    "ma_SDKProtocolVersion m = int 2" by blast+
  then have "\<lparr>ms_Name = ''TOKEN'', ms_Description = ''t'', ms_Required = True\<rparr> \<in> set (ma_Secrets m) \<and>
    ma_SDKProtocolVersion m = 2" by simp
  with info m(1-3,5) show ?thesis unfolding name by blast
qed

end
