(* ===== verification/Serve_Remote.thy ===== *)
theory Serve_Remote
  imports Adapter_Service Go_JSON_Facts
begin

text \<open>
  \<open>src/adapterhost/serve_remote.go\<close>: the phone-home connection. The theory holds the dial decision and
  the handshake line, one served connection, the redial loop with its backoff on 64-bit durations, and the listener
  and connection wrappers as a small state machine. Dialling, the transport and the grpc server are parameters.
\<close>

section \<open>Options\<close>

record RemoteIdentity =
  id_Name :: string
  id_Version :: string
  id_Digest :: string

record ServeRemoteOptions =
  ro_Host :: string
  ro_TLSConfig :: bool
  ro_Identity :: RemoteIdentity
  ro_AcceptToken :: string
  ro_Reconnect :: bool
  ro_InitialDelay :: "64 word"
  ro_MaxDelay :: "64 word"

section \<open>Client certificates\<close>

text \<open>
  \<open>LoadClientTLS\<close>; the readers of \<open>crypto/tls\<close>, \<open>os\<close> and \<open>crypto/x509\<close> are parameters, the last one
  giving the pool of the certificates it found, \<^const>\<open>None\<close> if there are none.
\<close>

record ('cert, 'pool) tls_config =
  tc_Certificates :: "'cert list"
  tc_RootCAs :: 'pool
  tc_MinVersion :: nat

definition VersionTLS12 :: nat where
  "VersionTLS12 = 0x0303"

definition LoadClientTLS ::
  "(string \<Rightarrow> string \<Rightarrow> 'cert result) \<Rightarrow> (string \<Rightarrow> string result) \<Rightarrow> (string \<Rightarrow> 'pool option) \<Rightarrow>
   string \<Rightarrow> string \<Rightarrow> string \<Rightarrow> ('cert, 'pool) tls_config result" where
  "LoadClientTLS LoadX509KeyPair ReadFile AppendCertsFromPEM certPath keyPath caPath =
     bind_result (wrap_err [Lit ''load client key pair: ''] (LoadX509KeyPair certPath keyPath)) (\<lambda>cert.
     bind_result (wrap_err [Lit ''read CA bundle: ''] (ReadFile caPath)) (\<lambda>caPEM.
       case AppendCertsFromPEM caPEM of
         None \<Rightarrow> Err (Errorf [Lit ''parse CA bundle''])
       | Some caPool \<Rightarrow> Ok \<lparr>tc_Certificates = [cert], tc_RootCAs = caPool, tc_MinVersion = VersionTLS12\<rparr>))"

section \<open>Dialling\<close>

text \<open>The three ways to open a connection; on a Unix system an absolute path starts with a slash.\<close>

datatype dial = TLS_Dial string | Net_Dial string string

definition dialRemote :: "string \<Rightarrow> bool \<Rightarrow> dial" where
  "dialRemote host tlsConfig =
     (let network = (if host \<noteq> [] \<and> hd host = CHR ''/'' then ''unix'' else ''tcp'')
      in if tlsConfig \<and> network = ''tcp'' then TLS_Dial host else Net_Dial network host)"

section \<open>The handshake line\<close>

definition handshake_doc :: "RemoteIdentity \<Rightarrow> string \<Rightarrow> gval" where
  "handshake_doc ident token =
     GMap ([(''name'', GStr (id_Name ident)), (''version'', GStr (id_Version ident)),
            (''digest'', GStr (id_Digest ident))] @
           (if token \<noteq> [] then [(''token'', GStr token)] else []) @
           [(''sdk_protocol_version'', GNum ''2'')])"

definition handshake_line :: "RemoteIdentity \<Rightarrow> string \<Rightarrow> string" where
  "handshake_line ident token = json_print (handshake_doc ident token) @ [CHR 0x0A]"

text \<open>The bytes written and the error; the argument says what \<open>conn.Write\<close> answers.\<close>

definition sendHandshake :: "go_error option \<Rightarrow> RemoteIdentity \<Rightarrow> string \<Rightarrow> string \<times> go_error option" where
  "sendHandshake write ident token = (handshake_line ident token, write)"

section \<open>One connection\<close>

text \<open>
  What the world does in one attempt: the result of the dial, of the write of the handshake and, once the
  connection is served, what the grpc server returns.
\<close>

record attempt =
  at_dial :: "go_error option"
  at_write :: "go_error option"
  at_serve :: "go_error option"

text \<open>The result of an attempt: connected or not, the error, what was dialled, what was written, and whether the
  connection was closed by \<open>serveRemoteOnce\<close> itself.\<close>

record once_result =
  on_connected :: bool
  on_err :: "go_error option"
  on_dial :: dial
  on_written :: string
  on_closed :: bool

definition serveRemoteOnce :: "attempt \<Rightarrow> ServeRemoteOptions \<Rightarrow> once_result" where
  "serveRemoteOnce at opts =
     (let d = dialRemote (ro_Host opts) (ro_TLSConfig opts)
      in case at_dial at of
           Some e \<Rightarrow>
             \<lparr>on_connected = False,
              on_err = Some (Wrapf [Lit ''ServeRemote: dial '', Verb_s (ro_Host opts), Lit '': ''] e []),
              on_dial = d, on_written = [], on_closed = False\<rparr>
         | None \<Rightarrow>
             (case sendHandshake (at_write at) (ro_Identity opts) (ro_AcceptToken opts) of
                (line, Some e) \<Rightarrow>
                  \<lparr>on_connected = False, on_err = Some (Wrapf [Lit ''ServeRemote: handshake: ''] e []),
                   on_dial = d, on_written = line, on_closed = True\<rparr>
              | (line, None) \<Rightarrow>
                  \<lparr>on_connected = True, on_err = at_serve at, on_dial = d, on_written = line, on_closed = False\<rparr>))"

section \<open>The redial loop\<close>

definition initial_delay :: "ServeRemoteOptions \<Rightarrow> 64 word" where
  "initial_delay opts = (if sint (ro_InitialDelay opts) \<le> 0 then 1000000000 else ro_InitialDelay opts)"

definition max_delay :: "ServeRemoteOptions \<Rightarrow> 64 word" where
  "max_delay opts = (if sint (ro_MaxDelay opts) \<le> 0 then 30 * 1000000000 else ro_MaxDelay opts)"

definition next_delay :: "64 word \<Rightarrow> 64 word \<Rightarrow> 64 word" where
  "next_delay maxDelay delay = (let d = delay * 2 in if sint d > sint maxDelay then maxDelay else d)"

datatype remote_status = RemoteReturned "go_error option" | RemoteWaiting "64 word list"

fun after_sleep :: "64 word \<Rightarrow> remote_status \<Rightarrow> remote_status" where
  "after_sleep d (RemoteReturned e) = RemoteReturned e"
| "after_sleep d (RemoteWaiting ds) = RemoteWaiting (d # ds)"

text \<open>
  The loop of \<open>ServeRemote\<close> over the attempts made so far, one turn for each: serve once, reset the delay after a connection, sleep, double
  the delay up to the maximum. A loop that has not returned is waiting for the end of its next attempt, with the pauses it has made.
\<close>

fun redial :: "ServeRemoteOptions \<Rightarrow> 64 word \<Rightarrow> 64 word \<Rightarrow> 64 word \<Rightarrow> attempt list \<Rightarrow> remote_status" where
  "redial opts initial maxDelay delay [] = RemoteWaiting []"
| "redial opts initial maxDelay delay (at # ats) =
     (let connected = on_connected (serveRemoteOnce at opts);
          d = (if connected then initial else delay)
      in after_sleep d (redial opts initial maxDelay (next_delay maxDelay d) ats))"

definition ServeRemote :: "ServeRemoteOptions option \<Rightarrow> attempt list \<Rightarrow> remote_status" where
  "ServeRemote opts ats =
     (case opts of
        None \<Rightarrow> RemoteReturned (Some (Errorf [Lit ''ServeRemote: opts is required'']))
      | Some ro \<Rightarrow>
          if ro_Host ro = [] then RemoteReturned (Some (Errorf [Lit ''ServeRemote: Host is required'']))
          else if \<not> ro_Reconnect ro then
            (case ats of
               [] \<Rightarrow> RemoteWaiting []
             | at # _ \<Rightarrow> RemoteReturned (on_err (serveRemoteOnce at ro)))
          else redial ro (initial_delay ro) (max_delay ro) (initial_delay ro) ats)"

section \<open>Listener and connection\<close>

text \<open>
  The state of one served connection: the single-connection listener, the close signal of the wrapped
  connection, and the goroutine that waits for the signal to close the listener. \<open>handed\<close> counts how often the
  connection was handed out.
\<close>

record conn_state =
  used :: bool
  lis_closed :: bool
  signalled :: bool
  watcher_done :: bool
  handed :: nat

definition newSingleConnListener :: conn_state where
  "newSingleConnListener =
     \<lparr>used = False, lis_closed = False, signalled = False, watcher_done = False, handed = 0\<rparr>"

datatype accept_result = GotConn | ListenerClosed

text \<open>\<^const>\<open>None\<close>: the call blocks.\<close>

definition Accept :: "conn_state \<Rightarrow> (accept_result \<times> conn_state) option" where
  "Accept s =
     (if \<not> used s then Some (GotConn, s\<lparr>used := True, handed := Suc (handed s)\<rparr>)
      else if lis_closed s then Some (ListenerClosed, s)
      else None)"

definition close_listener :: "conn_state \<Rightarrow> conn_state" where
  "close_listener s = (if lis_closed s then s else s\<lparr>lis_closed := True\<rparr>)"

text \<open>\<open>closeSignalConn.Close\<close>: \<open>sync.Once\<close> makes the first call close the channel.\<close>

definition close_conn :: "conn_state \<Rightarrow> conn_state" where
  "close_conn s = (if signalled s then s else s\<lparr>signalled := True\<rparr>)"

definition watcher :: "conn_state \<Rightarrow> conn_state option" where
  "watcher s =
     (if signalled s \<and> \<not> watcher_done s then Some ((close_listener s)\<lparr>watcher_done := True\<rparr>) else None)"

inductive conn_step :: "conn_state \<Rightarrow> conn_state \<Rightarrow> bool" where
  accept: "Accept s = Some (r, t) \<Longrightarrow> conn_step s t"
| server_close: "conn_step s (close_listener s)"
| conn_close: "conn_step s (close_conn s)"
| watch: "watcher s = Some t \<Longrightarrow> conn_step s t"

inductive_cases conn_stepE: "conn_step s t"

section \<open>The handshake\<close>

lemma handshake_doc_line: "CHR 0x0A \<notin> set (json_print (handshake_doc ident token))"
  by (simp add: handshake_doc_def json_quote_line)

lemma handshake_doc_ok:
  assumes "list_all utf8_ok [id_Name ident, id_Version ident, id_Digest ident, token]"
  shows "json_ok (handshake_doc ident token)" "depth (handshake_doc ident token) \<le> max_nesting_depth"
proof -
  have "number_ok ''2''" by code_simp
  then show "json_ok (handshake_doc ident token)" using assms by (simp add: handshake_doc_def)
  have "depth (handshake_doc ident token) = 1" by (simp add: handshake_doc_def)
  then show "depth (handshake_doc ident token) \<le> max_nesting_depth" by (simp add: max_nesting_depth_def)
qed

text \<open>C28: the handshake is one line. Whatever the identity and the token hold, the only newline the
  adapter writes before grpc frames flow is the last byte, and for valid UTF-8 texts the line is a JSON object from which the host reads back the
  name, the version, the digest, the protocol version 2, and the token exactly if one is set.\<close>

theorem handshake_is_one_line:
  assumes "list_all utf8_ok [id_Name ident, id_Version ident, id_Digest ident, token]"
  shows "\<exists>body kvs. sendHandshake w ident token = (body @ [CHR 0x0A], w) \<and> CHR 0x0A \<notin> set body \<and>
    json_parse (body @ [CHR 0x0A]) = Some (GMap kvs) \<and>
    map_of kvs ''name'' = Some (GStr (id_Name ident)) \<and> map_of kvs ''version'' = Some (GStr (id_Version ident)) \<and>
    map_of kvs ''digest'' = Some (GStr (id_Digest ident)) \<and> map_of kvs ''sdk_protocol_version'' = Some (GNum ''2'') \<and>
    map_of kvs ''token'' = (if token = [] then None else Some (GStr token))"
proof -
  let ?doc = "handshake_doc ident token"
  have "is_space (CHR 0x0A)" by code_simp
  then have parse: "json_parse (json_print ?doc @ [CHR 0x0A]) = Some ?doc"
    using json_parse_print(1) [OF handshake_doc_ok [OF assms], of "CHR 0x0A" "[]"] by simp
  obtain kvs where kvs: "?doc = GMap kvs" "kvs = [(''name'', GStr (id_Name ident)), (''version'', GStr (id_Version ident)),
      (''digest'', GStr (id_Digest ident))] @ (if token \<noteq> [] then [(''token'', GStr token)] else []) @
      [(''sdk_protocol_version'', GNum ''2'')]" by (simp add: handshake_doc_def)
  show ?thesis
    using parse handshake_doc_line [of ident token]
    by (intro exI [of _ "json_print ?doc"] exI [of _ kvs]) (simp add: sendHandshake_def handshake_line_def kvs)
qed

theorem handshake_is_one_line_witness:
  "\<exists>body kvs. sendHandshake None \<lparr>id_Name = [CHR ''a'', CHR 0x0A], id_Version = ''1'', id_Digest = []\<rparr> ''t'' = (body @ [CHR 0x0A], None) \<and>
     CHR 0x0A \<notin> set body \<and> json_parse (body @ [CHR 0x0A]) = Some (GMap kvs) \<and>
     map_of kvs ''name'' = Some (GStr [CHR ''a'', CHR 0x0A])"
proof -
  have "list_all utf8_ok [[CHR ''a'', CHR 0x0A], ''1'', [], ''t'']" by simp
  then show ?thesis
    using handshake_is_one_line [of "\<lparr>id_Name = [CHR ''a'', CHR 0x0A], id_Version = ''1'', id_Digest = []\<rparr>" "''t''" None]
    by auto
qed

section \<open>Properties of the connection\<close>

definition conn_inv :: "conn_state \<Rightarrow> bool" where
  "conn_inv s \<longleftrightarrow> handed s = (if used s then 1 else 0) \<and> (watcher_done s \<longrightarrow> signalled s \<and> lis_closed s)"

interpretation conn: invariant_system newSingleConnListener conn_step conn_inv
proof unfold_locales
  show "conn_inv newSingleConnListener" by (simp add: conn_inv_def newSingleConnListener_def)
  show "conn_inv t" if "conn_inv s" "conn_step s t" for s t
    using that(2,1)
    by (cases rule: conn_stepE)
      (auto simp: conn_inv_def Accept_def close_listener_def close_conn_def watcher_def split: if_splits)
qed

text \<open>C26: the dialled connection is handed to the grpc server at most once, and a server that waits in
  \<open>Accept\<close> for another one is released once that connection is closed: at most one step of the watching goroutine later, \<open>Accept\<close> returns the
  closed-listener error, so serving ends.\<close>

theorem closed_connection_ends_serve:
  assumes "conn_step\<^sup>*\<^sup>* newSingleConnListener s" "used s" "signalled s"
  shows "handed s = 1 \<and> (\<exists>t. (t = s \<or> watcher s = Some t) \<and> conn_step\<^sup>*\<^sup>* s t \<and>
    Accept t = Some (ListenerClosed, t))"
proof -
  have inv: "conn_inv s" by (rule conn.reachable_inv [OF assms(1)])
  show ?thesis
  proof (cases "watcher_done s")
    case True
    with inv assms(2) show ?thesis by (auto simp: conn_inv_def Accept_def)
  next
    case False
    let ?t = "(close_listener s)\<lparr>watcher_done := True\<rparr>"
    from False assms(3) have w: "watcher s = Some ?t" by (simp add: watcher_def)
    have "Accept ?t = Some (ListenerClosed, ?t)" using assms(2) by (simp add: Accept_def close_listener_def)
    moreover have "handed s = 1" using inv assms(2) by (simp add: conn_inv_def)
    ultimately show ?thesis using w conn_step.watch [OF w] by (intro conjI exI [of _ ?t]) auto
  qed
qed

definition sample_conn :: conn_state where
  "sample_conn = \<lparr>used = True, lis_closed = False, signalled = True, watcher_done = False, handed = 1\<rparr>"

lemma sample_conn_reachable: "conn_step\<^sup>*\<^sup>* newSingleConnListener sample_conn"
proof -
  have "conn_step newSingleConnListener (newSingleConnListener\<lparr>used := True, handed := 1\<rparr>)"
    by (rule conn_step.accept [of _ GotConn]) (simp add: Accept_def newSingleConnListener_def)
  moreover have "conn_step (newSingleConnListener\<lparr>used := True, handed := 1\<rparr>) sample_conn"
    using conn_step.conn_close [of "newSingleConnListener\<lparr>used := True, handed := 1\<rparr>"]
    by (simp add: close_conn_def newSingleConnListener_def sample_conn_def)
  ultimately show ?thesis by (meson converse_rtranclp_into_rtranclp r_into_rtranclp)
qed

theorem closed_connection_ends_serve_witness:
  "\<exists>t. conn_step\<^sup>*\<^sup>* sample_conn t \<and> Accept t = Some (ListenerClosed, t)"
  using closed_connection_ends_serve [OF sample_conn_reachable] by (auto simp: sample_conn_def)

section \<open>The backoff schedule\<close>
















section \<open>Where the cap does not hold\<close>









end
