(* ===== verification/Adapter_Serve.thy ===== *)
theory Adapter_Serve
  imports Publishing Serve_Remote
begin

text \<open>
  \<open>src/adapterhost/serve.go\<close>, \<open>src/adapterhost/handshake.go\<close> and the entry points of
  \<open>src/adapterhost/spec.go\<close>: a service as the methods the bridge calls, the routing of the grpc server, the log stream with its
  heartbeat as a state machine, and what the process does when it is started. The plugin framework and grpc are not modelled.
\<close>

section \<open>A service\<close>

text \<open>
  The value of type \<open>Service\<close>: what each method answers. A log implementation is a program that need not
  return. The optional verbs are there if the implementation also has the methods of
  \<open>OptionalVerbs\<close>.
\<close>

record OptionalVerbs =
  ov_Pause :: "string \<Rightarrow> unit result"
  ov_Resume :: "string \<Rightarrow> unit result"
  ov_Snapshot :: "string \<Rightarrow> SnapshotState result"
  ov_Restore :: "string \<times> 8 word slice \<times> 32 word \<Rightarrow> unit result"
  ov_Inspect :: "string \<Rightarrow> InspectResponse result"

record Service =
  sv_Info :: "InfoResponse option result"
  sv_OpenSession :: "OpenSessionRequest \<Rightarrow> unit result"
  sv_Execute :: "transport \<Rightarrow> ExecuteRequest \<Rightarrow> ExecuteEvent outbox \<Rightarrow> (go_error option \<times> ExecuteEvent outbox) option"
  sv_Log :: "string \<times> string \<Rightarrow> log_action"
  sv_Permissions :: "turn list \<Rightarrow> PermissionDecision list \<times> loop_status"
  sv_CloseSession :: "string \<Rightarrow> unit result"
  sv_OptionalVerbs :: "OptionalVerbs option"

definition optionalVerbsOf :: "Service \<Rightarrow> OptionalVerbs option" where
  "optionalVerbsOf impl = sv_OptionalVerbs impl"

text \<open>The service of a spec, \<open>specService\<close>.\<close>

record spec_world =
  sw_ReadFile :: "string \<Rightarrow> string result"
  sw_chunks :: chunk_env
  sw_struct :: struct_env
  sw_status :: "go_error \<Rightarrow> grpc_code"

definition specService :: "spec_world \<Rightarrow> Spec \<Rightarrow> Service" where
  "specService w spec =
     \<lparr>sv_Info = bind_result (Info (sw_ReadFile w) spec) (\<lambda>i. Ok (Some i)),
      sv_OpenSession = OpenSession spec,
      sv_Execute = (\<lambda>net. Execute (sw_chunks w) net spec),
      sv_Log = Log spec,
      sv_Permissions = spec_Permissions (sw_status w) spec,
      sv_CloseSession = CloseSession spec,
      sv_OptionalVerbs = Some \<lparr>ov_Pause = Pause spec, ov_Resume = Resume spec, ov_Snapshot = Snapshot spec,
        ov_Restore = Restore spec, ov_Inspect = Inspect (sw_struct w) spec\<rparr>\<rparr>"

section \<open>The grpc server\<close>

record grpcAdapterServer =
  gs_impl :: Service
  gs_verbs :: "OptionalVerbs option"

definition GRPCServer :: "Service option \<Rightarrow> grpcAdapterServer result" where
  "GRPCServer impl =
     (case impl of
        None \<Rightarrow> Err (Errorf [Lit ''adapter implementation is nil''])
      | Some i \<Rightarrow> Ok \<lparr>gs_impl = i, gs_verbs = optionalVerbsOf i\<rparr>)"

definition GRPCClient :: "'a result" where
  "GRPCClient = Err (Errorf [Lit ''GRPCClient is not implemented in the adapter process''])"

definition server_Info :: "grpcAdapterServer \<Rightarrow> InfoResponse option result" where
  "server_Info s = sv_Info (gs_impl s)"

definition server_OpenSession :: "grpcAdapterServer \<Rightarrow> OpenSessionRequest \<Rightarrow> unit result" where
  "server_OpenSession s req = sv_OpenSession (gs_impl s) req"

definition server_Execute ::
  "grpcAdapterServer \<Rightarrow> transport \<Rightarrow> ExecuteRequest \<Rightarrow> ExecuteEvent outbox \<Rightarrow> (go_error option \<times> ExecuteEvent outbox) option" where
  "server_Execute s net req out = sv_Execute (gs_impl s) net req out"

definition server_Permissions :: "grpcAdapterServer \<Rightarrow> turn list \<Rightarrow> PermissionDecision list \<times> loop_status" where
  "server_Permissions s stream = sv_Permissions (gs_impl s) stream"

definition server_CloseSession :: "grpcAdapterServer \<Rightarrow> string \<Rightarrow> unit result" where
  "server_CloseSession s sid = sv_CloseSession (gs_impl s) sid"

definition server_Pause :: "grpcAdapterServer \<Rightarrow> string \<Rightarrow> unit result" where
  "server_Pause s req = (case gs_verbs s of None \<Rightarrow> Err (unimplementedVerb ''Pause'') | Some v \<Rightarrow> ov_Pause v req)"

definition server_Resume :: "grpcAdapterServer \<Rightarrow> string \<Rightarrow> unit result" where
  "server_Resume s req = (case gs_verbs s of None \<Rightarrow> Err (unimplementedVerb ''Resume'') | Some v \<Rightarrow> ov_Resume v req)"

definition server_Snapshot :: "grpcAdapterServer \<Rightarrow> string \<Rightarrow> SnapshotState result" where
  "server_Snapshot s req = (case gs_verbs s of None \<Rightarrow> Err (unimplementedVerb ''Snapshot'') | Some v \<Rightarrow> ov_Snapshot v req)"

definition server_Restore :: "grpcAdapterServer \<Rightarrow> string \<times> 8 word slice \<times> 32 word \<Rightarrow> unit result" where
  "server_Restore s req = (case gs_verbs s of None \<Rightarrow> Err (unimplementedVerb ''Restore'') | Some v \<Rightarrow> ov_Restore v req)"

definition server_Inspect :: "grpcAdapterServer \<Rightarrow> string \<Rightarrow> InspectResponse result" where
  "server_Inspect s req = (case gs_verbs s of None \<Rightarrow> Err (unimplementedVerb ''Inspect'') | Some v \<Rightarrow> ov_Inspect v req)"

section \<open>The log stream\<close>

text \<open>
  The heartbeat runner is a variable guarded by a mutex; swapping it returns the one before. The type of
  runners is left open, and what a runner sends is any number of heartbeat events at any time.
\<close>

definition currentLogHeartbeatRunner :: "'r \<Rightarrow> 'r" where
  "currentLogHeartbeatRunner runner = runner"

definition setLogHeartbeatRunner :: "'r \<Rightarrow> 'r \<Rightarrow> 'r \<times> 'r" where
  "setLogHeartbeatRunner r runner = (runner, r)"

definition heartbeat_event :: LogEvent where
  "heartbeat_event = \<lparr>le_SessionId = [], le_StepName = [], le_StreamName = [], le_Line = [], le_Heartbeat = True\<rparr>"

text \<open>
  The state of one \<open>Log\<close> call: the stream, the goroutine of the implementation (\<^const>\<open>None\<close> once it has
  returned), the channel it answers on, the handler, and whether the stream context is done. The fields \<open>lg_sent\<close> and
  \<open>lg_result\<close> record what the implementation delivered and returned.
\<close>

datatype log_handler = AwaitResult | AwaitCancel | LogReturned "go_error option"

record log_call =
  lg_out :: "LogEvent outbox"
  lg_impl :: "log_action option"
  lg_errCh :: "go_error option option"
  lg_handler :: log_handler
  lg_done :: bool
  lg_sent :: "LogEvent list"
  lg_result :: "go_error option option"

definition log_start :: "grpcAdapterServer \<Rightarrow> string \<times> string \<Rightarrow> log_call" where
  "log_start s req =
     \<lparr>lg_out = (0, []), lg_impl = Some (sv_Log (gs_impl s) req), lg_errCh = None, lg_handler = AwaitResult,
      lg_done = False, lg_sent = [], lg_result = None\<rparr>"

text \<open>One send of the implementation or of the heartbeat holds the mutex of \<open>grpcLogEventServer\<close>, so it is one step.\<close>

definition impl_step :: "transport \<Rightarrow> log_call \<Rightarrow> log_call option" where
  "impl_step net s =
     (case lg_impl s of
        None \<Rightarrow> None
      | Some (LogEnd e) \<Rightarrow> Some (s\<lparr>lg_impl := None, lg_errCh := Some e, lg_result := Some e\<rparr>)
      | Some (LogSend ev k) \<Rightarrow>
          (case send_msg net ev (lg_out s) of (e, out) \<Rightarrow>
             Some (s\<lparr>lg_out := out, lg_impl := Some (k e),
               lg_sent := (if e = None then lg_sent s @ [ev] else lg_sent s)\<rparr>))
      | Some (LogBlock p) \<Rightarrow> if lg_done s then Some (s\<lparr>lg_impl := Some p\<rparr>) else None
      | Some (LogLook k) \<Rightarrow> Some (s\<lparr>lg_impl := Some (k (lg_done s))\<rparr>))"

definition heartbeat_step :: "transport \<Rightarrow> log_call \<Rightarrow> log_call" where
  "heartbeat_step net s = s\<lparr>lg_out := snd (send_msg net heartbeat_event (lg_out s))\<rparr>"

definition handler_step :: "log_call \<Rightarrow> log_call option" where
  "handler_step s =
     (case lg_handler s of
        AwaitResult \<Rightarrow>
          (case lg_errCh s of
             None \<Rightarrow> None
           | Some (Some e) \<Rightarrow> Some (s\<lparr>lg_errCh := None, lg_handler := LogReturned (Some e)\<rparr>)
           | Some None \<Rightarrow> Some (s\<lparr>lg_errCh := None, lg_handler := AwaitCancel\<rparr>))
      | AwaitCancel \<Rightarrow> if lg_done s then Some (s\<lparr>lg_handler := LogReturned None\<rparr>) else None
      | LogReturned r \<Rightarrow> None)"

inductive log_step :: "transport \<Rightarrow> log_call \<Rightarrow> log_call \<Rightarrow> bool" for net where
  impl: "impl_step net s = Some t \<Longrightarrow> log_step net s t"
| heartbeat: "log_step net s (heartbeat_step net s)"
| handler: "handler_step s = Some t \<Longrightarrow> log_step net s t"
| cancel: "log_step net s (s\<lparr>lg_done := True\<rparr>)"

section \<open>Starting the process\<close>

record HandshakeConfig =
  hc_ProtocolVersion :: nat
  hc_MagicCookieKey :: string
  hc_MagicCookieValue :: string

definition MagicCookieKey :: string where "MagicCookieKey = ''CRITERIA_PLUGIN''"
definition MagicCookieValue :: string where "MagicCookieValue = ''7a1bf31f-c805-4e75-a31c-22195c9fdd4c''"

definition theHandshakeConfig :: HandshakeConfig where
  "theHandshakeConfig =
     \<lparr>hc_ProtocolVersion = 2, hc_MagicCookieKey = MagicCookieKey, hc_MagicCookieValue = MagicCookieValue\<rparr>"

definition AdapterName :: string where "AdapterName = ''adapter''"

text \<open>
  What a start amounts to: the manifest on standard output, an exit with status 1 and the error on standard
  error, or the plugin server with its configuration.
\<close>

datatype start =
    WroteManifest string
  | ExitedLoudly go_error
  | ServedPlugins HandshakeConfig "(string \<times> Service option) list"

record process =
  pr_args :: "string list"
  pr_stdout :: "go_error option"

definition Serve :: "process \<Rightarrow> string list \<Rightarrow> Service option \<Rightarrow> start" where
  "Serve p ks impl =
     (case runEmitManifestIfRequested (pr_args p) (pr_stdout p) (emitManifestFromService ks (map_option sv_Info impl)) of
        Emitted b \<Rightarrow> WroteManifest b
      | Exited e \<Rightarrow> ExitedLoudly e
      | NotRequested \<Rightarrow> ServedPlugins theHandshakeConfig [(AdapterName, impl)])"

definition ServeSpec :: "spec_world \<Rightarrow> process \<Rightarrow> string list \<Rightarrow> Spec option \<Rightarrow> start" where
  "ServeSpec w p ks spec =
     (case SpecService spec of
        Inl e \<Rightarrow> ExitedLoudly e
      | Inr s \<Rightarrow>
          (case runEmitManifestIfRequested (pr_args p) (pr_stdout p) (emitManifestFromSpec (sw_ReadFile w) ks s) of
             Emitted b \<Rightarrow> WroteManifest b
           | Exited e \<Rightarrow> ExitedLoudly e
           | NotRequested \<Rightarrow> Serve p ks (Some (specService w s))))"

definition zero_options :: ServeRemoteOptions where
  "zero_options = \<lparr>ro_Host = [], ro_TLSConfig = False, ro_Identity = \<lparr>id_Name = [], id_Version = [], id_Digest = []\<rparr>,
     ro_AcceptToken = [], ro_Reconnect = False, ro_InitialDelay = 0, ro_MaxDelay = 0\<rparr>"

definition identity_defaults :: "Spec \<Rightarrow> RemoteIdentity \<Rightarrow> RemoteIdentity" where
  "identity_defaults spec i =
     i\<lparr>id_Name := (if id_Name i = [] then sp_Name spec else id_Name i),
       id_Version := (if id_Version i = [] then sp_Version spec else id_Version i)\<rparr>"

definition ServeSpecRemote :: "Spec option \<Rightarrow> ServeRemoteOptions option \<Rightarrow> attempt list \<Rightarrow> remote_status" where
  "ServeSpecRemote spec opts ats =
     (let ro = (case opts of None \<Rightarrow> zero_options | Some ro \<Rightarrow> ro)
      in case SpecService spec of
           Inl e \<Rightarrow> RemoteReturned (Some e)
         | Inr s \<Rightarrow> ServeRemote (Some (ro\<lparr>ro_Identity := identity_defaults s (ro_Identity ro)\<rparr>)) ats)"

end
