(* ===== verification/Serve_Properties.thy ===== *)
theory Serve_Properties
  imports Adapter_Serve
begin

text \<open>
  What serving guarantees (\<open>src/adapterhost/serve.go\<close>): the lifetime and the contents of a log stream,
  which errors a verb gives, and that the two ways to start an adapter agree.
\<close>

section \<open>The lifetime of a log stream\<close>

definition log_inv :: "log_call \<Rightarrow> bool" where
  "log_inv t \<longleftrightarrow>
     (lg_impl t = None \<longleftrightarrow> lg_result t \<noteq> None) \<and>
     (case lg_handler t of
        AwaitResult \<Rightarrow> lg_errCh t = lg_result t
      | AwaitCancel \<Rightarrow> lg_result t = Some None
      | LogReturned r \<Rightarrow> lg_result t = Some r \<and> (r = None \<longrightarrow> lg_done t))"

lemma log_inv_step:
  assumes "log_inv s" "log_step net s t"
  shows "log_inv t"
  using assms(2,1)
proof (cases rule: log_step.cases)
  case impl
  with assms(1) show ?thesis
    by (auto simp: log_inv_def impl_step_def
        split: option.splits log_action.splits log_handler.splits prod.splits if_splits)
next
  case heartbeat
  with assms(1) show ?thesis by (auto simp: log_inv_def heartbeat_step_def split: log_handler.splits)
next
  case handler
  with assms(1) show ?thesis
    by (auto simp: log_inv_def handler_step_def split: option.splits log_handler.splits if_splits)
next
  case cancel
  with assms(1) show ?thesis by (auto simp: log_inv_def split: log_handler.splits)
qed

interpretation log_call: invariant_system "log_start s req" "log_step net" log_inv for s req net
  by unfold_locales (auto simp: log_inv_step, simp add: log_inv_def log_start_def)

text \<open>C20: the lifetime of a log stream. An error of the implementation is what the handler returns,
  in its next step and without waiting for the host; after a normal return of the implementation the stream stays open, and the handler returns
  without error exactly when the host has ended the stream: at most two of its own steps later, and never before.\<close>

theorem log_stream_lifetime:
  assumes "(log_step net)\<^sup>*\<^sup>* (log_start s req) t"
  shows "(\<forall>e. lg_result t = Some (Some e) \<longrightarrow>
      lg_handler t = LogReturned (Some e) \<or> map_option lg_handler (handler_step t) = Some (LogReturned (Some e))) \<and>
    (lg_result t = Some None \<and> \<not> lg_done t \<longrightarrow> lg_handler t = AwaitResult \<or> lg_handler t = AwaitCancel) \<and>
    (lg_result t = Some None \<and> lg_done t \<longrightarrow>
      lg_handler t = LogReturned None \<or> map_option lg_handler (handler_step t) = Some (LogReturned None) \<or>
      map_option lg_handler (Option.bind (handler_step t) handler_step) = Some (LogReturned None)) \<and>
    (\<forall>r. lg_handler t = LogReturned r \<longrightarrow> lg_result t = Some r \<and> (r = None \<longrightarrow> lg_done t))"
proof -
  have "log_inv t" by (rule log_call.reachable_inv [OF assms])
  then show ?thesis
    by (cases "lg_handler t") (auto simp: log_inv_def handler_step_def split: option.splits)
qed

definition quiet_service :: Service where
  "quiet_service = \<lparr>sv_Info = Ok None, sv_OpenSession = (\<lambda>_. Ok ()), sv_Execute = (\<lambda>_ _ out. Some (None, out)),
     sv_Log = (\<lambda>_. LogEnd None), sv_Permissions = (\<lambda>_. ([], Waiting)), sv_CloseSession = (\<lambda>_. Ok ()), sv_OptionalVerbs = None\<rparr>"

definition quiet_server :: grpcAdapterServer where
  "quiet_server = \<lparr>gs_impl = quiet_service, gs_verbs = None\<rparr>"

theorem log_stream_lifetime_witness:
  "\<exists>t. (log_step (\<lambda>_. None))\<^sup>*\<^sup>* (log_start quiet_server ([], [])) t \<and> lg_result t = Some None \<and> \<not> lg_done t \<and>
     (lg_handler t = AwaitResult \<or> lg_handler t = AwaitCancel)"
proof -
  let ?s = "log_start quiet_server ([], [])"
  let ?t = "?s\<lparr>lg_impl := None, lg_errCh := Some None, lg_result := Some None\<rparr>"
  have "impl_step (\<lambda>_. None) ?s = Some ?t" by (simp add: impl_step_def log_start_def quiet_server_def quiet_service_def)
  then have run: "(log_step (\<lambda>_. None))\<^sup>*\<^sup>* ?s ?t" by (intro r_into_rtranclp log_step.impl)
  have t: "lg_result ?t = Some None" "\<not> lg_done ?t" by (simp_all add: log_start_def)
  from conjunct1 [OF conjunct2 [OF log_stream_lifetime [OF run]]] t run show ?thesis by blast
qed

section \<open>The contents of a log stream\<close>

lemma shuffles_snoc_left: "xs \<in> shuffles ys zs \<Longrightarrow> xs @ [y] \<in> shuffles (ys @ [y]) zs"
proof (induction ys zs arbitrary: xs rule: shuffles.induct)
  case (2 ys)
  then show ?case by simp
next
  case (1 zs)
  then show ?case
  proof -
    have "zs @ [y] \<in> shuffles [y] zs" by (induction zs) (auto simp: Cons_in_shuffles_rightI)
    with 1 show ?thesis by simp
  qed
next
  case (3 a ys b zs)
  then show ?case by (auto simp: shuffles.simps(3))
qed

lemma shuffles_snoc_right: "xs \<in> shuffles ys zs \<Longrightarrow> xs @ [z] \<in> shuffles ys (zs @ [z])"
  using shuffles_snoc_left [of xs zs ys z] by (simp add: shuffles_commutes)

definition stream_inv :: "log_call \<Rightarrow> bool" where
  "stream_inv t \<longleftrightarrow> (\<exists>n. snd (lg_out t) \<in> shuffles (lg_sent t) (replicate n heartbeat_event))"

lemma stream_inv_step:
  assumes "stream_inv s" "log_step net s t"
  shows "stream_inv t"
proof -
  obtain n where n: "snd (lg_out s) \<in> shuffles (lg_sent s) (replicate n heartbeat_event)"
    using assms(1) by (auto simp: stream_inv_def)
  from shuffles_snoc_right [OF n, of heartbeat_event] have beat:
    "snd (lg_out s) @ [heartbeat_event] \<in> shuffles (lg_sent s) (replicate (Suc n) heartbeat_event)"
    by (simp add: replicate_append_same)
  from assms(2) show ?thesis
  proof (cases rule: log_step.cases)
    case impl
    with n show ?thesis
      unfolding stream_inv_def
      by (intro exI [of _ n]) (auto simp: impl_step_def send_msg_def shuffles_snoc_left
          split: option.splits log_action.splits if_splits)
  next
    case heartbeat
    show ?thesis
    proof (cases "net (fst (lg_out s))")
      case None
      with heartbeat beat show ?thesis
        unfolding stream_inv_def heartbeat_step_def by (intro exI [of _ "Suc n"]) (simp add: send_msg_def)
    next
      case (Some e)
      with heartbeat n show ?thesis
        unfolding stream_inv_def heartbeat_step_def by (intro exI [of _ n]) (simp add: send_msg_def)
    qed
  next
    case handler
    with n show ?thesis
      by (auto simp: stream_inv_def handler_step_def split: option.splits log_handler.splits if_splits)
  next
    case cancel
    with n show ?thesis by (auto simp: stream_inv_def)
  qed
qed

text \<open>What is left to run of a spec's log handler: nothing, or the program of some lines.\<close>

lemma spec_log_goes_on:
  "spec_log input p = LogSend ev k \<Longrightarrow> stamped input ev \<and> (\<forall>e. \<exists>q. k e = spec_log input q)"
  "spec_log input p = LogBlock a \<Longrightarrow> \<exists>q. a = spec_log input q"
  "spec_log input p = LogLook l \<Longrightarrow> \<exists>q. l d = spec_log input q"
  by (cases p; fastforce dest: Line_stamped split: sum.splits)+

definition spec_stream_inv :: "LogInput \<Rightarrow> log_call \<Rightarrow> bool" where
  "spec_stream_inv input t \<longleftrightarrow>
     stream_inv t \<and> list_all (stamped input) (lg_sent t) \<and> (\<forall>a. lg_impl t = Some a \<longrightarrow> (\<exists>q. a = spec_log input q))"

lemma spec_stream_inv_step:
  assumes "spec_stream_inv input s" "log_step net s t"
  shows "spec_stream_inv input t"
proof -
  have inv: "stream_inv t" using assms stream_inv_step by (auto simp: spec_stream_inv_def)
  from assms(2) show ?thesis
  proof (cases rule: log_step.cases)
    case impl
    obtain a where a: "lg_impl s = Some a" using impl by (auto simp: impl_step_def split: option.splits)
    then obtain q where q: "a = spec_log input q" using assms(1) by (auto simp: spec_stream_inv_def)
    show ?thesis
    proof (cases a)
      case (LogEnd e)
      with a impl assms(1) inv show ?thesis by (auto simp: spec_stream_inv_def impl_step_def)
    next
      case (LogSend ev k)
      with spec_log_goes_on(1) [of input q ev k] q have "stamped input ev" "\<And>e. \<exists>q. k e = spec_log input q" by auto
      with LogSend a impl assms(1) inv show ?thesis
        by (auto simp: spec_stream_inv_def impl_step_def split: prod.splits)
    next
      case (LogBlock b)
      with spec_log_goes_on(2) [of input q b] q have "\<exists>q. b = spec_log input q" by simp
      moreover have "lg_sent t = lg_sent s" "lg_impl t = Some b"
        using LogBlock a impl by (auto simp: impl_step_def split: if_splits)
      ultimately show ?thesis using assms(1) inv by (simp add: spec_stream_inv_def)
    next
      case (LogLook l)
      with spec_log_goes_on(3) [of input q l "lg_done s"] q have "\<exists>q. l (lg_done s) = spec_log input q" by simp
      moreover have "lg_sent t = lg_sent s" "lg_impl t = Some (l (lg_done s))" using LogLook a impl by (auto simp: impl_step_def)
      ultimately show ?thesis using assms(1) inv by (simp add: spec_stream_inv_def)
    qed
  qed (use assms(1) inv in \<open>auto simp: spec_stream_inv_def heartbeat_step_def handler_step_def
      split: option.splits log_handler.splits if_splits\<close>)
qed

lemma spec_stream_inv_start:
  "spec_stream_inv \<lparr>li_SessionID = sid, li_StepName = step\<rparr>
     (log_start \<lparr>gs_impl = specService w spec, gs_verbs = vs\<rparr> (sid, step))"
proof -
  let ?input = "\<lparr>li_SessionID = sid, li_StepName = step\<rparr>"
  have "\<exists>q. sv_Log (specService w spec) (sid, step) = spec_log ?input q"
  proof (cases "sp_Log spec")
    case None
    then have "sv_Log (specService w spec) (sid, step) = spec_log ?input (LogReturn None)" by (simp add: specService_def Log_def)
    then show ?thesis by blast
  next
    case (Some h)
    then show ?thesis by (auto simp: specService_def Log_def Let_def)
  qed
  moreover have "[] \<in> shuffles [] (replicate 0 heartbeat_event)" by simp
  ultimately show ?thesis
    unfolding spec_stream_inv_def stream_inv_def log_start_def by (intro conjI exI [of _ 0]) auto
qed

interpretation spec_stream: invariant_system
  "log_start \<lparr>gs_impl = specService w spec, gs_verbs = vs\<rparr> (sid, step)" "log_step net"
  "spec_stream_inv \<lparr>li_SessionID = sid, li_StepName = step\<rparr>" for w spec vs sid step net
  by unfold_locales (rule spec_stream_inv_start, rule spec_stream_inv_step)

text \<open>C21: a log stream of a spec carries the lines of its handler and heartbeats and nothing else. At
  every moment the delivered events are an interleaving of the lines that were accepted from the handler, in their order and each stamped with the
  session and the step of the request and a valid stream name, with the heartbeats sent so far.\<close>

theorem log_stream_contents:
  assumes "(log_step net)\<^sup>*\<^sup>* (log_start \<lparr>gs_impl = specService w spec, gs_verbs = vs\<rparr> (sid, step)) t"
  shows "\<exists>n. snd (lg_out t) \<in> shuffles (lg_sent t) (replicate n heartbeat_event) \<and>
    list_all (\<lambda>ev. le_SessionId ev = sid \<and> le_StepName ev = step \<and>
      MatchString logStreamNamePattern (le_StreamName ev) \<and> \<not> le_Heartbeat ev) (lg_sent t)"
proof -
  have "spec_stream_inv \<lparr>li_SessionID = sid, li_StepName = step\<rparr> t" by (rule spec_stream.reachable_inv [OF assms])
  then show ?thesis by (auto simp: spec_stream_inv_def stream_inv_def stamped_def list_all_iff)
qed

definition sample_world :: spec_world where
  "sample_world = \<lparr>sw_ReadFile = sample_files, sw_chunks = sample_chunks,
     sw_struct = \<lparr>NewValue = Ok, NewStructOf = Ok\<rparr>, sw_status = (\<lambda>_. Code_Other 2)\<rparr>"

theorem log_stream_contents_witness:
  "\<exists>t. (log_step (\<lambda>_. None))\<^sup>*\<^sup>* (log_start \<lparr>gs_impl = specService sample_world sample_spec, gs_verbs = None\<rparr> (''s'', ''x'')) t \<and>
     map le_Line (snd (lg_out t)) = [''hi''] \<and> list_all (\<lambda>ev. le_SessionId ev = ''s'' \<and> le_StepName ev = ''x'') (lg_sent t)"
proof -
  let ?s = "log_start \<lparr>gs_impl = specService sample_world sample_spec, gs_verbs = None\<rparr> (''s'', ''x'')"
  let ?ev = "\<lparr>le_SessionId = ''s'', le_StepName = ''x'', le_StreamName = ''stdout'', le_Line = ''hi'', le_Heartbeat = False\<rparr>"
  let ?u = "?s\<lparr>lg_impl := Some (LogSend ?ev LogEnd)\<rparr>"
  let ?t = "?u\<lparr>lg_out := (1, [?ev]), lg_impl := Some (LogEnd None), lg_sent := [?ev]\<rparr>"
  have names: "\<not> MatchString logStreamNamePattern ''Bad''" "MatchString logStreamNamePattern ''stdout''" by code_simp+
  have "sv_Log (specService sample_world sample_spec) (''s'', ''x'') = LogLook (\<lambda>_. LogSend ?ev LogEnd)"
    using names by (simp add: specService_def Log_def sample_spec_def Line_def)
  then have "impl_step (\<lambda>_. None) ?s = Some ?u" by (simp add: impl_step_def log_start_def)
  moreover have "impl_step (\<lambda>_. None) ?u = Some ?t" by (simp add: impl_step_def log_start_def send_msg_def)
  ultimately have run: "(log_step (\<lambda>_. None))\<^sup>*\<^sup>* ?s ?t"
    by (meson log_step.impl r_into_rtranclp rtranclp.rtrancl_into_rtrancl)
  obtain n where "snd (lg_out ?t) \<in> shuffles (lg_sent ?t) (replicate n heartbeat_event) \<and>
      list_all (\<lambda>ev. le_SessionId ev = ''s'' \<and> le_StepName ev = ''x'' \<and>
        MatchString logStreamNamePattern (le_StreamName ev) \<and> \<not> le_Heartbeat ev) (lg_sent ?t)"
    using log_stream_contents [OF run] by (elim exE)
  from conjunct2 [OF this]
  have "list_all (\<lambda>ev. le_SessionId ev = ''s'' \<and> le_StepName ev = ''x'') (lg_sent ?t)"
    unfolding list_all_iff by blast
  moreover have "map le_Line (snd (lg_out ?t)) = [''hi'']" by simp
  ultimately show ?thesis using run by (intro exI [of _ ?t] conjI)
qed

section \<open>Verbs through the bridge\<close>

text \<open>
  The contract between the description of a spec and the routing of one lifecycle verb: the derived feature list has the feature of
  the verb exactly if the spec has a handler for it, and the server of the spec answers the call with that handler or not at all.
\<close>

locale lifecycle_verb =
  fixes feature :: string
    and meth :: string
    and handler :: "Spec \<Rightarrow> 'h option"
    and run :: "spec_world \<Rightarrow> 'h \<Rightarrow> 'req \<Rightarrow> 'resp result"
    and rpc :: "grpcAdapterServer \<Rightarrow> 'req \<Rightarrow> 'resp result"
  assumes advertised: "feature \<in> set (elems (derived_features spec)) \<longleftrightarrow> handler spec \<noteq> None"
    and routed: "gs_verbs srv = sv_OptionalVerbs (specService w spec) \<Longrightarrow> rpc srv req =
      (case handler spec of None \<Rightarrow> Err (unimplementedVerb meth) | Some h \<Rightarrow> run w h req)"
begin

text \<open>What the host reads in the description decides what it gets when it calls the verb.\<close>

lemma served:
  assumes "GRPCServer (Some (specService w spec)) = Ok srv" "server_Info srv = Ok (Some info)" "sp_SupportedFeatures spec = None"
  shows "if feature \<in> set (elems (in_SupportedFeatures info)) then \<exists>h. handler spec = Some h \<and> (\<forall>req. rpc srv req = run w h req)
    else \<forall>req. rpc srv req = Err (StatusError Code_Unimplemented (''method '' @ meth @ '' not implemented''))"
proof -
  have srv: "gs_verbs srv = sv_OptionalVerbs (specService w spec)" "gs_impl srv = specService w spec"
    using assms(1) by (auto simp: GRPCServer_def optionalVerbsOf_def)
  with assms(2) have "deriveInfo (sw_ReadFile w) spec = Ok info"
    by (auto simp: server_Info_def specService_def Info_def result_defs split: sum.splits)
  then have "in_SupportedFeatures info = derived_features spec"
    using deriveInfo_Ok(10) assms(3) by (simp add: supportedFeaturesFromSpec_def)
  with routed [OF srv(1)] advertised [of spec] show ?thesis by (auto simp: unimplementedVerb_def)
qed

end

lemmas verb_defs = derived_features_set Option.is_none_def specService_def

interpretation pause_verb: lifecycle_verb FeaturePause "''Pause''" sp_Pause "\<lambda>w h sid. err_or (h sid)" server_Pause
  by unfold_locales (auto simp: verb_defs server_Pause_def Pause_def feature_names split: option.splits)

interpretation resume_verb: lifecycle_verb FeatureResume "''Resume''" sp_Resume "\<lambda>w h sid. err_or (h sid)" server_Resume
  by unfold_locales (auto simp: verb_defs server_Resume_def Resume_def feature_names split: option.splits)

interpretation snapshot_verb: lifecycle_verb FeatureSnapshot "''Snapshot''" sp_Snapshot "\<lambda>w h sid. h sid" server_Snapshot
  by unfold_locales (auto simp: verb_defs server_Snapshot_def Snapshot_def result_defs feature_names split: option.splits sum.splits)

interpretation restore_verb: lifecycle_verb FeatureRestore "''Restore''" sp_Restore
  "\<lambda>w h req. err_or (h \<lparr>ri_SessionID = fst req, ri_State = fst (snd req), ri_SchemaVersion = snd (snd req)\<rparr>)" server_Restore
  by unfold_locales (auto simp: verb_defs server_Restore_def Restore_def feature_names split: option.splits)

interpretation inspect_verb: lifecycle_verb FeatureInspect "''Inspect''" sp_Inspect
  "\<lambda>w h sid. bind_result (h sid) (inspectResponseFromInfo (sw_struct w))" server_Inspect
  by unfold_locales (auto simp: verb_defs server_Inspect_def Inspect_def feature_names split: option.splits)

text \<open>C30: what the host reads in the description is what it gets. Take the server of a spec that does not list its features
  itself, and the description it answers \<open>Info\<close> with. If that description advertises a lifecycle verb, the spec has a handler for it, and a call
  of the verb over the wire answers what the handler answers for the request, with an inspection converted; if it does not, every call is answered with
  the status Unimplemented and the message of the generated default.\<close>

theorem advertised_verbs_are_served:
  assumes "GRPCServer (Some (specService w spec)) = Ok srv" "server_Info srv = Ok (Some info)" "sp_SupportedFeatures spec = None"
  shows "(if FeaturePause \<in> set (elems (in_SupportedFeatures info))
      then \<exists>h. sp_Pause spec = Some h \<and> (\<forall>sid. server_Pause srv sid = (case h sid of None \<Rightarrow> Ok () | Some e \<Rightarrow> Err e))
      else \<forall>sid. server_Pause srv sid = Err (StatusError Code_Unimplemented ''method Pause not implemented'')) \<and>
    (if FeatureResume \<in> set (elems (in_SupportedFeatures info))
      then \<exists>h. sp_Resume spec = Some h \<and> (\<forall>sid. server_Resume srv sid = (case h sid of None \<Rightarrow> Ok () | Some e \<Rightarrow> Err e))
      else \<forall>sid. server_Resume srv sid = Err (StatusError Code_Unimplemented ''method Resume not implemented'')) \<and>
    (if FeatureSnapshot \<in> set (elems (in_SupportedFeatures info))
      then \<exists>h. sp_Snapshot spec = Some h \<and> (\<forall>sid. server_Snapshot srv sid = h sid)
      else \<forall>sid. server_Snapshot srv sid = Err (StatusError Code_Unimplemented ''method Snapshot not implemented'')) \<and>
    (if FeatureRestore \<in> set (elems (in_SupportedFeatures info))
      then \<exists>h. sp_Restore spec = Some h \<and> (\<forall>sid state version. server_Restore srv (sid, state, version) =
        (case h \<lparr>ri_SessionID = sid, ri_State = state, ri_SchemaVersion = version\<rparr> of None \<Rightarrow> Ok () | Some e \<Rightarrow> Err e))
      else \<forall>req. server_Restore srv req = Err (StatusError Code_Unimplemented ''method Restore not implemented'')) \<and>
    (if FeatureInspect \<in> set (elems (in_SupportedFeatures info))
      then \<exists>h. sp_Inspect spec = Some h \<and>
        (\<forall>sid. server_Inspect srv sid = bind_result (h sid) (inspectResponseFromInfo (sw_struct w)))
      else \<forall>sid. server_Inspect srv sid = Err (StatusError Code_Unimplemented ''method Inspect not implemented''))"
proof (intro conjI, goal_cases)
  case 1
  show ?case using pause_verb.served [OF assms] unfolding err_or_def by simp
next
  case 2
  show ?case using resume_verb.served [OF assms] unfolding err_or_def by simp
next
  case 3
  show ?case using snapshot_verb.served [OF assms] by simp
next
  case 4
  show ?case using restore_verb.served [OF assms] unfolding err_or_def by (simp split: if_splits)
next
  case 5
  show ?case using inspect_verb.served [OF assms] by simp
qed

theorem advertised_verbs_are_served_witness:
  "\<exists>srv info. GRPCServer (Some (specService sample_world sample_spec)) = Ok srv \<and> server_Info srv = Ok (Some info) \<and>
     server_Pause srv ''s'' = Ok () \<and>
     server_Resume srv ''s'' = Err (StatusError Code_Unimplemented ''method Resume not implemented'')"
proof -
  obtain srv where srv: "GRPCServer (Some (specService sample_world sample_spec)) = Ok srv" by (simp add: GRPCServer_def)
  obtain info where derived: "deriveInfo sample_files sample_spec = Ok info" using sample_info by blast
  then have info: "server_Info srv = Ok (Some info)"
    using srv by (auto simp: GRPCServer_def server_Info_def specService_def Info_def sample_world_def result_defs)
  have spec: "sp_SupportedFeatures sample_spec = None" "sp_Resume sample_spec = None" "sp_Pause sample_spec = Some (\<lambda>_. None)"
    by (simp_all add: sample_spec_def)
  have "FeaturePause \<in> set (elems (in_SupportedFeatures info))" "FeatureResume \<notin> set (elems (in_SupportedFeatures info))"
    unfolding deriveInfo_Ok(10) [OF derived] supportedFeaturesFromSpec_def using spec
    by (auto simp: derived_features_set Option.is_none_def feature_names)
  with advertised_verbs_are_served [OF srv info spec(1)] spec have "server_Pause srv ''s'' = Ok ()"
    "server_Resume srv ''s'' = Err (StatusError Code_Unimplemented ''method Resume not implemented'')" by simp_all
  with srv info show ?thesis by blast
qed

text \<open>A service without the optional verbs answers every lifecycle call the same way.\<close>

lemma no_verbs_unimplemented:
  assumes "GRPCServer (Some impl) = Ok srv" "sv_OptionalVerbs impl = None"
  shows "server_Pause srv sid = Err (unimplementedVerb ''Pause'')" "server_Resume srv sid = Err (unimplementedVerb ''Resume'')"
    "server_Snapshot srv sid = Err (unimplementedVerb ''Snapshot'')" "server_Restore srv req = Err (unimplementedVerb ''Restore'')"
    "server_Inspect srv sid = Err (unimplementedVerb ''Inspect'')"
proof -
  have "gs_verbs srv = None" using assms by (auto simp: GRPCServer_def optionalVerbsOf_def)
  then show "server_Pause srv sid = Err (unimplementedVerb ''Pause'')" "server_Resume srv sid = Err (unimplementedVerb ''Resume'')"
    "server_Snapshot srv sid = Err (unimplementedVerb ''Snapshot'')" "server_Restore srv req = Err (unimplementedVerb ''Restore'')"
    "server_Inspect srv sid = Err (unimplementedVerb ''Inspect'')"
    by (simp_all add: server_Pause_def server_Resume_def server_Snapshot_def server_Restore_def server_Inspect_def)
qed

section \<open>Starting\<close>

lemma emit_tiers:
  assumes "deriveInfo (sw_ReadFile w) spec = r"
  shows "emitManifestFromSpec (sw_ReadFile w) ks spec = (case r of Inl e \<Rightarrow> Inl e | Inr info \<Rightarrow> renderManifest ks (Some info))"
    and "emitManifestFromService ks (Some (sv_Info (specService w spec))) =
      (case r of Inl e \<Rightarrow> Inl (Wrapf [Lit ''adapterhost: Info for --emit-manifest: ''] e [])
       | Inr info \<Rightarrow> renderManifest ks (Some info))"
  using assms by (auto simp: emitManifestFromSpec_def emitManifestFromService_def specService_def Info_def
      result_defs split: sum.splits)

text \<open>C25: the two tiers agree. Started from an accepted spec, the process does what it does when
  started with the service of that spec: it writes the same manifest when asked to and serves the same plugin otherwise. They differ only in
  the text of one failure, a description that cannot be derived, which is fatal in both.\<close>

theorem tiers_agree:
  assumes "validate spec = None"
  shows "ServeSpec w p ks (Some spec) =
    (case deriveInfo (sw_ReadFile w) spec of
       Inl e \<Rightarrow> if emitManifestRequested (pr_args p) then ExitedLoudly e else Serve p ks (Some (specService w spec))
     | Inr info \<Rightarrow> Serve p ks (Some (specService w spec))) \<and>
    (\<forall>e. deriveInfo (sw_ReadFile w) spec = Err e \<and> emitManifestRequested (pr_args p) \<longrightarrow>
      Serve p ks (Some (specService w spec)) = ExitedLoudly (Wrapf [Lit ''adapterhost: Info for --emit-manifest: ''] e [])) \<and>
    (\<not> emitManifestRequested (pr_args p) \<longrightarrow>
      ServeSpec w p ks (Some spec) = ServedPlugins theHandshakeConfig [(AdapterName, Some (specService w spec))])"
  using assms emit_tiers [OF refl, where w = w and spec = spec and ks = ks]
  by (auto simp: ServeSpec_def Serve_def SpecService_def runEmitManifestIfRequested_def split: sum.splits option.splits)

theorem tiers_agree_witness:
  "ServeSpec sample_world \<lparr>pr_args = [], pr_stdout = None\<rparr> [''TOKEN''] (Some sample_spec) =
     ServedPlugins theHandshakeConfig [(AdapterName, Some (specService sample_world sample_spec))] \<and>
   (\<exists>b. ServeSpec sample_world \<lparr>pr_args = [''--emit-manifest''], pr_stdout = None\<rparr> [''TOKEN''] (Some sample_spec) = WroteManifest b)"
proof -
  note quiet = tiers_agree [OF sample_spec_ok, of sample_world "\<lparr>pr_args = [], pr_stdout = None\<rparr>" "[''TOKEN'']"]
    and emit = tiers_agree [OF sample_spec_ok, of sample_world "\<lparr>pr_args = [''--emit-manifest''], pr_stdout = None\<rparr>" "[''TOKEN'']"]
  obtain info where "deriveInfo (sw_ReadFile sample_world) sample_spec = Ok info"
    using sample_info by (auto simp: sample_world_def)
  with conjunct1 [OF emit] emit_tiers(2) [OF this, where ks = "[''TOKEN'']"] conjunct2 [OF conjunct2 [OF quiet]] show ?thesis
    by (simp add: Serve_def runEmitManifestIfRequested_def emitManifestRequested_def renderManifest_Some)
qed

text \<open>A broken spec never serves. If the spec is missing or fails its validation, starting the
  process ends with the validation error whatever the arguments are, and the phone-home entry point returns that error without dialling.\<close>

theorem broken_spec_never_serves:
  assumes "spec = None \<or> (\<exists>s. spec = Some s \<and> validate s \<noteq> None)"
  shows "\<exists>e. ServeSpec w p ks spec = ExitedLoudly e \<and> ServeSpecRemote spec opts ats = RemoteReturned (Some e) \<and>
    (\<forall>s. spec = Some s \<longrightarrow> validate s = Some e)"
  using assms by (auto simp: ServeSpec_def ServeSpecRemote_def SpecService_def Let_def)

theorem broken_spec_never_serves_witness:
  "\<exists>e. ServeSpec sample_world \<lparr>pr_args = [''--emit-manifest''], pr_stdout = None\<rparr> [] (Some (sample_spec\<lparr>sp_Name := []\<rparr>)) = ExitedLoudly e"
proof -
  have "validate (sample_spec\<lparr>sp_Name := []\<rparr>) \<noteq> None" by (simp add: validate_def)
  then show ?thesis
    using broken_spec_never_serves [of "Some (sample_spec\<lparr>sp_Name := []\<rparr>)" sample_world] by blast
qed

text \<open>An adapter that phones home with an accepted spec always identifies itself. Whatever options are
  given, the connection is the one of those options with the empty parts of the identity taken from the spec, so the handshake line that a
  successful dial writes never carries an empty name or version.\<close>

theorem remote_identity_complete:
  assumes "validate spec = None"
  shows "\<exists>ro. ServeSpecRemote (Some spec) opts ats = ServeRemote (Some ro) ats \<and>
    id_Name (ro_Identity ro) \<noteq> [] \<and> id_Version (ro_Identity ro) \<noteq> [] \<and>
    (case opts of None \<Rightarrow> id_Name (ro_Identity ro) = sp_Name spec
     | Some o1 \<Rightarrow> ro = o1\<lparr>ro_Identity := ro_Identity ro\<rparr> \<and>
         id_Name (ro_Identity ro) \<in> {id_Name (ro_Identity o1), sp_Name spec} \<and>
         id_Digest (ro_Identity ro) = id_Digest (ro_Identity o1)) \<and>
    (\<forall>at. at_dial at = None \<longrightarrow>
      on_written (serveRemoteOnce at ro) = handshake_line (ro_Identity ro) (ro_AcceptToken ro))"
proof -
  let ?o = "case opts of None \<Rightarrow> zero_options | Some o1 \<Rightarrow> o1"
  let ?ro = "?o\<lparr>ro_Identity := identity_defaults spec (ro_Identity ?o)\<rparr>"
  have "ServeSpecRemote (Some spec) opts ats = ServeRemote (Some ?ro) ats"
    using assms by (simp add: ServeSpecRemote_def SpecService_def Let_def)
  moreover have "on_written (serveRemoteOnce at ro) = handshake_line (ro_Identity ro) (ro_AcceptToken ro)"
    if "at_dial at = None" for at ro
    using that by (simp add: serveRemoteOnce_def sendHandshake_def Let_def split: option.splits)
  ultimately show ?thesis
    using validate_NoneD(1,2) [OF assms]
    by (intro exI [of _ ?ro]) (auto simp: identity_defaults_def zero_options_def split: option.splits)
qed

theorem remote_identity_complete_witness:
  "\<exists>ro. ServeSpecRemote (Some sample_spec) None [] = ServeRemote (Some ro) [] \<and> id_Name (ro_Identity ro) = ''greeter''"
proof -
  have "sp_Name sample_spec = ''greeter''" by (simp add: sample_spec_def)
  with remote_identity_complete [OF sample_spec_ok, of None "[]"] show ?thesis by auto
qed

end
