(* ===== verification/Log_Termination.thy ===== *)
theory Log_Termination
  imports Serve_Properties
begin

text \<open>
  When a \<open>Log\<close> call (\<open>src/adapterhost/serve.go\<close>) returns. The handler waits first for the answer of the implementation and then, if there
  was no error, for the end of the stream. The implementation is the adapter author's and may run for ever, so whether the call returns
  depends on it: the end of the stream ends the call of an implementation that heeds its context, and no other.
\<close>

section \<open>The moves of a log call\<close>

datatype log_move = ImplMove | HeartbeatMove | HandlerMove | CancelMove

fun log_move_step :: "transport \<Rightarrow> log_call \<Rightarrow> log_move \<Rightarrow> log_call option" where
  "log_move_step net s ImplMove = impl_step net s"
| "log_move_step net s HeartbeatMove = Some (heartbeat_step net s)"
| "log_move_step net s HandlerMove = handler_step s"
| "log_move_step net s CancelMove = Some (s\<lparr>lg_done := True\<rparr>)"

lemma log_step_iff: "log_step net s t \<longleftrightarrow> (\<exists>m. log_move_step net s m = Some t)"
proof
  assume "log_step net s t"
  then show "\<exists>m. log_move_step net s m = Some t"
    by cases (metis log_move_step.simps)+
next
  assume "\<exists>m. log_move_step net s m = Some t"
  then obtain m where "log_move_step net s m = Some t" by blast
  then show "log_step net s t" by (cases m) (auto intro: log_step.intros)
qed

section \<open>The implementation\<close>

text \<open>
  An implementation heeds the end of its context at a point if it returns from there once the context is done, and is responsive if it
  does so at every point it can get to. Between two such points it may run for ever.
\<close>

inductive heeds :: "log_action \<Rightarrow> bool" where
  "heeds (LogEnd e)"
| "(\<And>e. heeds (k e)) \<Longrightarrow> heeds (LogSend ev k)"
| "heeds p \<Longrightarrow> heeds (LogBlock p)"
| "heeds (k True) \<Longrightarrow> heeds (LogLook k)"

inductive log_next :: "log_action \<Rightarrow> log_action \<Rightarrow> bool" where
  "log_next (LogSend ev k) (k e)"
| "log_next (LogBlock p) p"
| "log_next (LogLook k) (k d)"

coinductive responsive :: "log_action \<Rightarrow> bool" where
  "heeds a \<Longrightarrow> (\<And>b. log_next a b \<Longrightarrow> responsive b) \<Longrightarrow> responsive a"

lemma responsiveD: "responsive a \<Longrightarrow> heeds a" "responsive a \<Longrightarrow> log_next a b \<Longrightarrow> responsive b"
  by (erule responsive.cases, simp)+

definition impl_points :: "(log_action \<Rightarrow> bool) \<Rightarrow> log_call \<Rightarrow> bool" where
  "impl_points P s \<longleftrightarrow> (\<forall>a. lg_impl s = Some a \<longrightarrow> P a)"

lemma impl_move:
  assumes "log_move_step net s ImplMove = Some t" "lg_impl s = Some a" "lg_impl t = Some b"
  shows "log_next a b"
  using assms by (cases a) (auto simp: impl_step_def intro: log_next.intros split: prod.splits if_splits)

lemma other_moves_keep_impl: "log_move_step net s m = Some t \<Longrightarrow> m \<noteq> ImplMove \<Longrightarrow> lg_impl t = lg_impl s"
  by (cases m) (auto simp: heartbeat_step_def handler_step_def split: option.splits log_handler.splits if_splits)

lemma responsive_move:
  assumes "log_move_step net s m = Some t" "impl_points responsive s"
  shows "impl_points responsive t"
proof (cases "m = ImplMove")
  case True
  have "lg_impl s \<noteq> None" using assms(1) True by (auto simp: impl_step_def split: option.splits)
  then obtain a where a: "lg_impl s = Some a" by blast
  show ?thesis unfolding impl_points_def
    using assms a True impl_move [OF _ a] by (auto simp: impl_points_def intro: responsiveD(2))
next
  case False
  with assms other_moves_keep_impl show ?thesis by (simp add: impl_points_def)
qed

section \<open>The handler\<close>

fun waits_left :: "log_handler \<Rightarrow> nat" where
  "waits_left AwaitResult = 2"
| "waits_left AwaitCancel = 1"
| "waits_left (LogReturned r) = 0"

interpretation log_handler_turns: counted_system "log_move_step net" "\<lambda>m. m = HandlerMove"
  "\<lambda>s. waits_left (lg_handler s)" for net
proof unfold_locales
  show "wf less_than" by (rule wf_less_than)
  show "(waits_left (lg_handler t), waits_left (lg_handler s)) \<in> less_than"
    if "log_move_step net s m = Some t" "m = HandlerMove" for s m t
    using that by (auto simp: handler_step_def split: option.splits log_handler.splits if_splits)
  show "waits_left (lg_handler t) = waits_left (lg_handler s)"
    if "log_move_step net s m = Some t" "m \<noteq> HandlerMove" for s m t
    using that
    by (cases m) (auto simp: impl_step_def heartbeat_step_def split: option.splits log_action.splits prod.splits if_splits)
qed

section \<open>The call returns\<close>

text \<open>What no move takes back: the end of the context, and a return of the implementation or of the handler.\<close>

lemma log_moves_keep:
  assumes "log_move_step net s m = Some t"
  shows "lg_done s \<Longrightarrow> lg_done t"
    and "lg_impl s = None \<Longrightarrow> lg_impl t = None \<and> lg_result t = lg_result s"
    and "lg_handler s = LogReturned r \<Longrightarrow> lg_handler t = LogReturned r"
  using assms
  by (cases m; auto simp: impl_step_def heartbeat_step_def handler_step_def
      split: option.splits log_action.splits log_handler.splits prod.splits if_splits)+

lemma log_move_inv: "log_move_step net s m = Some t \<Longrightarrow> log_inv s \<Longrightarrow> log_inv t"
  using log_inv_step log_step_iff by blast

lemma handler_can_move:
  assumes "log_inv t" "lg_result t = Some r" "r = None \<longrightarrow> lg_done t" "\<And>r. lg_handler t \<noteq> LogReturned r"
  shows "handler_step t \<noteq> None"
  using assms by (cases "lg_handler t") (auto simp: log_inv_def handler_step_def split: option.splits)

text \<open>
  What is asked of the scheduler: a goroutine that can move, and stays able to, is scheduled some time. The one of the
  implementation can move unless it is blocked on a context that is not done.
\<close>

definition scheduled :: "(log_call \<Rightarrow> bool) \<Rightarrow> log_move \<Rightarrow> (nat \<Rightarrow> log_call) \<Rightarrow> (nat \<Rightarrow> log_move) \<Rightarrow> bool" where
  "scheduled able m \<sigma> \<alpha> \<longleftrightarrow> (\<forall>n. (\<forall>k \<ge> n. able (\<sigma> k)) \<longrightarrow> (\<exists>k \<ge> n. \<alpha> k = m))"

text \<open>Once the context is done, a responsive implementation returns.\<close>

lemma next_impl_move:
  assumes run: "execution (log_move_step net) \<sigma> \<alpha>" and fair: "scheduled (\<lambda>t. impl_step net t \<noteq> None) ImplMove \<sigma> \<alpha>"
    and at: "lg_impl (\<sigma> n) = Some a" "lg_done (\<sigma> n)"
  obtains m where "lg_impl (\<sigma> m) = Some a" "lg_done (\<sigma> m)" "impl_step net (\<sigma> m) = Some (\<sigma> (Suc m))" "lg_done (\<sigma> (Suc m))"
proof -
  note keep = log_moves_keep(1)
  have stays: "lg_impl (\<sigma> m) = Some a \<and> lg_done (\<sigma> m)" if "n \<le> m" "\<And>k. n \<le> k \<Longrightarrow> k < m \<Longrightarrow> \<alpha> k \<noteq> ImplMove" for m
    by (rule execution_keeps [OF run, where P = "\<lambda>t. lg_impl t = Some a \<and> lg_done t", OF _ that(1)])
      (use at that(2) keep other_moves_keep_impl in auto)
  have "\<exists>k \<ge> n. \<alpha> k = ImplMove"
  proof (rule ccontr)
    assume never: "\<not> ?thesis"
    then have "impl_step net (\<sigma> k) \<noteq> None" if "n \<le> k" for k
      using stays [OF that] by (cases a) (auto simp: impl_step_def split: prod.splits)
    with fair never show False unfolding scheduled_def by blast
  qed
  then obtain m where m: "n \<le> m \<and> \<alpha> m = ImplMove" and least: "\<And>k. k < m \<Longrightarrow> \<not> (n \<le> k \<and> \<alpha> k = ImplMove)"
    using exists_least_iff [of "\<lambda>m. n \<le> m \<and> \<alpha> m = ImplMove"] by blast
  then have now: "lg_impl (\<sigma> m) = Some a" "lg_done (\<sigma> m)" using stays by blast+
  have step: "log_move_step net (\<sigma> m) ImplMove = Some (\<sigma> (Suc m))" using executionD [OF run, of m] m by simp
  show thesis by (rule that [OF now _ keep [OF step now(2)]]) (use step in simp)
qed

lemma heeding_returns:
  assumes run: "execution (log_move_step net) \<sigma> \<alpha>" and fair: "scheduled (\<lambda>t. impl_step net t \<noteq> None) ImplMove \<sigma> \<alpha>"
  shows "heeds a \<Longrightarrow> lg_impl (\<sigma> n) = Some a \<Longrightarrow> lg_done (\<sigma> n) \<Longrightarrow> \<exists>m. lg_impl (\<sigma> m) = None"
proof (induction a arbitrary: n rule: heeds.induct)
  note impl_step_def [simp]
  case (1 e)
  from next_impl_move [OF run fair this] obtain m where "lg_impl (\<sigma> m) = Some (LogEnd e)" "impl_step net (\<sigma> m) = Some (\<sigma> (Suc m))" .
  then have "lg_impl (\<sigma> (Suc m)) = None" by (auto dest!: sym [of _ "\<sigma> (Suc m)"])
  then show ?case ..
next
  case (2 k ev)
  from next_impl_move [OF run fair 2(3,4)] obtain m where m: "lg_impl (\<sigma> m) = Some (LogSend ev k)"
    "impl_step net (\<sigma> m) = Some (\<sigma> (Suc m))" "lg_done (\<sigma> (Suc m))" .
  then have "\<exists>e. lg_impl (\<sigma> (Suc m)) = Some (k e)" by (auto simp: impl_step_def split: prod.splits dest!: sym [of _ "\<sigma> (Suc m)"])
  with 2(2) m(3) show ?case by blast
next
  case (3 p)
  from next_impl_move [OF run fair 3(3,4)] obtain m where m: "lg_impl (\<sigma> m) = Some (LogBlock p)"
    "impl_step net (\<sigma> m) = Some (\<sigma> (Suc m))" "lg_done (\<sigma> m)" "lg_done (\<sigma> (Suc m))" .
  then have "lg_impl (\<sigma> (Suc m)) = Some p" by (auto simp: impl_step_def dest!: sym [of _ "\<sigma> (Suc m)"])
  with 3(2) m(4) show ?case by blast
next
  case (4 k)
  from next_impl_move [OF run fair 4(3,4)] obtain m where m: "lg_impl (\<sigma> m) = Some (LogLook k)"
    "impl_step net (\<sigma> m) = Some (\<sigma> (Suc m))" "lg_done (\<sigma> m)" "lg_done (\<sigma> (Suc m))" .
  then have "lg_impl (\<sigma> (Suc m)) = Some (k True)" by (auto simp: impl_step_def dest!: sym [of _ "\<sigma> (Suc m)"])
  with 4(2) m(4) show ?case by blast
qed

text \<open>And the handler returns once it has nothing to wait for.\<close>

lemma handler_returns:
  assumes run: "execution (log_move_step net) \<sigma> \<alpha>" and inv: "\<And>n. log_inv (\<sigma> n)"
    and fair: "scheduled (\<lambda>t. handler_step t \<noteq> None) HandlerMove \<sigma> \<alpha>"
    and result: "lg_result (\<sigma> m) = Some r" "r = None \<longrightarrow> lg_done (\<sigma> k)"
  shows "\<exists>n r. lg_handler (\<sigma> n) = LogReturned r"
proof (rule ccontr)
  assume waits: "\<nexists>n r. lg_handler (\<sigma> n) = LogReturned r"
  note keep = log_moves_keep
  let ?N = "max m k"
  have able: "handler_step (\<sigma> n) \<noteq> None" if n: "?N \<le> n" for n
  proof -
    have "lg_impl (\<sigma> m) = None" using inv [of m] result(1) by (simp add: log_inv_def)
    then have "lg_impl (\<sigma> n) = None \<and> lg_result (\<sigma> n) = Some r"
      using execution_keeps [OF run, where P = "\<lambda>t. lg_impl t = None \<and> lg_result t = Some r" and n = m and m = n]
        keep(2) result(1) n by auto
    moreover have "r = None \<longrightarrow> lg_done (\<sigma> n)"
      using execution_keeps [OF run, where P = lg_done and n = k and m = n] keep(1) result(2) n by auto
    ultimately show ?thesis using handler_can_move [OF inv] waits by blast
  qed
  have "\<exists>j \<ge> n. \<alpha> (?N + j) = HandlerMove" for n
  proof -
    have "\<forall>j \<ge> ?N + n. handler_step (\<sigma> j) \<noteq> None" using able le_trans [OF le_add1] by blast
    then obtain j where "?N + n \<le> j" "\<alpha> j = HandlerMove" using fair unfolding scheduled_def by blast
    moreover then obtain d where "j = ?N + (n + d)" unfolding le_iff_add by (auto simp: add.assoc)
    ultimately show ?thesis by (intro exI [of _ "n + d"]) simp
  qed
  then have "\<exists>M. \<forall>j \<ge> M. \<exists>r. lg_handler (\<sigma> (?N + j)) = LogReturned r"
    using log_handler_turns.scheduled_becomes_final [OF execution_from [OF run, of ?N],
        of "\<lambda>t. \<exists>r. lg_handler t = LogReturned r"] by blast
  with waits show False by blast
qed

text \<open>C22: what ends a log call. In every execution in which the handler is scheduled while it can move, the handler returns if
  and only if the implementation returns and, should it return without error, the host ends the stream: the end of the stream alone
  does not end the call. Where the implementation heeds its context at every point, and is scheduled while it can move, the end of the stream does end
  the call, however long the implementation would have gone on. What the handler returns is what the implementation returned, for good, and the handler
  takes at most two steps. Nothing is assumed of how long the implementation runs.\<close>

theorem log_call_ends:
  assumes run: "execution (log_move_step net) \<sigma> \<alpha>" "\<sigma> 0 = log_start s req"
    and handler: "scheduled (\<lambda>t. handler_step t \<noteq> None) HandlerMove \<sigma> \<alpha>"
  shows "((\<exists>n r. lg_handler (\<sigma> n) = LogReturned r) \<longleftrightarrow>
      (\<exists>n r. lg_result (\<sigma> n) = Some r \<and> (r = None \<longrightarrow> (\<exists>k. lg_done (\<sigma> k))))) \<and>
    (responsive (sv_Log (gs_impl s) req) \<and> scheduled (\<lambda>t. impl_step net t \<noteq> None) ImplMove \<sigma> \<alpha> \<and> (\<exists>k. lg_done (\<sigma> k)) \<longrightarrow>
      (\<exists>n r. lg_handler (\<sigma> n) = LogReturned r)) \<and>
    (\<forall>n r. lg_handler (\<sigma> n) = LogReturned r \<longrightarrow> (\<forall>m \<ge> n. lg_handler (\<sigma> m) = LogReturned r \<and> lg_result (\<sigma> m) = Some r)) \<and>
    (\<forall>m. length (filter (\<lambda>a. a = HandlerMove) (map \<alpha> [0..<m])) \<le> 2)"
proof -
  note keep = log_moves_keep
  have inv: "log_inv (\<sigma> n)" for n
    by (rule execution_keeps [OF run(1), where P = log_inv and n = 0]) (auto simp: run(2) log_call.inv_init log_move_inv)
  note returns = handler_returns [OF run(1) inv handler]
  have answer: "lg_result (\<sigma> n) = Some r \<and> (r = None \<longrightarrow> lg_done (\<sigma> n))" if "lg_handler (\<sigma> n) = LogReturned r" for n r
    using inv [of n] that by (simp add: log_inv_def)
  have ended: "\<exists>n r. lg_handler (\<sigma> n) = LogReturned r"
    if "responsive (sv_Log (gs_impl s) req)" "scheduled (\<lambda>t. impl_step net t \<noteq> None) ImplMove \<sigma> \<alpha>" "lg_done (\<sigma> k)" for k
  proof -
    have "impl_points responsive (\<sigma> 0)" using that(1) by (simp add: run(2) log_start_def impl_points_def)
    then have "impl_points responsive (\<sigma> k)"
      using execution_keeps [OF run(1), where P = "impl_points responsive" and n = 0 and m = k] responsive_move by blast
    then have "heeds a" if "lg_impl (\<sigma> k) = Some a" for a using that responsiveD(1) by (simp add: impl_points_def)
    then have "\<exists>n. lg_impl (\<sigma> n) = None"
      using heeding_returns [OF run(1) that(2) _ _ that(3)] by (cases "lg_impl (\<sigma> k)") blast+
    then obtain n r where "lg_result (\<sigma> n) = Some r" using inv by (auto simp: log_inv_def)
    with that(3) show ?thesis using returns by blast
  qed
  have kept: "lg_handler (\<sigma> m) = LogReturned r" if "lg_handler (\<sigma> n) = LogReturned r" "n \<le> m" for n m r
    by (rule execution_keeps [OF run(1), where P = "\<lambda>t. lg_handler t = LogReturned r", OF that]) (use keep(3) in blast)
  have "waits_left (lg_handler (\<sigma> 0)) = 2" by (simp add: run(2) log_start_def)
  then have "length (filter (\<lambda>a. a = HandlerMove) (map \<alpha> [0..<m])) \<le> 2" for m
    using log_handler_turns.own_steps_bounded [OF execution_prefix [OF run(1), of 0 m]] by simp
  moreover have "(\<exists>n r. lg_handler (\<sigma> n) = LogReturned r) \<longleftrightarrow>
      (\<exists>n r. lg_result (\<sigma> n) = Some r \<and> (r = None \<longrightarrow> (\<exists>k. lg_done (\<sigma> k))))"
    using answer returns by meson
  ultimately show ?thesis using ended kept answer by blast
qed

text \<open>An execution for it: an implementation that waits for its context, the end of the stream, its answer, and the return.\<close>

definition waiting_server :: grpcAdapterServer where
  "waiting_server = quiet_server\<lparr>gs_impl := quiet_service\<lparr>sv_Log := (\<lambda>_. LogBlock (LogEnd None))\<rparr>\<rparr>"

lemma waiting_responsive: "responsive (LogBlock (LogEnd None))"
proof -
  have "responsive (LogEnd None)" by (rule responsive.intros) (auto intro: heeds.intros elim: log_next.cases)
  then show ?thesis by (intro responsive.intros [of "LogBlock (LogEnd None)"]) (auto intro: heeds.intros elim: log_next.cases)
qed

theorem log_call_ends_witness:
  "\<exists>\<sigma> \<alpha>. execution (log_move_step (\<lambda>_. None)) \<sigma> \<alpha> \<and> \<sigma> 0 = log_start waiting_server ([], []) \<and>
     (\<exists>n r. lg_handler (\<sigma> n) = LogReturned r)"
proof -
  let ?s = "log_start waiting_server ([], [])"
  let ?s1 = "?s\<lparr>lg_done := True\<rparr>"
  let ?s2 = "?s1\<lparr>lg_impl := Some (LogEnd None)\<rparr>"
  let ?s3 = "?s2\<lparr>lg_impl := None, lg_errCh := Some None, lg_result := Some None\<rparr>"
  let ?s4 = "?s3\<lparr>lg_errCh := None, lg_handler := AwaitCancel\<rparr>"
  let ?s5 = "?s4\<lparr>lg_handler := LogReturned None\<rparr>"
  define \<sigma> where "\<sigma> n = (if n = 0 then ?s else if n = 1 then ?s1 else if n = 2 then ?s2 else if n = 3 then ?s3 else
    if n = 4 then ?s4 else ?s5)" for n :: nat
  define \<alpha> where "\<alpha> n = (if n = 1 \<or> n = 2 then ImplMove else if n = 3 \<or> n = 4 then HandlerMove else CancelMove)" for n :: nat
  note defs = log_start_def waiting_server_def quiet_server_def quiet_service_def
  have run: "execution (log_move_step (\<lambda>_. None)) \<sigma> \<alpha>" "\<sigma> 0 = ?s"
    by (auto simp: execution_def \<sigma>_def \<alpha>_def impl_step_def handler_step_def defs)
  have rest: "handler_step (\<sigma> (n + 5)) = None" "impl_step net (\<sigma> (n + 5)) = None" for n net
    by (simp_all add: \<sigma>_def handler_step_def impl_step_def)
  have fair: "scheduled (\<lambda>t. handler_step t \<noteq> None) HandlerMove \<sigma> \<alpha>"
    "scheduled (\<lambda>t. impl_step (\<lambda>_. None) t \<noteq> None) ImplMove \<sigma> \<alpha>"
    unfolding scheduled_def using rest by (metis le_add1)+
  have "responsive (sv_Log (gs_impl waiting_server) ([], []))" by (simp add: waiting_responsive defs)
  moreover have "\<exists>k. lg_done (\<sigma> k)" by (intro exI [of _ 1]) (simp add: \<sigma>_def)
  ultimately have "\<exists>n r. lg_handler (\<sigma> n) = LogReturned r" using log_call_ends [OF run fair(1)] fair(2) by blast
  with run show ?thesis by blast
qed

end
