(* ===== verification/Locked_Send.thy ===== *)
theory Locked_Send
  imports Adapter_Service
begin

text \<open>
  The sending half of a stream that several goroutines share: \<open>grpcExecuteEventServer\<close> and \<open>grpcLogEventServer\<close> of
  \<open>src/adapterhost/serve.go\<close>. The send of the grpc stream is not safe for concurrent use, so it is not one step here: it reads the
  stream when it begins and writes it when it ends, and what another goroutine wrote in between would be lost. The
  wrapper's mutex has to prevent that. Everywhere else a send is the one step \<open>send_msg\<close>; this theory says why it may be.
\<close>

section \<open>The wrapper\<close>

text \<open>
  Where a goroutine is: not sending, before \<open>s.mu.Lock()\<close>, before and inside \<open>s.stream.Send(evt)\<close>, and before the deferred
  \<open>s.mu.Unlock()\<close> with the answer of the stream. The mutex is the goroutine that holds it. The fields \<open>ls_calls\<close> and
  \<open>ls_log\<close> are histories no step reads: the calls of \<open>Send\<close>, and the completed sends of the stream with their answers.
\<close>

datatype 'e sender = Resting | AtLock 'e | Holding 'e | Writing 'e "'e outbox" | Written "go_error option"

record 'e locked_stream =
  ls_mu :: "nat option"
  ls_stream :: "'e outbox"
  ls_senders :: "nat \<Rightarrow> 'e sender"
  ls_calls :: "(nat \<times> 'e) list"
  ls_log :: "(nat \<times> 'e \<times> go_error option) list"

datatype 'e send_move = Send nat 'e | Lock nat | WriteBegin nat | WriteEnd nat | Unlock nat

definition stream_start :: "'e outbox \<Rightarrow> 'e locked_stream" where
  "stream_start out =
     \<lparr>ls_mu = None, ls_stream = out, ls_senders = (\<lambda>_. Resting), ls_calls = [], ls_log = []\<rparr>"

definition set_sender :: "nat \<Rightarrow> 'e sender \<Rightarrow> 'e locked_stream \<Rightarrow> 'e locked_stream" where
  "set_sender c p s = s\<lparr>ls_senders := (ls_senders s)(c := p)\<rparr>"

fun locked_step :: "transport \<Rightarrow> 'e locked_stream \<Rightarrow> 'e send_move \<Rightarrow> 'e locked_stream option" where
  "locked_step net s (Send c ev) =
     (case ls_senders s c of
        Resting \<Rightarrow> Some (set_sender c (AtLock ev) (s\<lparr>ls_calls := ls_calls s @ [(c, ev)]\<rparr>))
      | _ \<Rightarrow> None)"
| "locked_step net s (Lock c) =
     (case ls_senders s c of
        AtLock ev \<Rightarrow> if ls_mu s = None then Some (set_sender c (Holding ev) (s\<lparr>ls_mu := Some c\<rparr>)) else None
      | _ \<Rightarrow> None)"
| "locked_step net s (WriteBegin c) =
     (case ls_senders s c of
        Holding ev \<Rightarrow> Some (set_sender c (Writing ev (ls_stream s)) s)
      | _ \<Rightarrow> None)"
| "locked_step net s (WriteEnd c) =
     (case ls_senders s c of
        Writing ev seen \<Rightarrow>
          (case send_msg net ev seen of
             (e, out) \<Rightarrow> Some (set_sender c (Written e)
               (s\<lparr>ls_stream := out, ls_log := ls_log s @ [(c, ev, e)]\<rparr>)))
      | _ \<Rightarrow> None)"
| "locked_step net s (Unlock c) =
     (case ls_senders s c of
        Written e \<Rightarrow> Some (set_sender c Resting (s\<lparr>ls_mu := None\<rparr>))
      | _ \<Rightarrow> None)"

inductive send_step :: "transport \<Rightarrow> 'e locked_stream \<Rightarrow> 'e locked_stream \<Rightarrow> bool" for net where
  move: "locked_step net s m = Some t \<Longrightarrow> send_step net s t"

section \<open>One send after the other\<close>

text \<open>The specification: the messages go out one after the other, each with the answer of the transport.\<close>

primrec send_all :: "transport \<Rightarrow> 'e list \<Rightarrow> 'e outbox \<Rightarrow> go_error option list \<times> 'e outbox" where
  "send_all net [] out = ([], out)"
| "send_all net (ev # evs) out =
     (case send_msg net ev out of (e, out1) \<Rightarrow> (case send_all net evs out1 of (es, out2) \<Rightarrow> (e # es, out2)))"

lemma send_all_snoc:
  "send_all net (evs @ [ev]) out =
     (case send_all net evs out of (es, out1) \<Rightarrow> (case send_msg net ev out1 of (e, out2) \<Rightarrow> (es @ [e], out2)))"
  by (induction evs arbitrary: out) (simp_all split: prod.splits)

fun holds_mutex :: "'e sender \<Rightarrow> bool" where
  "holds_mutex Resting = False"
| "holds_mutex (AtLock ev) = False"
| "holds_mutex (Holding ev) = True"
| "holds_mutex (Writing ev seen) = True"
| "holds_mutex (Written e) = True"

fun unsent :: "'e sender \<Rightarrow> 'e list" where
  "unsent Resting = []"
| "unsent (AtLock ev) = [ev]"
| "unsent (Holding ev) = [ev]"
| "unsent (Writing ev seen) = [ev]"
| "unsent (Written e) = []"

definition calls_of :: "nat \<Rightarrow> (nat \<times> 'e) list \<Rightarrow> 'e list" where
  "calls_of c xs = map snd (filter (\<lambda>x. fst x = c) xs)"

definition sent_of :: "nat \<Rightarrow> (nat \<times> 'e \<times> go_error option) list \<Rightarrow> 'e list" where
  "sent_of c xs = map (fst \<circ> snd) (filter (\<lambda>x. fst x = c) xs)"

definition locked_inv :: "transport \<Rightarrow> 'e outbox \<Rightarrow> 'e locked_stream \<Rightarrow> bool" where
  "locked_inv net out s \<longleftrightarrow>
     (\<forall>c. holds_mutex (ls_senders s c) \<longleftrightarrow> ls_mu s = Some c) \<and>
     (\<forall>c ev seen. ls_senders s c = Writing ev seen \<longrightarrow> seen = ls_stream s) \<and>
     (\<forall>c e. ls_senders s c = Written e \<longrightarrow> (\<exists>xs ev. ls_log s = xs @ [(c, ev, e)])) \<and>
     (\<forall>c. calls_of c (ls_calls s) = sent_of c (ls_log s) @ unsent (ls_senders s c)) \<and>
     send_all net (map (fst \<circ> snd) (ls_log s)) out = (map (snd \<circ> snd) (ls_log s), ls_stream s)"

lemma history_simps [simp]:
  "calls_of c [] = []" "sent_of c [] = []"
  "calls_of c (xs @ [(d, ev)]) = calls_of c xs @ (if d = c then [ev] else [])"
  "sent_of c (ys @ [(d, ev, e)]) = sent_of c ys @ (if d = c then [ev] else [])"
  by (simp_all add: calls_of_def sent_of_def)

lemma set_sender_simps [simp]:
  "ls_mu (set_sender c p s) = ls_mu s" "ls_stream (set_sender c p s) = ls_stream s"
  "ls_calls (set_sender c p s) = ls_calls s" "ls_log (set_sender c p s) = ls_log s"
  "ls_senders (set_sender c p s) = (ls_senders s)(c := p)"
  by (simp_all add: set_sender_def)

lemma locked_invD:
  assumes "locked_inv net out s"
  shows "holds_mutex (ls_senders s c) \<longleftrightarrow> ls_mu s = Some c"
    and "ls_senders s c = Writing ev seen \<Longrightarrow> seen = ls_stream s"
    and "ls_senders s c = Written e \<Longrightarrow> \<exists>xs ev. ls_log s = xs @ [(c, ev, e)]"
    and "calls_of c (ls_calls s) = sent_of c (ls_log s) @ unsent (ls_senders s c)"
    and "send_all net (map (fst \<circ> snd) (ls_log s)) out = (map (snd \<circ> snd) (ls_log s), ls_stream s)"
  using assms unfolding locked_inv_def by blast+

lemma locked_invI:
  assumes "\<And>c. holds_mutex (ls_senders s c) \<longleftrightarrow> ls_mu s = Some c"
    and "\<And>c ev seen. ls_senders s c = Writing ev seen \<Longrightarrow> seen = ls_stream s"
    and "\<And>c e. ls_senders s c = Written e \<Longrightarrow> \<exists>xs ev. ls_log s = xs @ [(c, ev, e)]"
    and "\<And>c. calls_of c (ls_calls s) = sent_of c (ls_log s) @ unsent (ls_senders s c)"
    and "send_all net (map (fst \<circ> snd) (ls_log s)) out = (map (snd \<circ> snd) (ls_log s), ls_stream s)"
  shows "locked_inv net out s"
  using assms unfolding locked_inv_def by blast

text \<open>Only the goroutine that holds the mutex is past its lock.\<close>

lemma past_lock_unique:
  assumes "locked_inv net out s" "holds_mutex (ls_senders s c)"
  shows "holds_mutex (ls_senders s d) \<longleftrightarrow> d = c"
  using locked_invD(1) [OF assms(1)] assms(2) by auto

lemma locked_inv_start: "locked_inv net out (stream_start out)"
  by (simp add: locked_inv_def stream_start_def)

lemma locked_inv_step:
  assumes inv: "locked_inv net out s" and step: "locked_step net s m = Some t"
  shows "locked_inv net out t"
proof (cases m)
  case (Send c ev)
  then have s: "ls_senders s c = Resting" and t: "t = set_sender c (AtLock ev) (s\<lparr>ls_calls := ls_calls s @ [(c, ev)]\<rparr>)"
    using step by (auto split: sender.splits)
  have "ls_mu s \<noteq> Some c" using locked_invD(1) [OF inv, of c] s by simp
  with s locked_invD [OF inv] show ?thesis unfolding locked_inv_def t by auto
next
  case (Lock c)
  then obtain ev where s: "ls_senders s c = AtLock ev" "ls_mu s = None"
    and t: "t = set_sender c (Holding ev) (s\<lparr>ls_mu := Some c\<rparr>)"
    using step by (auto split: sender.splits if_splits)
  with locked_invD [OF inv] show ?thesis unfolding locked_inv_def t by auto
next
  case (WriteBegin c)
  then obtain ev where s: "ls_senders s c = Holding ev" and t: "t = set_sender c (Writing ev (ls_stream s)) s"
    using step by (auto split: sender.splits)
  have "ls_mu s = Some c" using locked_invD(1) [OF inv, of c] s by simp
  with s locked_invD [OF inv] show ?thesis unfolding locked_inv_def t by auto
next
  case (WriteEnd c)
  then obtain ev seen where w: "ls_senders s c = Writing ev seen" using step by (cases "ls_senders s c") auto
  with locked_invD(2) [OF inv] have s: "ls_senders s c = Writing ev (ls_stream s)" by blast
  obtain e out' where m: "send_msg net ev (ls_stream s) = (e, out')" by (rule prod.exhaust)
  with WriteEnd s step have t: "t = set_sender c (Written e) (s\<lparr>ls_stream := out', ls_log := ls_log s @ [(c, ev, e)]\<rparr>)"
    by simp
  have mu: "ls_mu s = Some c" using locked_invD(1) [OF inv, of c] s by simp
  have others: "\<not> holds_mutex (ls_senders s d)" if "d \<noteq> c" for d
    using that locked_invD(1) [OF inv, of d] mu by auto
  have "ls_senders s d \<noteq> Writing ev' seen" "ls_senders s d \<noteq> Written e'" if "d \<noteq> c" for d ev' seen e'
    using others [OF that] by (metis holds_mutex.simps)+
  note alone = this
  show ?thesis
  proof (rule locked_invI)
    show "holds_mutex (ls_senders t d) \<longleftrightarrow> ls_mu t = Some d" for d using others [of d] mu by (simp add: t)
    show "seen = ls_stream t" if "ls_senders t d = Writing ev' seen" for d ev' seen
      using that alone(1) [of d ev' seen] by (auto simp: t split: if_splits)
    show "\<exists>xs ev. ls_log t = xs @ [(d, ev, e')]" if "ls_senders t d = Written e'" for d e'
      using that alone(2) [of d e'] by (auto simp: t split: if_splits)
    show "calls_of d (ls_calls t) = sent_of d (ls_log t) @ unsent (ls_senders t d)" for d
      using locked_invD(4) [OF inv, of d] s by (auto simp: t)
    show "send_all net (map (fst \<circ> snd) (ls_log t)) out = (map (snd \<circ> snd) (ls_log t), ls_stream t)"
      using locked_invD(5) [OF inv] m by (simp add: t send_all_snoc)
  qed
next
  case (Unlock c)
  then obtain e where s: "ls_senders s c = Written e" and t: "t = set_sender c Resting (s\<lparr>ls_mu := None\<rparr>)"
    using step by (auto split: sender.splits)
  have "ls_mu s = Some c" using locked_invD(1) [OF inv, of c] s by simp
  with s locked_invD [OF inv] show ?thesis unfolding locked_inv_def t by auto
qed

text \<open>There is no deadlock: either the holder of the mutex can go on, or the mutex is free for one that waits.\<close>

lemma send_progress:
  assumes "locked_inv net out s" "ls_senders s c \<noteq> Resting"
  shows "\<exists>t d. send_step net s t \<and> ls_senders s d \<noteq> Resting \<and> ls_senders t d \<noteq> ls_senders s d"
proof -
  have "\<exists>m t d. locked_step net s m = Some t \<and> ls_senders s d \<noteq> Resting \<and> ls_senders t d \<noteq> ls_senders s d"
  proof (cases "ls_mu s")
    case None
    with assms locked_invD(1) [OF assms(1), of c] obtain ev where "ls_senders s c = AtLock ev"
      by (cases "ls_senders s c") auto
    with None show ?thesis by (intro exI [of _ "Lock c"]) auto
  next
    case (Some d)
    then have "holds_mutex (ls_senders s d)" using locked_invD(1) [OF assms(1)] by blast
    then consider (enter) ev where "ls_senders s d = Holding ev" | (inside) ev seen where "ls_senders s d = Writing ev seen"
      | (leave) e where "ls_senders s d = Written e"
      by (cases "ls_senders s d") auto
    then show ?thesis
    proof cases
      case enter
      then show ?thesis by (intro exI [of _ "WriteBegin d"]) auto
    next
      case inside
      then show ?thesis by (intro exI [of _ "WriteEnd d"]) (auto simp: case_prod_beta)
    next
      case leave
      then show ?thesis by (intro exI [of _ "Unlock d"]) auto
    qed
  qed
  then show ?thesis using send_step.move by blast
qed

interpretation locked: invariant_system "stream_start out" "send_step net" "locked_inv net out" for net out
proof unfold_locales
  show "locked_inv net out (stream_start out)" by (rule locked_inv_start)
  show "locked_inv net out t" if "locked_inv net out s" "send_step net s t" for s t
    using that(2) by cases (rule locked_inv_step [OF that(1)])
qed

text \<open>C23: concurrent sends on one stream are serialised. However many goroutines call \<open>Send\<close> of the wrapper and
  however they interleave, at most one is inside the send of the stream; the stream holds what sending the messages one after the other
  gives, each answered as the transport answered it in that order; no message of a goroutine is lost, repeated or reordered; a
  goroutine that leaves \<open>Send\<close> takes the answer to its own message; and as long as some goroutine is in \<open>Send\<close>, one of them can move.\<close>

theorem sends_are_serialised:
  assumes "(send_step net)\<^sup>*\<^sup>* (stream_start out) s"
  shows "(\<forall>c d. holds_mutex (ls_senders s c) \<and> holds_mutex (ls_senders s d) \<longrightarrow> c = d) \<and>
    send_all net (map (fst \<circ> snd) (ls_log s)) out = (map (snd \<circ> snd) (ls_log s), ls_stream s) \<and>
    (\<forall>c. calls_of c (ls_calls s) = sent_of c (ls_log s) @ unsent (ls_senders s c)) \<and>
    (\<forall>c e. ls_senders s c = Written e \<longrightarrow> (\<exists>xs ev. ls_log s = xs @ [(c, ev, e)] \<and> last (calls_of c (ls_calls s)) = ev)) \<and>
    (\<forall>c. ls_senders s c \<noteq> Resting \<longrightarrow> (\<exists>t d. send_step net s t \<and> ls_senders s d \<noteq> Resting \<and> ls_senders t d \<noteq> ls_senders s d))"
proof (intro conjI allI impI)
  have inv: "locked_inv net out s" by (rule locked.reachable_inv [OF assms])
  show "c = d" if "holds_mutex (ls_senders s c) \<and> holds_mutex (ls_senders s d)" for c d
    using that past_lock_unique [OF inv, of c d] by simp
  show "send_all net (map (fst \<circ> snd) (ls_log s)) out = (map (snd \<circ> snd) (ls_log s), ls_stream s)"
    by (rule locked_invD(5) [OF inv])
  show calls: "calls_of c (ls_calls s) = sent_of c (ls_log s) @ unsent (ls_senders s c)" for c
    by (rule locked_invD(4) [OF inv])
  show "\<exists>xs ev. ls_log s = xs @ [(c, ev, e)] \<and> last (calls_of c (ls_calls s)) = ev" if "ls_senders s c = Written e" for c e
    using locked_invD(3) [OF inv that] calls [of c] that by auto
  show "\<exists>t d. send_step net s t \<and> ls_senders s d \<noteq> Resting \<and> ls_senders t d \<noteq> ls_senders s d" if "ls_senders s c \<noteq> Resting" for c
    by (rule send_progress [OF inv that])
qed

text \<open>Two goroutines that send at the same time: the second waits for the mutex, and both messages arrive.\<close>

definition sample_sends :: "string send_move list" where
  "sample_sends = [Send 0 ''a'', Send 1 ''b'', Lock 0, WriteBegin 0, WriteEnd 0, Unlock 0, Lock 1, WriteBegin 1, WriteEnd 1]"

theorem sends_are_serialised_witness:
  "\<exists>s. (send_step (\<lambda>_. None))\<^sup>*\<^sup>* (stream_start (0, [])) s \<and> ls_stream s = (2, [''a'', ''b'']) \<and>
     send_all (\<lambda>_. None) [''a'', ''b''] (0, []) = ([None, None], ls_stream s)"
proof -
  obtain s where run: "run_steps (locked_step (\<lambda>_. None)) (stream_start (0, [])) sample_sends = Some s"
    and s: "ls_stream s = (2, [''a'', ''b''])" "ls_log s = [(0, ''a'', None), (1, ''b'', None)]"
    by (simp add: sample_sends_def stream_start_def set_sender_def send_msg_def)
  have reach: "(send_step (\<lambda>_. None))\<^sup>*\<^sup>* (stream_start (0, [])) s" by (rule run_steps_reach [OF run]) (rule send_step.move)
  from conjunct1 [OF conjunct2 [OF sends_are_serialised [OF reach]]] s reach show ?thesis by auto
qed

end
