(* ===== verification/Log_Locked.thy ===== *)
theory Log_Locked
  imports Serve_Properties Locked_Send
begin

text \<open>
  The log stream of \<open>src/adapterhost/serve.go\<close> with its mutex. In \<open>Adapter_Serve\<close> a send of the implementation or of the heartbeat is
  one step of the log call; here both are goroutines inside \<open>grpcLogEventServer.Send\<close>, with the lock, the send of the stream and the
  unlock as steps of their own, and the detailed machine is shown to simulate the other one.
\<close>

section \<open>The machine\<close>

text \<open>
  Goroutine 0 runs the implementation and goroutine 1 the heartbeat. While the implementation is inside \<open>Send\<close>, \<open>ll_impl\<close> is still the
  action that called it; it goes on with the answer when \<open>Send\<close> returns.
\<close>

record locked_log =
  ll_wire :: "LogEvent locked_stream"
  ll_impl :: "log_action option"
  ll_errCh :: "go_error option option"
  ll_handler :: log_handler
  ll_done :: bool
  ll_result :: "go_error option option"

definition locked_log_start :: "grpcAdapterServer \<Rightarrow> string \<times> string \<Rightarrow> locked_log" where
  "locked_log_start s req =
     \<lparr>ll_wire = stream_start (0, []), ll_impl = Some (sv_Log (gs_impl s) req), ll_errCh = None,
      ll_handler = AwaitResult, ll_done = False, ll_result = None\<rparr>"

text \<open>The log call as the other machine sees it: an implementation whose send is done has its answer.\<close>

definition impl_view :: "LogEvent sender \<Rightarrow> log_action option \<Rightarrow> log_action option" where
  "impl_view p a =
     (case (p, a) of (Written e, Some (LogSend ev k)) \<Rightarrow> Some (k e) | _ \<Rightarrow> a)"

definition delivered_by :: "nat \<Rightarrow> (nat \<times> 'e \<times> go_error option) list \<Rightarrow> 'e list" where
  "delivered_by c xs = map (fst \<circ> snd) (filter (\<lambda>(d, ev, e). d = c \<and> e = None) xs)"

definition log_view :: "locked_log \<Rightarrow> log_call" where
  "log_view s =
     \<lparr>lg_out = ls_stream (ll_wire s), lg_impl = impl_view (ls_senders (ll_wire s) 0) (ll_impl s),
      lg_errCh = ll_errCh s, lg_handler = ll_handler s, lg_done = ll_done s,
      lg_sent = delivered_by 0 (ls_log (ll_wire s)), lg_result = ll_result s\<rparr>"

inductive locked_log_step :: "transport \<Rightarrow> locked_log \<Rightarrow> locked_log \<Rightarrow> bool" for net where
  impl_send:
    "ll_impl s = Some (LogSend ev k) \<Longrightarrow> locked_step net (ll_wire s) (Send 0 ev) = Some w \<Longrightarrow>
     locked_log_step net s (s\<lparr>ll_wire := w\<rparr>)"
| beat_send:
    "locked_step net (ll_wire s) (Send 1 heartbeat_event) = Some w \<Longrightarrow> locked_log_step net s (s\<lparr>ll_wire := w\<rparr>)"
| inside:
    "m \<in> {Lock c, WriteBegin c, WriteEnd c} \<Longrightarrow> locked_step net (ll_wire s) m = Some w \<Longrightarrow>
     locked_log_step net s (s\<lparr>ll_wire := w\<rparr>)"
| impl_sent:
    "ll_impl s = Some (LogSend ev k) \<Longrightarrow> ls_senders (ll_wire s) 0 = Written e \<Longrightarrow>
     locked_step net (ll_wire s) (Unlock 0) = Some w \<Longrightarrow>
     locked_log_step net s (s\<lparr>ll_wire := w, ll_impl := Some (k e)\<rparr>)"
| beat_sent:
    "locked_step net (ll_wire s) (Unlock 1) = Some w \<Longrightarrow> locked_log_step net s (s\<lparr>ll_wire := w\<rparr>)"
| impl_returns:
    "ll_impl s = Some (LogEnd e) \<Longrightarrow>
     locked_log_step net s (s\<lparr>ll_impl := None, ll_errCh := Some e, ll_result := Some e\<rparr>)"
| impl_waits:
    "ll_impl s = Some (LogBlock p) \<Longrightarrow> ll_done s \<Longrightarrow> locked_log_step net s (s\<lparr>ll_impl := Some p\<rparr>)"
| impl_looks:
    "ll_impl s = Some (LogLook k) \<Longrightarrow> locked_log_step net s (s\<lparr>ll_impl := Some (k (ll_done s))\<rparr>)"
| handler:
    "handler_step (log_view s) = Some t \<Longrightarrow>
     locked_log_step net s (s\<lparr>ll_errCh := lg_errCh t, ll_handler := lg_handler t\<rparr>)"
| cancel:
    "locked_log_step net s (s\<lparr>ll_done := True\<rparr>)"

section \<open>It simulates the log call with atomic sends\<close>

definition locked_log_inv :: "transport \<Rightarrow> locked_log \<Rightarrow> bool" where
  "locked_log_inv net s \<longleftrightarrow>
     locked_inv net (0, []) (ll_wire s) \<and>
     (\<forall>ev \<in> set (unsent (ls_senders (ll_wire s) 0)). \<exists>k. ll_impl s = Some (LogSend ev k)) \<and>
     (\<forall>e. ls_senders (ll_wire s) 0 = Written e \<longrightarrow> (\<exists>ev k. ll_impl s = Some (LogSend ev k))) \<and>
     set (unsent (ls_senders (ll_wire s) 1)) \<subseteq> {heartbeat_event} \<and>
     (\<forall>c > 1. ls_senders (ll_wire s) c = Resting)"

text \<open>The moves of the wrapper, one equation each.\<close>

lemma locked_step_iff:
  "locked_step net s (Send c ev) = Some t \<longleftrightarrow>
     ls_senders s c = Resting \<and> t = set_sender c (AtLock ev) (s\<lparr>ls_calls := ls_calls s @ [(c, ev)]\<rparr>)"
  "locked_step net s (Lock c) = Some t \<longleftrightarrow>
     (\<exists>ev. ls_senders s c = AtLock ev \<and> ls_mu s = None \<and> t = set_sender c (Holding ev) (s\<lparr>ls_mu := Some c\<rparr>))"
  "locked_step net s (WriteBegin c) = Some t \<longleftrightarrow>
     (\<exists>ev. ls_senders s c = Holding ev \<and> t = set_sender c (Writing ev (ls_stream s)) s)"
  "locked_step net s (WriteEnd c) = Some t \<longleftrightarrow>
     (\<exists>ev seen e out. ls_senders s c = Writing ev seen \<and> send_msg net ev seen = (e, out) \<and>
        t = set_sender c (Written e) (s\<lparr>ls_stream := out, ls_log := ls_log s @ [(c, ev, e)]\<rparr>))"
  "locked_step net s (Unlock c) = Some t \<longleftrightarrow>
     (\<exists>e. ls_senders s c = Written e \<and> t = set_sender c Resting (s\<lparr>ls_mu := None\<rparr>))"
  by (auto split: sender.splits prod.splits if_splits)

lemma delivered_by_simps [simp]:
  "delivered_by c [] = []"
  "delivered_by c (xs @ [(d, ev, e)]) = delivered_by c xs @ (if d = c \<and> e = None then [ev] else [])"
  by (simp_all add: delivered_by_def)

lemma locked_log_inv_start: "locked_log_inv net (locked_log_start s req)"
  by (simp add: locked_log_inv_def locked_log_start_def locked_inv_start) (simp add: stream_start_def)

text \<open>What the invariant asks of the two goroutines besides that of the wrapper.\<close>

definition senders_fit :: "log_action option \<Rightarrow> (nat \<Rightarrow> LogEvent sender) \<Rightarrow> bool" where
  "senders_fit a p \<longleftrightarrow>
     (\<forall>ev \<in> set (unsent (p 0)). \<exists>k. a = Some (LogSend ev k)) \<and>
     (\<forall>e. p 0 = Written e \<longrightarrow> (\<exists>ev k. a = Some (LogSend ev k))) \<and>
     set (unsent (p 1)) \<subseteq> {heartbeat_event} \<and> (\<forall>c > 1. p c = Resting)"

lemma locked_log_inv_alt:
  "locked_log_inv net s \<longleftrightarrow> locked_inv net (0, []) (ll_wire s) \<and> senders_fit (ll_impl s) (ls_senders (ll_wire s))"
  by (simp add: locked_log_inv_def senders_fit_def)

lemma senders_fit_outside:
  assumes "senders_fit a p" "\<And>ev k. a \<noteq> Some (LogSend ev k)"
  shows "p 0 = Resting \<and> senders_fit b p"
proof -
  have "p 0 = Resting" using assms by (cases "p 0") (auto simp: senders_fit_def)
  with assms(1) show ?thesis by (simp add: senders_fit_def)
qed

lemma senders_fit_inside:
  assumes "senders_fit a p" "unsent (p c) = [ev]" "set (unsent q) \<subseteq> {ev}"
  shows "senders_fit a (p(c := q))"
proof -
  from assms(1,2) consider "c = 0" "\<exists>k. a = Some (LogSend ev k)" | "c = 1" "ev = heartbeat_event"
    by (cases "c = 0"; cases "c = 1") (auto simp: senders_fit_def)
  then show ?thesis using assms(1,3) by cases (auto simp: senders_fit_def)
qed

lemma inside_senders:
  assumes "m \<in> {Lock c, WriteBegin c, WriteEnd c}" "locked_step net s m = Some w"
  shows "\<exists>ev. unsent (ls_senders s c) = [ev] \<and> set (unsent (ls_senders w c)) \<subseteq> {ev} \<and>
    ls_senders w = (ls_senders s)(c := ls_senders w c)"
proof -
  from assms(1) consider "m = Lock c" | "m = WriteBegin c" | "m = WriteEnd c" by blast
  then show ?thesis using assms(2)
    by cases (auto simp: locked_step_iff simp del: locked_step.simps)
qed

lemma locked_log_inv_step:
  assumes "locked_log_inv net s" "locked_log_step net s t"
  shows "locked_log_inv net t"
proof -
  have inv: "locked_inv net (0, []) (ll_wire s)" and fit: "senders_fit (ll_impl s) (ls_senders (ll_wire s))"
    using assms(1) by (simp_all add: locked_log_inv_alt)
  note keep = locked_inv_step [OF inv]
  from assms(2) show ?thesis
  proof (cases rule: locked_log_step.cases)
    case (impl_send ev k w)
    then have "senders_fit (ll_impl t) (ls_senders w)"
      using fit unfolding senders_fit_def by (auto simp: locked_step_iff simp del: locked_step.simps)
    with impl_send(1) keep [OF impl_send(3)] show ?thesis by (simp add: locked_log_inv_alt)
  next
    case (beat_send w)
    then have "senders_fit (ll_impl t) (ls_senders w)"
      using fit unfolding senders_fit_def by (auto simp: locked_step_iff simp del: locked_step.simps)
    with beat_send(1) keep [OF beat_send(2)] show ?thesis by (simp add: locked_log_inv_alt)
  next
    case (inside m c w)
    from inside_senders [OF inside(2,3)] obtain ev where ev: "unsent (ls_senders (ll_wire s) c) = [ev]"
      "set (unsent (ls_senders w c)) \<subseteq> {ev}" "ls_senders w = (ls_senders (ll_wire s))(c := ls_senders w c)" by blast
    from senders_fit_inside [OF fit ev(1,2)] ev(3) have "senders_fit (ll_impl s) (ls_senders w)" by simp
    with inside keep show ?thesis by (simp add: locked_log_inv_alt)
  next
    case (impl_sent ev k e w)
    then have "senders_fit (ll_impl t) (ls_senders w)"
      using fit unfolding senders_fit_def by (auto simp: locked_step_iff simp del: locked_step.simps)
    with impl_sent(1) keep [OF impl_sent(4)] show ?thesis by (simp add: locked_log_inv_alt)
  next
    case (beat_sent w)
    then have "senders_fit (ll_impl t) (ls_senders w)"
      using fit unfolding senders_fit_def by (auto simp: locked_step_iff simp del: locked_step.simps)
    with beat_sent(1) keep [OF beat_sent(2)] show ?thesis by (simp add: locked_log_inv_alt)
  next
    case (impl_returns e)
    with senders_fit_outside [OF fit] inv show ?thesis by (simp add: locked_log_inv_alt)
  next
    case (impl_waits p)
    with senders_fit_outside [OF fit] inv show ?thesis by (simp add: locked_log_inv_alt)
  next
    case (impl_looks k)
    with senders_fit_outside [OF fit] inv show ?thesis by (simp add: locked_log_inv_alt)
  qed (use inv fit in \<open>simp_all add: locked_log_inv_alt\<close>)
qed

text \<open>The step seen in the abstract machine: the end of a write, for the implementation or for the heartbeat.\<close>

lemma write_end_sim:
  assumes inv: "locked_log_inv net s" and w: "locked_step net (ll_wire s) (WriteEnd c) = Some w"
  shows "log_step net (log_view s) (log_view (s\<lparr>ll_wire := w\<rparr>))"
proof -
  have fit: "senders_fit (ll_impl s) (ls_senders (ll_wire s))" and li: "locked_inv net (0, []) (ll_wire s)"
    using inv by (simp_all add: locked_log_inv_alt)
  obtain ev seen e out where p: "ls_senders (ll_wire s) c = Writing ev seen" "send_msg net ev seen = (e, out)"
    and weq: "w = set_sender c (Written e) ((ll_wire s)\<lparr>ls_stream := out, ls_log := ls_log (ll_wire s) @ [(c, ev, e)]\<rparr>)"
    using w by (auto simp: locked_step_iff simp del: locked_step.simps)
  have m: "send_msg net ev (ls_stream (ll_wire s)) = (e, out)" using locked_invD(2) [OF li p(1)] p(2) by simp
  have "c = 0 \<or> c = 1" using fit p(1) by (metis One_nat_def less_one linorder_neqE_nat sender.distinct(5) senders_fit_def)
  then show ?thesis
  proof
    assume c: "c = 0"
    then obtain k where k: "ll_impl s = Some (LogSend ev k)" using fit p(1) by (auto simp: senders_fit_def)
    have "impl_step net (log_view s) = Some (log_view (s\<lparr>ll_wire := w\<rparr>))"
      using c p(1) k m by (simp add: weq impl_step_def log_view_def impl_view_def)
    then show ?thesis by (rule log_step.impl)
  next
    assume c: "c = 1"
    then have ev: "ev = heartbeat_event" using fit p(1) by (simp add: senders_fit_def)
    have "log_view (s\<lparr>ll_wire := w\<rparr>) = heartbeat_step net (log_view s)"
      using c m by (simp add: weq ev heartbeat_step_def log_view_def)
    then show ?thesis using log_step.heartbeat by metis
  qed
qed

lemma locked_log_sim:
  assumes inv: "locked_log_inv net s" and step: "locked_log_step net s t"
  shows "log_step net (log_view s) (log_view t) \<or> log_view t = log_view s"
  using step
proof (cases rule: locked_log_step.cases)
  case (impl_send ev k w)
  then show ?thesis by (auto simp: locked_step_iff log_view_def impl_view_def simp del: locked_step.simps)
next
  case (beat_send w)
  then show ?thesis by (auto simp: locked_step_iff log_view_def simp del: locked_step.simps)
next
  case (inside m c w)
  then consider "m = WriteEnd c" | "m = Lock c" | "m = WriteBegin c" by blast
  then show ?thesis
  proof cases
    case 1
    with write_end_sim [OF inv] inside show ?thesis by blast
  qed (use inside in \<open>auto simp: locked_step_iff log_view_def impl_view_def simp del: locked_step.simps\<close>)
next
  case (impl_sent ev k e w)
  then show ?thesis by (auto simp: locked_step_iff log_view_def impl_view_def simp del: locked_step.simps)
next
  case (beat_sent w)
  then show ?thesis by (auto simp: locked_step_iff log_view_def simp del: locked_step.simps)
next
  case (impl_returns e)
  then have "impl_step net (log_view s) = Some (log_view t)"
    by (simp add: impl_step_def log_view_def impl_view_def split: sender.splits)
  then show ?thesis by (blast intro: log_step.impl)
next
  case (impl_waits p)
  then have "impl_step net (log_view s) = Some (log_view t)"
    using senders_fit_outside [of "ll_impl s" "ls_senders (ll_wire s)"] inv
    by (simp add: locked_log_inv_alt impl_step_def log_view_def impl_view_def)
  then show ?thesis by (blast intro: log_step.impl)
next
  case (impl_looks k)
  then have "impl_step net (log_view s) = Some (log_view t)"
    using senders_fit_outside [of "ll_impl s" "ls_senders (ll_wire s)"] inv
    by (simp add: locked_log_inv_alt impl_step_def log_view_def impl_view_def)
  then show ?thesis by (blast intro: log_step.impl)
next
  case (handler u)
  have "log_view t = u"
    using handler by (auto simp: log_view_def handler_step_def split: log_handler.splits option.splits if_splits)
  with log_step.handler [OF handler(2), of net] show ?thesis by metis
next
  case cancel
  then have "log_view t = (log_view s)\<lparr>lg_done := True\<rparr>" by (simp add: log_view_def)
  then show ?thesis using log_step.cancel by metis
qed

interpretation log_mutex: simulation "locked_log_start srv req" "locked_log_step net" "locked_log_inv net" log_view "log_step net"
  for srv req net
  by unfold_locales (rule locked_log_inv_start, rule locked_log_inv_step, assumption+, rule locked_log_sim)

lemma log_view_start: "log_view (locked_log_start srv req) = log_start srv req"
  by (simp add: log_view_def locked_log_start_def stream_start_def log_start_def impl_view_def)

text \<open>C24: the log stream with its mutex behaves as if every send were one step. Whatever the interleaving of the lock, the send of the
  stream and the unlock in the goroutines of the implementation and of the heartbeat, every state is one the machine with atomic sends
  reaches too, with the same stream, the same context, the same state and result of the handler; and the two are never both inside the send.\<close>

theorem log_mutex_refines:
  assumes "(locked_log_step net)\<^sup>*\<^sup>* (locked_log_start srv req) s"
  shows "\<exists>t. (log_step net)\<^sup>*\<^sup>* (log_start srv req) t \<and> lg_out t = ls_stream (ll_wire s) \<and>
    lg_handler t = ll_handler s \<and> lg_errCh t = ll_errCh s \<and> lg_result t = ll_result s \<and> lg_done t = ll_done s \<and>
    lg_sent t = delivered_by 0 (ls_log (ll_wire s)) \<and>
    \<not> (holds_mutex (ls_senders (ll_wire s) 0) \<and> holds_mutex (ls_senders (ll_wire s) 1))"
proof -
  have inv: "locked_inv net (0, []) (ll_wire s)"
    using log_mutex.reachable_inv [OF assms] by (simp add: locked_log_inv_alt)
  have "(log_step net)\<^sup>*\<^sup>* (log_start srv req) (log_view s)"
    using log_mutex.reachable_sim [OF assms] by (simp add: log_view_start)
  moreover have "\<not> (holds_mutex (ls_senders (ll_wire s) 0) \<and> holds_mutex (ls_senders (ll_wire s) 1))"
    using past_lock_unique [OF inv, of 0 1] by auto
  ultimately show ?thesis by (intro exI [of _ "log_view s"]) (simp add: log_view_def)
qed

text \<open>A heartbeat that is being written while the implementation returns.\<close>

theorem log_mutex_refines_witness:
  "\<exists>s t. (locked_log_step (\<lambda>_. None))\<^sup>*\<^sup>* (locked_log_start quiet_server ([], [])) s \<and> ll_result s = Some None \<and>
     (log_step (\<lambda>_. None))\<^sup>*\<^sup>* (log_start quiet_server ([], [])) t \<and> lg_out t = (1, [heartbeat_event]) \<and> lg_result t = Some None"
proof -
  let ?init = "locked_log_start quiet_server ([], [])" and ?net = "\<lambda>_ :: nat. None :: go_error option"
  obtain w1 w2 w3 w4 where w: "locked_step ?net (ll_wire ?init) (Send 1 heartbeat_event) = Some w1"
    "locked_step ?net w1 (Lock 1) = Some w2" "locked_step ?net w2 (WriteBegin 1) = Some w3"
    "locked_step ?net w3 (WriteEnd 1) = Some w4" and out: "ls_stream w4 = (1, [heartbeat_event])"
    by (simp add: locked_log_start_def stream_start_def set_sender_def send_msg_def)
  let ?r = "\<lambda>s. s\<lparr>ll_impl := None, ll_errCh := Some None, ll_result := Some None\<rparr>"
  let ?s = "(?r (?init\<lparr>ll_wire := w3\<rparr>))\<lparr>ll_wire := w4\<rparr>"
  have s1: "locked_log_step ?net ?init (?init\<lparr>ll_wire := w1\<rparr>)" by (rule locked_log_step.beat_send [OF w(1)])
  have s2: "locked_log_step ?net (?init\<lparr>ll_wire := w1\<rparr>) (?init\<lparr>ll_wire := w2\<rparr>)"
    using locked_log_step.inside [of "Lock 1" 1 ?net "?init\<lparr>ll_wire := w1\<rparr>" w2] w(2) by simp
  have s3: "locked_log_step ?net (?init\<lparr>ll_wire := w2\<rparr>) (?init\<lparr>ll_wire := w3\<rparr>)"
    using locked_log_step.inside [of "WriteBegin 1" 1 ?net "?init\<lparr>ll_wire := w2\<rparr>" w3] w(3) by simp
  have "ll_impl (?init\<lparr>ll_wire := w3\<rparr>) = Some (LogEnd None)"
    by (simp add: locked_log_start_def quiet_server_def quiet_service_def)
  then have s4: "locked_log_step ?net (?init\<lparr>ll_wire := w3\<rparr>) (?r (?init\<lparr>ll_wire := w3\<rparr>))"
    by (rule locked_log_step.impl_returns)
  have s5: "locked_log_step ?net (?r (?init\<lparr>ll_wire := w3\<rparr>)) ?s"
    by (rule locked_log_step.inside [of "WriteEnd 1" 1]) (use w(4) in simp_all)
  have run: "(locked_log_step ?net)\<^sup>*\<^sup>* ?init ?s"
    using s1 s2 s3 s4 s5 by (meson converse_rtranclp_into_rtranclp rtranclp.rtrancl_refl)
  obtain t where "(log_step ?net)\<^sup>*\<^sup>* (log_start quiet_server ([], [])) t" "lg_out t = ls_stream (ll_wire ?s)" "lg_result t = ll_result ?s"
    using log_mutex_refines [OF run] by blast
  with run out show ?thesis by (intro exI [of _ ?s] exI [of _ t]) simp
qed

end
