(* ===== verification/Conformance.thy ===== *)
theory Conformance
  imports Spec_Properties
begin

text \<open>
  \<open>src/adapterhost/conformance.go\<close>: the case that checks that concurrent executes each get their own
  result. The reassembly of outputs is the proto module's and a parameter; what the adapter under test delivers on the stream of each call, in any
  interleaving, is an arbitrary function of the call and its request.
\<close>

section \<open>Options\<close>

definition defaultConcurrentExecuteCalls :: int where "defaultConcurrentExecuteCalls = 4"
definition minConcurrentExecuteCalls :: int where "minConcurrentExecuteCalls = 3"
definition defaultConcurrentExecuteCallTimeout :: "64 word" where
  "defaultConcurrentExecuteCallTimeout = 10 * 1000000000"

definition conformanceSessionID :: string where
  "conformanceSessionID = ''concurrent-execute-conformance''"

record ConcurrentExecuteOptions =
  opt_Calls :: int
  opt_CallTimeout :: "64 word"

type_synonym ConcurrentExecuteOption = "ConcurrentExecuteOptions \<Rightarrow> ConcurrentExecuteOptions"

definition WithConcurrentExecuteCalls :: "int \<Rightarrow> ConcurrentExecuteOption" where
  "WithConcurrentExecuteCalls n opts = opts\<lparr>opt_Calls := n\<rparr>"

definition WithConcurrentExecuteCallTimeout :: "64 word \<Rightarrow> ConcurrentExecuteOption" where
  "WithConcurrentExecuteCallTimeout d opts = opts\<lparr>opt_CallTimeout := d\<rparr>"

section \<open>Joining the fragments of a stream\<close>

definition get_chunk :: "ExecuteResultMsg \<Rightarrow> Chunk" where
  "get_chunk frag = (case res_chunk frag of Some ch \<Rightarrow> ch | None \<Rightarrow> \<lparr>chunk_seq = 0, chunk_total = 0, chunk_final = False\<rparr>)"

definition logical_result :: "string \<Rightarrow> string \<Rightarrow> ExecuteResultMsg" where
  "logical_result outcome outputs =
     \<lparr>res_outcome = outcome, res_comment = [], res_outputs_json = outputs, res_chunk = None\<rparr>"

text \<open>The loop over sequence numbers and totals, after the checks of the first total.\<close>

fun seq_scan :: "32 word \<Rightarrow> nat \<Rightarrow> ExecuteResultMsg list \<Rightarrow> go_error option" where
  "seq_scan tot i [] = None"
| "seq_scan tot i (frag # frags) =
     (if i \<noteq> 0 \<and> chunk_total (get_chunk frag) \<noteq> tot then
        Some (Errorf [Lit ''fragment['', Verb_d (int i), Lit ''] declares total '',
          Verb_d (uint (chunk_total (get_chunk frag))), Lit '', expected '', Verb_d (uint tot)])
      else if chunk_seq (get_chunk frag) \<noteq> of_nat i then
        Some (Errorf [Lit ''chunk seq gap: got seq '', Verb_d (uint (chunk_seq (get_chunk frag))),
          Lit '', expected '', Verb_d (int i)])
      else seq_scan tot (Suc i) frags)"

fun final_scan :: "nat \<Rightarrow> ExecuteResultMsg list \<Rightarrow> go_error option" where
  "final_scan i [] = None"
| "final_scan i (frag # frags) =
     (if chunk_final (get_chunk frag) then
        Some (Errorf [Lit ''fragment['', Verb_d (int i), Lit ''] (seq '',
          Verb_d (uint (chunk_seq (get_chunk frag))), Lit '') sets final flag early''])
      else final_scan (Suc i) frags)"

fun outcome_scan :: "string \<Rightarrow> nat \<Rightarrow> ExecuteResultMsg list \<Rightarrow> go_error option" where
  "outcome_scan outcome i [] = None"
| "outcome_scan outcome i (frag # frags) =
     (if res_outcome frag \<noteq> [] \<and> res_outcome frag \<noteq> outcome then
        Some (Errorf [Lit ''fragment['', Verb_d (int i), Lit ''] outcome '', Verb_q (res_outcome frag),
          Lit '' differs from fragment[0] outcome '', Verb_q outcome])
      else outcome_scan outcome (Suc i) frags)"

definition join_chunks ::
  "(ExecuteResultMsg list \<Rightarrow> string result) \<Rightarrow> ExecuteResultMsg list \<Rightarrow> ExecuteResultMsg result" where
  "join_chunks Join frags =
     (let tot = chunk_total (get_chunk (hd frags));
          outcome = res_outcome (hd frags)
      in if tot = 0 then Err (Errorf [Lit ''fragment[0] declares total 0''])
         else if tot \<noteq> of_nat (length frags) then
           Err (Errorf [Lit ''result declares total '', Verb_d (uint tot), Lit '' chunks but '',
             Verb_d (int (length frags)), Lit '' were received''])
         else
           (case seq_scan tot 0 frags of
              Some e \<Rightarrow> Err e
            | None \<Rightarrow>
                if \<not> chunk_final (get_chunk (frags ! unat (tot - 1))) then
                  Err (Errorf [Lit ''final chunk (seq '', Verb_d (uint (tot - 1)), Lit '') missing final flag''])
                else
                  (case final_scan 0 (take (unat (tot - 1)) frags) of
                     Some e \<Rightarrow> Err e
                   | None \<Rightarrow>
                       if outcome = [] then Err (Errorf [Lit ''fragment[0] outcome is empty''])
                       else
                         (case outcome_scan outcome 1 (tl frags) of
                            Some e \<Rightarrow> Err e
                          | None \<Rightarrow>
                              bind_result (wrap_err [Lit ''reassemble outputs: ''] (Join frags))
                                (\<lambda>outputs. Ok (logical_result outcome outputs))))))"

definition joinExecuteResultFragments ::
  "(ExecuteResultMsg list \<Rightarrow> string result) \<Rightarrow> ExecuteResultMsg list \<Rightarrow> ExecuteResultMsg result" where
  "joinExecuteResultFragments Join frags =
     (if frags = [] then
        Err (Errorf [Lit ''stream ended with no ExecuteResult: the result was lost''])
      else if length frags = 1 \<and> res_chunk (hd frags) = None then
        Ok (logical_result (res_outcome (hd frags)) (res_outputs_json (hd frags)))
      else if list_ex (\<lambda>frag. res_chunk frag = None) frags then
        Err (Errorf [Lit ''stream received '', Verb_d (int (length frags)),
          Lit '' ExecuteResult messages but only one non-chunked result is allowed''])
      else join_chunks Join frags)"

section \<open>Driving one call\<close>

text \<open>A stream: whether it could be opened, the events it delivers, and the error that ends it.\<close>

record exec_stream =
  st_open_err :: "go_error option"
  st_events :: "ExecuteEvent list"
  st_end :: go_error

fun event_result :: "ExecuteEvent \<Rightarrow> ExecuteResultMsg option" where
  "event_result (EvResult r) = Some r"
| "event_result _ = None"

definition driveConformanceExecute ::
  "(ExecuteResultMsg list \<Rightarrow> string result) \<Rightarrow> (ExecuteRequest \<Rightarrow> exec_stream) \<Rightarrow> ExecuteRequest \<Rightarrow>
   ExecuteResultMsg result" where
  "driveConformanceExecute Join client req =
     (case st_open_err (client req) of
        Some e \<Rightarrow> Err (Wrapf [Lit ''Execute('', Verb_s (rq_StepName req), Lit ''): ''] e [])
      | None \<Rightarrow>
          if \<not> errors_is (st_end (client req)) EOF then
            Err (Wrapf [Lit ''Execute('', Verb_s (rq_StepName req), Lit ''): recv: ''] (st_end (client req)) [])
          else
            wrap_err [Lit ''Execute('', Verb_s (rq_StepName req), Lit ''): '']
              (joinExecuteResultFragments Join (List.map_filter event_result (st_events (client req)))))"

section \<open>The case\<close>

definition sameExecuteResult :: "ExecuteResultMsg \<Rightarrow> ExecuteResultMsg \<Rightarrow> bool" where
  "sameExecuteResult a b \<longleftrightarrow> res_outcome a = res_outcome b \<and> res_outputs_json a = res_outputs_json b"

fun distinct_inner :: "nat \<Rightarrow> ExecuteResultMsg \<Rightarrow> nat \<Rightarrow> ExecuteResultMsg list \<Rightarrow> go_error option" where
  "distinct_inner i w j [] = None"
| "distinct_inner i w j (v # vs) =
     (if sameExecuteResult w v then
        Some (Errorf [Lit ''calls '', Verb_d (int i), Lit '' and '', Verb_d (int j),
          Lit '' expect identical results; expected results must be pairwise distinct so cross-delivery is detectable''])
      else distinct_inner i w (Suc j) vs)"

fun distinct_outer :: "nat \<Rightarrow> ExecuteResultMsg list \<Rightarrow> go_error option" where
  "distinct_outer i [] = None"
| "distinct_outer i (w # ws) = and_then (distinct_inner i w (Suc i) ws) (distinct_outer (Suc i) ws)"

definition verifyDistinctResults :: "ExecuteResultMsg list \<Rightarrow> go_error option" where
  "verifyDistinctResults wants = distinct_outer 0 wants"

type_synonym script = "nat \<Rightarrow> ExecuteRequest option \<times> ExecuteResultMsg option"

abbreviation conf_err :: "fmt_arg list \<Rightarrow> go_error" where
  "conf_err as \<equiv> Errorf (Lit ''adapterhost: RunConcurrentExecuteConformance: '' # as)"

definition script_entry :: "script \<Rightarrow> nat \<Rightarrow> (ExecuteRequest \<times> ExecuteResultMsg) result" where
  "script_entry script i =
     (case script i of
        (None, _) \<Rightarrow> Err (conf_err [Lit ''script returned nil request for call '', Verb_d (int i)])
      | (Some req, None) \<Rightarrow>
          Err (conf_err [Lit ''script returned nil expected result for call '', Verb_d (int i)])
      | (Some req, Some want) \<Rightarrow>
          if res_chunk want \<noteq> None then
            Err (conf_err [Lit ''expected result for call '', Verb_d (int i),
              Lit '' is chunked; the script must return the logical, non-chunked result''])
          else Ok (req\<lparr>rq_SessionId := conformanceSessionID\<rparr>, want))"

fun script_scan :: "script \<Rightarrow> nat list \<Rightarrow> (ExecuteRequest \<times> ExecuteResultMsg) list result" where
  "script_scan script [] = Ok []"
| "script_scan script (i # is) =
     bind_result (script_entry script i) (\<lambda>p. bind_result (script_scan script is) (\<lambda>ps. Ok (p # ps)))"

text \<open>The report on one call: nothing, or a line of text.\<close>

definition call_failure ::
  "text_env \<Rightarrow> nat \<Rightarrow> ExecuteResultMsg result \<Rightarrow> ExecuteResultMsg \<Rightarrow> string option" where
  "call_failure tenv i outcome want =
     (case outcome of
        Inl e \<Rightarrow> Some (''call '' @ dec_nat i @ '': '' @ error_text tenv e)
      | Inr got \<Rightarrow>
          if sameExecuteResult got want then None
          else Some (''call '' @ dec_nat i @ '': result mismatch: got outcome '' @ quote_text tenv (res_outcome got) @
            '' outputs '' @ res_outputs_json got @ ''; want outcome '' @ quote_text tenv (res_outcome want) @
            '' outputs '' @ res_outputs_json want))"

record conf_env =
  conf_join :: "ExecuteResultMsg list \<Rightarrow> string result"
  conf_serve_err :: "go_error option"
  conf_open_err :: "go_error option"
  conf_streams :: "nat \<Rightarrow> ExecuteRequest \<Rightarrow> exec_stream"
  conf_text :: text_env
  conf_duration_text :: "64 word \<Rightarrow> string"

definition conf_options :: "ConcurrentExecuteOption list \<Rightarrow> ConcurrentExecuteOptions" where
  "conf_options opts = fold (\<lambda>opt o'. opt o') opts
     \<lparr>opt_Calls = defaultConcurrentExecuteCalls, opt_CallTimeout = defaultConcurrentExecuteCallTimeout\<rparr>"

definition conf_outcomes ::
  "conf_env \<Rightarrow> (ExecuteRequest \<times> ExecuteResultMsg) list \<Rightarrow> ExecuteResultMsg result list" where
  "conf_outcomes env ps =
     map (\<lambda>(i, req, want). driveConformanceExecute (conf_join env) (conf_streams env i) req) (enumerate 0 ps)"

definition conf_failures ::
  "conf_env \<Rightarrow> (ExecuteRequest \<times> ExecuteResultMsg) list \<Rightarrow> string list" where
  "conf_failures env ps =
     List.map_filter (\<lambda>(i, outcome, (req, want)). call_failure (conf_text env) i outcome want)
       (enumerate 0 (zip (conf_outcomes env ps) ps))"

definition RunConcurrentExecuteConformance ::
  "conf_env \<Rightarrow> bool \<Rightarrow> script option \<Rightarrow> ConcurrentExecuteOption list \<Rightarrow> go_error option" where
  "RunConcurrentExecuteConformance env has_svc script opts =
     (if \<not> has_svc then Some (conf_err [Lit ''svc is nil''])
      else
        (case script of
           None \<Rightarrow> Some (conf_err [Lit ''script is nil''])
         | Some sc \<Rightarrow>
             let calls = opt_Calls (conf_options opts); timeout = opt_CallTimeout (conf_options opts)
             in if calls < minConcurrentExecuteCalls then
                  Some (conf_err [Verb_d calls, Lit '' concurrent calls; the case needs at least '',
                    Verb_d minConcurrentExecuteCalls])
                else if sint timeout \<le> 0 then
                  Some (conf_err [Lit ''CallTimeout must be > 0, got '', Verb_v (conf_duration_text env timeout)])
                else
                  (case script_scan sc [0..<nat calls] of
                     Inl e \<Rightarrow> Some e
                   | Inr ps \<Rightarrow>
                       (case verifyDistinctResults (map snd ps) of
                          Some e \<Rightarrow> Some (Wrapf [Lit ''adapterhost: RunConcurrentExecuteConformance: ''] e [])
                        | None \<Rightarrow>
                            (case conf_serve_err env of
                               Some e \<Rightarrow> Some (Wrapf [Lit ''adapterhost: start adapter under test: ''] e [])
                             | None \<Rightarrow>
                                 (case conf_open_err env of
                                    Some e \<Rightarrow> Some (Wrapf [Lit ''adapterhost: OpenSession('', Verb_q conformanceSessionID,
                                      Lit ''): ''] e [])
                                  | None \<Rightarrow>
                                      let failures = conf_failures env ps
                                      in if failures \<noteq> [] then
                                           Some (Errorf [Lit ''adapterhost: concurrent Execute conformance failed:\<newline>'',
                                             Verb_s (join_with ''\<newline>'' (sort failures))])
                                         else None))))))"

section \<open>What the join accepts\<close>

lemma seq_scan_None:
  "seq_scan tot i frags = None \<longleftrightarrow>
     (\<forall>k < length frags. chunk_seq (get_chunk (frags ! k)) = of_nat (i + k) \<and>
        (i + k \<noteq> 0 \<longrightarrow> chunk_total (get_chunk (frags ! k)) = tot))"
proof (induction frags arbitrary: i)
  case (Cons f frags)
  have "(\<forall>k < length (f # frags). P ((f # frags) ! k) (i + k)) \<longleftrightarrow>
      P f i \<and> (\<forall>k < length frags. P (frags ! k) (Suc i + k))" for P
    by (auto simp: less_Suc_eq_0_disj)
  from this [of "\<lambda>g n. chunk_seq (get_chunk g) = of_nat n \<and> (n \<noteq> 0 \<longrightarrow> chunk_total (get_chunk g) = tot)"]
  show ?case using Cons.IH [of "Suc i"] by auto
qed simp

lemma final_scan_None: "final_scan i frags = None \<longleftrightarrow> list_all (\<lambda>f. \<not> chunk_final (get_chunk f)) frags"
  by (induction frags arbitrary: i) auto

lemma outcome_scan_None:
  "outcome_scan out i frags = None \<longleftrightarrow> list_all (\<lambda>f. res_outcome f = [] \<or> res_outcome f = out) frags"
  by (induction frags arbitrary: i) auto

text \<open>A chunked delivery the host accepts.\<close>

definition chunk_fits :: "nat \<Rightarrow> nat \<Rightarrow> ExecuteResultMsg \<Rightarrow> bool" where
  "chunk_fits n k frag \<longleftrightarrow>
     res_chunk frag \<noteq> None \<and> chunk_seq (get_chunk frag) = of_nat k \<and> chunk_total (get_chunk frag) = of_nat n \<and>
     (chunk_final (get_chunk frag) \<longleftrightarrow> k = n - 1)"

definition delivery :: "ExecuteResultMsg list \<Rightarrow> bool" where
  "delivery frags \<longleftrightarrow>
     frags \<noteq> [] \<and> (\<forall>k < length frags. chunk_fits (length frags) k (frags ! k)) \<and> res_outcome (hd frags) \<noteq> [] \<and>
     list_all (\<lambda>f. res_outcome f = [] \<or> res_outcome f = res_outcome (hd frags)) (tl frags)"

lemma final_positions:
  assumes "frags \<noteq> []"
  shows "chunk_final (get_chunk (frags ! (length frags - 1))) \<and>
      list_all (\<lambda>f. \<not> chunk_final (get_chunk f)) (take (length frags - 1) frags) \<longleftrightarrow>
    (\<forall>k < length frags. chunk_final (get_chunk (frags ! k)) \<longleftrightarrow> k = length frags - 1)"
proof -
  have "k < length frags - 1 \<or> k = length frags - 1" if "k < length frags" for k using that by linarith
  moreover have "length frags - 1 < length frags" using assms by simp
  ultimately show ?thesis by (auto simp: list_all_length)
qed

lemma word_length:
  assumes "n < 2 ^ 32" "n \<noteq> 0"
  shows "(of_nat n :: 32 word) \<noteq> 0" "unat ((of_nat n :: 32 word) - 1) = n - 1"
proof -
  have n: "unat (of_nat n :: 32 word) = n" using assms(1) by (simp add: unat_of_nat)
  then show "(of_nat n :: 32 word) \<noteq> 0" using assms(2) by auto
  then show "unat ((of_nat n :: 32 word) - 1) = n - 1" using n by (simp add: unat_minus_one)
qed

lemma total_positions:
  assumes "0 < n"
  shows "T 0 = N \<and> (\<forall>k < n. S k \<and> (k \<noteq> (0 :: nat) \<longrightarrow> T k = T 0)) \<longleftrightarrow> (\<forall>k < n. S k \<and> T k = N)"
  using assms by (intro iffI) metis+

lemma join_chunks_Ok:
  assumes "frags \<noteq> []" "length frags < 2 ^ 32" "\<not> list_ex (\<lambda>f. res_chunk f = None) frags"
  shows "join_chunks Join frags = Ok r \<longleftrightarrow>
    delivery frags \<and> (\<exists>outputs. Join frags = Ok outputs \<and> r = logical_result (res_outcome (hd frags)) outputs)"
proof -
  let ?n = "length frags"
  let ?t = "chunk_total (get_chunk (hd frags))"
  have hd: "hd frags = frags ! 0" using assms(1) by (simp add: hd_conv_nth)
  have n: "(of_nat ?n :: 32 word) \<noteq> 0" "unat ((of_nat ?n :: 32 word) - 1) = ?n - 1"
    using word_length [of ?n] assms(1,2) by auto
  have chunk: "res_chunk (frags ! k) \<noteq> None" if "k < ?n" for k
    using assms(3) that by (auto simp: list_ex_length)
  have heads: "?t = of_nat ?n \<and> seq_scan ?t 0 frags = None \<longleftrightarrow>
      (\<forall>k < ?n. chunk_seq (get_chunk (frags ! k)) = of_nat k \<and> chunk_total (get_chunk (frags ! k)) = of_nat ?n)"
    unfolding seq_scan_None hd add_0 using assms(1) by (intro total_positions) simp
  have fits: "(\<forall>k < ?n. chunk_fits ?n k (frags ! k)) \<longleftrightarrow>
      ?t = of_nat ?n \<and> seq_scan ?t 0 frags = None \<and>
      chunk_final (get_chunk (frags ! (?n - 1))) \<and> list_all (\<lambda>f. \<not> chunk_final (get_chunk f)) (take (?n - 1) frags)"
    unfolding chunk_fits_def using chunk heads final_positions [OF assms(1)] by blast
  have "join_chunks Join frags = Ok r \<longleftrightarrow>
      ?t = of_nat ?n \<and> seq_scan ?t 0 frags = None \<and> chunk_final (get_chunk (frags ! (?n - 1))) \<and>
      final_scan 0 (take (?n - 1) frags) = None \<and> res_outcome (hd frags) \<noteq> [] \<and>
      outcome_scan (res_outcome (hd frags)) 1 (tl frags) = None \<and>
      (\<exists>outputs. Join frags = Ok outputs \<and> r = logical_result (res_outcome (hd frags)) outputs)"
    using n by (auto simp: join_chunks_def Let_def result_defs
        split: option.splits sum.splits if_splits)
  then show ?thesis using fits assms(1) unfolding delivery_def outcome_scan_None final_scan_None by blast
qed

text \<open>C19: the join accepts exactly what the host accepts: one unframed message, or a chunked delivery in
  arrival order whose fragments carry the sequence numbers 0 to n-1 and the total n, with the final flag on the last one only and an outcome on the first that
  no later fragment contradicts. The result is then the first outcome with the reassembled outputs.\<close>

theorem join_accepts_iff:
  assumes "length frags < 2 ^ 32"
  shows "joinExecuteResultFragments Join frags = Ok r \<longleftrightarrow>
    (\<exists>f. frags = [f] \<and> res_chunk f = None \<and> r = logical_result (res_outcome f) (res_outputs_json f)) \<or>
    delivery frags \<and> (\<exists>outputs. Join frags = Ok outputs \<and> r = logical_result (res_outcome (hd frags)) outputs)"
proof -
  have chunked: "\<not> list_ex (\<lambda>f. res_chunk f = None) frags" if "delivery frags"
    using that by (auto simp: delivery_def chunk_fits_def list_ex_length)
  show ?thesis
  proof (cases "frags = [] \<or> list_ex (\<lambda>f. res_chunk f = None) frags")
    case True
    with chunked show ?thesis
      by (auto simp: joinExecuteResultFragments_def delivery_def length_Suc_conv)
  next
    case False
    then have "joinExecuteResultFragments Join frags = join_chunks Join frags"
      by (cases frags) (auto simp: joinExecuteResultFragments_def)
    with False join_chunks_Ok [OF _ assms, of Join r] show ?thesis by auto
  qed
qed

definition sample_frag :: "nat \<Rightarrow> string \<Rightarrow> bool \<Rightarrow> ExecuteResultMsg" where
  "sample_frag k body final = \<lparr>res_outcome = ''ok'', res_comment = [], res_outputs_json = body,
     res_chunk = Some \<lparr>chunk_seq = of_nat k, chunk_total = 2, chunk_final = final\<rparr>\<rparr>"

definition concat_outputs :: "ExecuteResultMsg list \<Rightarrow> string result" where
  "concat_outputs frags = Ok (concat (map res_outputs_json frags))"

theorem join_accepts_iff_witness:
  "joinExecuteResultFragments concat_outputs [sample_frag 0 ''{'' False, sample_frag 1 ''}'' True] =
     Ok (logical_result ''ok'' ''{}'')"
proof -
  let ?fs = "[sample_frag 0 ''{'' False, sample_frag 1 ''}'' True]"
  have "delivery ?fs"
    by (auto simp: delivery_def chunk_fits_def sample_frag_def get_chunk_def less_Suc_eq)
  moreover have "concat_outputs ?fs = Ok ''{}''" "res_outcome (hd ?fs) = ''ok''"
    by (simp_all add: concat_outputs_def sample_frag_def)
  ultimately show ?thesis
    using join_accepts_iff [of ?fs concat_outputs "logical_result ''ok'' ''{}''"] by simp
qed

section \<open>A step of a spec survives the trip\<close>

text \<open>
  What is assumed of the proto module: the chunks of a result are numbered, totalled and flagged, carry the outcome on
  the first fragment and nothing contradicting later, and join back to the outputs they were cut from.
\<close>

definition chunker_ok :: "chunk_env \<Rightarrow> (ExecuteResultMsg list \<Rightarrow> string result) \<Rightarrow> bool" where
  "chunker_ok env Join \<longleftrightarrow>
     (\<forall>base json n. NeedsChunking env json n \<longrightarrow>
        (let fs = ChunkExecuteResultOutputs env base json n
         in fs \<noteq> [] \<and> length fs < 2 ^ 32 \<and> (\<forall>k < length fs. chunk_fits (length fs) k (fs ! k)) \<and>
            res_outcome (hd fs) = res_outcome base \<and>
            list_all (\<lambda>f. res_outcome f = [] \<or> res_outcome f = res_outcome base) (tl fs) \<and>
            Join fs = Ok json))"

lemma join_delivery:
  assumes "delivery frags" "length frags < 2 ^ 32" "Join frags = Ok outputs"
  shows "joinExecuteResultFragments Join frags = Ok (logical_result (res_outcome (hd frags)) outputs)"
proof -
  have nonempty: "frags \<noteq> []" and chunked: "\<not> list_ex (\<lambda>f. res_chunk f = None) frags"
    using assms(1) by (auto simp: delivery_def chunk_fits_def list_ex_length)
  then have "joinExecuteResultFragments Join frags = join_chunks Join frags"
    by (cases frags) (auto simp: joinExecuteResultFragments_def)
  with join_chunks_Ok [OF nonempty assms(2) chunked] assms(1,3) show ?thesis by simp
qed

lemma messages_join:
  assumes "chunker_ok env Join" "er_Outcome res \<noteq> []"
  shows "joinExecuteResultFragments Join (result_messages env s res json) = Ok (logical_result (er_Outcome res) json)"
proof -
  let ?n = "if sp_MaxChunkBytes s = 0 then DefaultMaxChunkBytes env else sp_MaxChunkBytes s"
  let ?base = "\<lparr>res_outcome = er_Outcome res, res_comment = er_Comment res, res_outputs_json = [], res_chunk = None\<rparr>"
  let ?fs = "ChunkExecuteResultOutputs env ?base json ?n"
  show ?thesis
  proof (cases "NeedsChunking env json ?n")
    case True
    have base: "res_outcome ?base = er_Outcome res" by simp
    have fs: "?fs \<noteq> []" "length ?fs < 2 ^ 32" "\<forall>k < length ?fs. chunk_fits (length ?fs) k (?fs ! k)"
      "res_outcome (hd ?fs) = er_Outcome res"
      "list_all (\<lambda>f. res_outcome f = [] \<or> res_outcome f = er_Outcome res) (tl ?fs)" "Join ?fs = Ok json"
      using assms(1) [unfolded chunker_ok_def Let_def, rule_format, OF True, of ?base] unfolding base by blast+
    then have "delivery ?fs" using assms(2) unfolding delivery_def by simp
    from join_delivery [where Join = Join, OF this fs(2,6)] fs(4) True show ?thesis
      by (simp add: result_messages_def Let_def)
  next
    case False
    then show ?thesis by (simp add: result_messages_def Let_def joinExecuteResultFragments_def)
  qed
qed

lemma map_filter_results: "List.map_filter event_result (map EvResult frags) = frags"
  by (induction frags) (simp_all add: List.map_filter_def)

text \<open>
  A result served from a spec survives the trip: given a chunker that keeps its contract and a stream that takes every
  message, the reader of the stream gets back the outcome of the handler and the encoded outputs, whether they were sent in one message or in
  chunks, provided the outcome is not empty.
\<close>

lemma spec_step_survives_join:
  assumes "chunker_ok env Join" "sp_Execute s = Some h" "h (execute_input req) = Ok (Some res)"
    and "MarshalOutputs env (er_Outputs res) = Ok json" "er_Outcome res \<noteq> []"
  shows "\<exists>n evs. Execute env (\<lambda>_. None) s req (0, []) = Some (None, (n, evs)) \<and>
    driveConformanceExecute Join (\<lambda>_. \<lparr>st_open_err = None, st_events = evs, st_end = Sentinel EOF\<rparr>) req =
      Ok (logical_result (er_Outcome res) json)"
  using Execute_result [OF assms(2-4), of "\<lambda>_. None" "(0, [])"]
    send_results_ok [of "result_messages env s res json" "\<lambda>_. None" 0 "rq_StepName req" "[]"]
    messages_join [OF assms(1,5), of s json]
  by (simp add: driveConformanceExecute_def map_filter_results)

definition halving_chunks :: chunk_env where
  "halving_chunks = \<lparr>MarshalOutputs = (\<lambda>_. Ok ''{}''), NeedsChunking = (\<lambda>json n. unat n < length json),
     ChunkExecuteResultOutputs = (\<lambda>base json n.
       [base\<lparr>res_outputs_json := take 1 json, res_chunk := Some \<lparr>chunk_seq = 0, chunk_total = 2, chunk_final = False\<rparr>\<rparr>,
        base\<lparr>res_outputs_json := drop 1 json, res_chunk := Some \<lparr>chunk_seq = 1, chunk_total = 2, chunk_final = True\<rparr>\<rparr>]),
     DefaultMaxChunkBytes = 1\<rparr>"

lemma halving_chunks_ok: "chunker_ok halving_chunks concat_outputs"
  by (simp add: chunker_ok_def halving_chunks_def concat_outputs_def chunk_fits_def get_chunk_def less_Suc_eq)

section \<open>What a passed case means\<close>

lemma distinct_inner_None: "distinct_inner i w j vs = None \<longleftrightarrow> list_all (\<lambda>v. \<not> sameExecuteResult w v) vs"
  by (induction vs arbitrary: j) auto

lemma same_sym: "sameExecuteResult a b \<longleftrightarrow> sameExecuteResult b a"
  by (auto simp: sameExecuteResult_def)

lemma distinct_outer_None:
  "distinct_outer n ws = None \<longleftrightarrow>
     (\<forall>i < length ws. \<forall>j < length ws. i \<noteq> j \<longrightarrow> \<not> sameExecuteResult (ws ! i) (ws ! j))"
proof (induction ws arbitrary: n)
  case (Cons w ws)
  have "(\<forall>i < length (w # ws). \<forall>j < length (w # ws). i \<noteq> j \<longrightarrow> \<not> sameExecuteResult ((w # ws) ! i) ((w # ws) ! j)) \<longleftrightarrow>
      (\<forall>j < length ws. \<not> sameExecuteResult w (ws ! j)) \<and>
      (\<forall>i < length ws. \<forall>j < length ws. i \<noteq> j \<longrightarrow> \<not> sameExecuteResult (ws ! i) (ws ! j))"
    by (simp add: All_less_Suc2) (use same_sym in blast)
  then show ?case using Cons.IH [of "Suc n"] by (simp add: distinct_inner_None list_all_length)
qed simp

lemma script_scan_Ok:
  "script_scan sc is = Ok ps \<Longrightarrow>
   list_all2 (\<lambda>i p. script_entry sc i = Ok p) is ps"
  by (induction "is" arbitrary: ps) (auto simp: result_defs split: sum.splits)

lemma script_entry_session:
  "script_entry sc i = Ok p \<Longrightarrow> rq_SessionId (fst p) = conformanceSessionID"
  by (auto simp: script_entry_def split: prod.splits option.splits if_splits)

lemma call_failure_None:
  "call_failure tenv i outcome want = None \<longleftrightarrow> (\<exists>got. outcome = Ok got \<and> sameExecuteResult got want)"
  by (auto simp: call_failure_def split: sum.splits)

lemma map_filter_Nil: "List.map_filter f xs = [] \<longleftrightarrow> (\<forall>x \<in> set xs. f x = None)"
  by (auto simp: List.map_filter_def filter_empty_conv)

lemma conf_failures_Nil:
  "conf_failures env ps = [] \<longleftrightarrow>
     (\<forall>i < length ps. \<exists>got. driveConformanceExecute (conf_join env) (conf_streams env i) (fst (ps ! i)) = Ok got \<and>
        sameExecuteResult got (snd (ps ! i)))"
proof -
  have outcomes: "length (conf_outcomes env ps) = length ps"
    "\<And>i. i < length ps \<Longrightarrow> conf_outcomes env ps ! i =
      driveConformanceExecute (conf_join env) (conf_streams env i) (fst (ps ! i))"
    by (simp_all add: conf_outcomes_def nth_enumerate_eq case_prod_beta)
  have "conf_failures env ps = [] \<longleftrightarrow>
      (\<forall>i < length ps. call_failure (conf_text env) i (conf_outcomes env ps ! i) (snd (ps ! i)) = None)"
    using outcomes(1)
    by (simp add: conf_failures_def map_filter_Nil all_set_conv_all_nth nth_enumerate_eq case_prod_beta)
  also have "\<dots> \<longleftrightarrow> (\<forall>i < length ps. \<exists>got.
      driveConformanceExecute (conf_join env) (conf_streams env i) (fst (ps ! i)) = Ok got \<and>
      sameExecuteResult got (snd (ps ! i)))"
    using outcomes(2) by (simp add: call_failure_None)
  finally show ?thesis .
qed

lemma conformance_passes:
  "RunConcurrentExecuteConformance env True (Some sc) opts = None \<longleftrightarrow>
     3 \<le> opt_Calls (conf_options opts) \<and> 0 < sint (opt_CallTimeout (conf_options opts)) \<and>
     conf_serve_err env = None \<and> conf_open_err env = None \<and>
     (\<exists>ps. script_scan sc [0..<nat (opt_Calls (conf_options opts))] = Ok ps \<and>
        verifyDistinctResults (map snd ps) = None \<and> conf_failures env ps = [])"
  by (auto simp: RunConcurrentExecuteConformance_def Let_def minConcurrentExecuteCalls_def
      split: option.splits sum.splits)

text \<open>C17: a passed case proves per-call delivery. If the case passes, there were at least three calls,
  all on one session, and the stream of every call delivered the result expected for that call and not the one expected for any other call.\<close>

theorem conformance_sound:
  assumes "RunConcurrentExecuteConformance env True (Some sc) opts = None"
    and "n = nat (opt_Calls (conf_options opts))"
  shows "3 \<le> n \<and> (\<exists>ps. script_scan sc [0..<n] = Ok ps \<and> length ps = n \<and>
    (\<forall>i < n. rq_SessionId (fst (ps ! i)) = conformanceSessionID \<and>
      (\<exists>got. driveConformanceExecute (conf_join env) (conf_streams env i) (fst (ps ! i)) = Ok got \<and>
         sameExecuteResult got (snd (ps ! i)) \<and>
         (\<forall>j < n. j \<noteq> i \<longrightarrow> \<not> sameExecuteResult got (snd (ps ! j))))))"
proof -
  from assms obtain ps where ps: "script_scan sc [0..<n] = Ok ps"
    and dist: "verifyDistinctResults (map snd ps) = None" and pass: "conf_failures env ps = []"
    and n: "3 \<le> n"
    by (auto simp: conformance_passes)
  note entries = script_scan_Ok [OF ps]
  then have len: "length ps = n" by (simp add: list_all2_conv_all_nth)
  have "rq_SessionId (fst (ps ! i)) = conformanceSessionID" if "i < n" for i
  proof -
    have "script_entry sc i = Ok (ps ! i)" using entries that by (auto simp: list_all2_conv_all_nth)
    then show ?thesis by (rule script_entry_session)
  qed
  moreover have "\<exists>got. driveConformanceExecute (conf_join env) (conf_streams env i) (fst (ps ! i)) = Ok got \<and>
      sameExecuteResult got (snd (ps ! i)) \<and> (\<forall>j < n. j \<noteq> i \<longrightarrow> \<not> sameExecuteResult got (snd (ps ! j)))"
    if i: "i < n" for i
  proof -
    obtain got where got: "driveConformanceExecute (conf_join env) (conf_streams env i) (fst (ps ! i)) = Ok got"
      "sameExecuteResult got (snd (ps ! i))" using pass i len by (auto simp: conf_failures_Nil)
    moreover have "\<not> sameExecuteResult (snd (ps ! i)) (snd (ps ! j))" if "j < n" "j \<noteq> i" for j
      using dist i that len by (auto simp: verifyDistinctResults_def distinct_outer_None)
    ultimately show ?thesis by (auto simp: sameExecuteResult_def)
  qed
  ultimately show ?thesis using ps len n by blast
qed

definition sample_script :: script where
  "sample_script i = (Some (sample_request\<lparr>rq_StepName := dec_nat i\<rparr>), Some (logical_result ''ok'' (dec_nat i)))"

definition echo_env :: conf_env where
  "echo_env = \<lparr>conf_join = concat_outputs, conf_serve_err = None, conf_open_err = None,
     conf_streams = (\<lambda>i req. \<lparr>st_open_err = None, st_events = [EvOther, EvResult (logical_result ''ok'' (rq_StepName req))],
       st_end = Sentinel EOF\<rparr>),
     conf_text = \<lparr>quote_text = (\<lambda>x. x), status_text = (\<lambda>_ x. x)\<rparr>, conf_duration_text = (\<lambda>_. [])\<rparr>"

lemma sample_options:
  "opt_Calls (conf_options [WithConcurrentExecuteCalls 3]) = 3"
  "0 < sint (opt_CallTimeout (conf_options [WithConcurrentExecuteCalls 3]))"
proof -
  show "opt_Calls (conf_options [WithConcurrentExecuteCalls 3]) = 3"
    by (simp add: conf_options_def WithConcurrentExecuteCalls_def)
  have "0 < sint (10 * 1000000000 :: 64 word)" by code_simp
  then show "0 < sint (opt_CallTimeout (conf_options [WithConcurrentExecuteCalls 3]))"
    by (simp add: conf_options_def WithConcurrentExecuteCalls_def defaultConcurrentExecuteCallTimeout_def)
qed

lemma sample_scan:
  "script_scan sample_script [0..<3] =
     Ok (map (\<lambda>i. (sample_request\<lparr>rq_StepName := dec_nat i, rq_SessionId := conformanceSessionID\<rparr>,
                   logical_result ''ok'' (dec_nat i))) [0, 1, 2])"
  by (simp add: upt_rec script_entry_def sample_script_def logical_result_def)

lemma echo_passes: "RunConcurrentExecuteConformance echo_env True (Some sample_script) [WithConcurrentExecuteCalls 3] = None"
proof -
  have drive: "driveConformanceExecute concat_outputs (conf_streams echo_env i) req = Ok (logical_result ''ok'' (rq_StepName req))"
    for i req
    by (simp add: driveConformanceExecute_def echo_env_def List.map_filter_def joinExecuteResultFragments_def logical_result_def)
  let ?ps = "map (\<lambda>i. (sample_request\<lparr>rq_StepName := dec_nat i, rq_SessionId := conformanceSessionID\<rparr>,
      logical_result ''ok'' (dec_nat i))) [0, 1, 2]"
  have "verifyDistinctResults (map snd ?ps) = None"
    by (simp add: verifyDistinctResults_def sameExecuteResult_def logical_result_def)
  moreover have "conf_failures echo_env ?ps = []"
    unfolding conf_failures_Nil
    using drive by (auto simp: echo_env_def sameExecuteResult_def less_Suc_eq)
  ultimately show ?thesis
    using sample_scan unfolding conformance_passes sample_options(1)
    by (simp add: sample_options(2)) (simp add: echo_env_def)
qed

theorem conformance_sound_witness:
  "\<exists>ps. script_scan sample_script [0..<3] = Ok ps \<and>
    (\<exists>got. driveConformanceExecute concat_outputs (conf_streams echo_env 1) (fst (ps ! 1)) = Ok got \<and>
       sameExecuteResult got (snd (ps ! 1)) \<and> \<not> sameExecuteResult got (snd (ps ! 0)))"
proof -
  have three: "3 = nat (opt_Calls (conf_options [WithConcurrentExecuteCalls 3]))" by (simp add: sample_options)
  have join: "conf_join echo_env = concat_outputs" by (simp add: echo_env_def)
  obtain ps where scan: "script_scan sample_script [0..<3] = Ok ps"
    and ps: "\<forall>i < 3. \<exists>got. driveConformanceExecute (conf_join echo_env) (conf_streams echo_env i) (fst (ps ! i)) = Ok got \<and>
         sameExecuteResult got (snd (ps ! i)) \<and> (\<forall>j < 3. j \<noteq> i \<longrightarrow> \<not> sameExecuteResult got (snd (ps ! j)))"
    using conformance_sound [OF echo_passes three] by blast
  have "(1 :: nat) < 3" "(0 :: nat) < 3" "(0 :: nat) \<noteq> 1" by simp_all
  with scan ps [rule_format, of 1, unfolded join] show ?thesis by blast
qed

end
