(* ===== verification/Conformance_Fan_Out.thy ===== *)
theory Conformance_Fan_Out
  imports Conformance
begin

text \<open>
  The concurrent part of \<open>RunConcurrentExecuteConformance\<close> (\<open>src/adapterhost/conformance.go\<close>): a loop that starts one goroutine per
  call, a wait group, and a slice in which each goroutine stores its outcome. The theory \<open>Conformance\<close> takes the outcomes as one list; here
  the goroutines interleave, and that list is what the wait returns to.
\<close>

section \<open>The machine\<close>

datatype worker = Unborn | Running | Stored | Exited

text \<open>
  The index of the loop, the counter of the wait group, the goroutines, the slice (\<^const>\<open>None\<close> is its zero value), whether \<open>wg.Wait()\<close> has
  returned, and whether the counter was taken below zero, which panics.
\<close>

record fan_out =
  fo_next :: nat
  fo_wg :: nat
  fo_workers :: "nat \<Rightarrow> worker"
  fo_outcomes :: "ExecuteResultMsg result option list"
  fo_passed :: bool
  fo_panicked :: bool

datatype fan_move = Spawn | RunCall nat | WgDone nat | WaitReturns

definition fan_start :: "'a list \<Rightarrow> fan_out" where
  "fan_start ps = \<lparr>fo_next = 0, fo_wg = 0, fo_workers = (\<lambda>_. Unborn), fo_outcomes = replicate (length ps) None,
     fo_passed = False, fo_panicked = False\<rparr>"

definition drive_call :: "conf_env \<Rightarrow> (ExecuteRequest \<times> ExecuteResultMsg) list \<Rightarrow> nat \<Rightarrow> ExecuteResultMsg result" where
  "drive_call env ps i = driveConformanceExecute (conf_join env) (conf_streams env i) (fst (ps ! i))"

fun fan_step ::
  "conf_env \<Rightarrow> (ExecuteRequest \<times> ExecuteResultMsg) list \<Rightarrow> fan_out \<Rightarrow> fan_move \<Rightarrow> fan_out option" where
  "fan_step env ps s Spawn =
     (if fo_next s < length ps
      then Some (s\<lparr>fo_wg := fo_wg s + 1, fo_workers := (fo_workers s)(fo_next s := Running), fo_next := fo_next s + 1\<rparr>)
      else None)"
| "fan_step env ps s (RunCall i) =
     (if i < length ps \<and> fo_workers s i = Running
      then Some (s\<lparr>fo_outcomes := (fo_outcomes s)[i := Some (drive_call env ps i)], fo_workers := (fo_workers s)(i := Stored)\<rparr>)
      else None)"
| "fan_step env ps s (WgDone i) =
     (if i < length ps \<and> fo_workers s i = Stored
      then Some (s\<lparr>fo_panicked := (fo_panicked s \<or> fo_wg s = 0), fo_wg := fo_wg s - 1, fo_workers := (fo_workers s)(i := Exited)\<rparr>)
      else None)"
| "fan_step env ps s WaitReturns =
     (if fo_next s = length ps \<and> fo_wg s = 0 \<and> \<not> fo_passed s then Some (s\<lparr>fo_passed := True\<rparr>) else None)"

section \<open>What the wait returns to\<close>

definition alive :: "worker \<Rightarrow> bool" where
  "alive p \<longleftrightarrow> p = Running \<or> p = Stored"

definition fan_inv :: "conf_env \<Rightarrow> (ExecuteRequest \<times> ExecuteResultMsg) list \<Rightarrow> fan_out \<Rightarrow> bool" where
  "fan_inv env ps s \<longleftrightarrow>
     fo_next s \<le> length ps \<and> length (fo_outcomes s) = length ps \<and>
     (\<forall>i. fo_workers s i = Unborn \<longleftrightarrow> fo_next s \<le> i) \<and>
     (\<forall>i. fo_workers s i = Stored \<or> fo_workers s i = Exited \<longrightarrow> fo_outcomes s ! i = Some (drive_call env ps i)) \<and>
     fo_wg s = card {i. alive (fo_workers s i)} \<and> finite {i. alive (fo_workers s i)} \<and>
     (fo_passed s \<longrightarrow> fo_next s = length ps \<and> fo_wg s = 0) \<and> \<not> fo_panicked s"

lemma fan_inv_start: "fan_inv env ps (fan_start ps)"
  by (simp add: fan_inv_def fan_start_def alive_def)

lemma fan_inv_born: "fan_inv env ps s \<Longrightarrow> fo_workers s i \<noteq> Unborn \<longleftrightarrow> i < fo_next s"
  by (simp add: fan_inv_def not_le)

lemma fan_inv_step:
  assumes inv: "fan_inv env ps s" and step: "fan_step env ps s m = Some t"
  shows "fan_inv env ps t"
proof (cases m)
  case Spawn
  then have n: "fo_next s < length ps" and t: "t = s\<lparr>fo_wg := fo_wg s + 1,
      fo_workers := (fo_workers s)(fo_next s := Running), fo_next := fo_next s + 1\<rparr>"
    using step by (auto split: if_splits)
  have "{i. alive (fo_workers t i)} = insert (fo_next s) {i. alive (fo_workers s i)}" by (auto simp: t alive_def)
  moreover have "fo_workers s (fo_next s) = Unborn" using inv by (simp add: fan_inv_def)
  then have "fo_next s \<notin> {i. alive (fo_workers s i)}" by (simp add: alive_def)
  ultimately have "card {i. alive (fo_workers t i)} = fo_wg t" "finite {i. alive (fo_workers t i)}"
    using inv by (simp_all add: fan_inv_def t)
  then show ?thesis using inv n unfolding fan_inv_def by (auto simp: t)
next
  case (RunCall i)
  then have i: "i < length ps" "fo_workers s i = Running" and t: "t = s\<lparr>fo_outcomes := (fo_outcomes s)[i := Some (drive_call env ps i)],
      fo_workers := (fo_workers s)(i := Stored)\<rparr>"
    using step by (auto split: if_splits)
  have "{k. alive (fo_workers t k)} = {k. alive (fo_workers s k)}" using i(2) by (auto simp: t alive_def)
  moreover have "i < fo_next s" using fan_inv_born [OF inv, of i] i(2) by simp
  ultimately show ?thesis using inv i unfolding fan_inv_def by (auto simp: t nth_list_update)
next
  case (WgDone i)
  then have i: "i < length ps" "fo_workers s i = Stored" and t: "t = s\<lparr>fo_panicked := (fo_panicked s \<or> fo_wg s = 0),
      fo_wg := fo_wg s - 1, fo_workers := (fo_workers s)(i := Exited)\<rparr>"
    using step by (auto split: if_splits)
  have "{k. alive (fo_workers t k)} = {k. alive (fo_workers s k)} - {i}" by (auto simp: t alive_def)
  moreover have "i \<in> {k. alive (fo_workers s k)}" using i(2) by (simp add: alive_def)
  moreover from this have "fo_wg s \<noteq> 0" using inv by (auto simp: fan_inv_def)
  moreover have "i < fo_next s" using fan_inv_born [OF inv, of i] i(2) by simp
  ultimately show ?thesis using inv i unfolding fan_inv_def by (auto simp: t)
next
  case WaitReturns
  with step inv show ?thesis by (auto simp: fan_inv_def split: if_splits)
qed

section \<open>The steps that are left\<close>

fun worker_left :: "worker \<Rightarrow> nat" where
  "worker_left Unborn = 0"
| "worker_left Running = 2"
| "worker_left Stored = 1"
| "worker_left Exited = 0"

definition workers_left :: "nat \<Rightarrow> (nat \<Rightarrow> worker) \<Rightarrow> nat" where
  "workers_left n w = (\<Sum>k < n. worker_left (w k))"

definition fan_left :: "'a list \<Rightarrow> fan_out \<Rightarrow> nat" where
  "fan_left ps s = 3 * (length ps - fo_next s) + workers_left (length ps) (fo_workers s) + (if fo_passed s then 0 else 1)"

lemma workers_left_upd:
  assumes "i < n"
  shows "workers_left n (w(i := p)) + worker_left (w i) = workers_left n w + worker_left p"
proof -
  have "(\<Sum>k \<in> {..<n} - {i}. worker_left ((w(i := p)) k)) = (\<Sum>k \<in> {..<n} - {i}. worker_left (w k))"
    by (rule sum.cong) auto
  then show ?thesis
    using sum.remove [of "{..<n}" i "\<lambda>k. worker_left ((w(i := p)) k)"] sum.remove [of "{..<n}" i "\<lambda>k. worker_left (w k)"] assms
    by (simp add: workers_left_def)
qed

lemma fan_left_step:
  assumes "fan_step env ps s m = Some t"
  shows "fan_left ps t < fan_left ps s"
proof (cases m)
  case Spawn
  with assms workers_left_upd [of "fo_next s" "length ps" "fo_workers s" Running] show ?thesis
    by (auto simp: fan_left_def split: if_splits)
next
  case (RunCall i)
  with assms workers_left_upd [of i "length ps" "fo_workers s" Stored] show ?thesis
    by (auto simp: fan_left_def split: if_splits)
next
  case (WgDone i)
  with assms workers_left_upd [of i "length ps" "fo_workers s" Exited] show ?thesis
    by (auto simp: fan_left_def split: if_splits)
next
  case WaitReturns
  with assms show ?thesis by (auto simp: fan_left_def split: if_splits)
qed

interpretation fan_turns: counted_system "fan_step env ps" "\<lambda>_. True" "fan_left ps" for env ps
  by unfold_locales (auto simp: fan_left_step)

lemma fan_progress:
  assumes "fan_inv env ps s" "\<not> fo_passed s"
  shows "\<exists>m t. fan_step env ps s m = Some t"
proof -
  consider "fo_next s < length ps" | "fo_next s = length ps" "fo_wg s = 0" | i where "alive (fo_workers s i)"
    using assms(1) by (cases "fo_wg s = 0") (fastforce simp: fan_inv_def)+
  then show ?thesis
  proof cases
    case 1
    then show ?thesis by (intro exI [of _ Spawn]) simp
  next
    case 2
    then show ?thesis using assms(2) by (intro exI [of _ WaitReturns]) simp
  next
    case (3 i)
    have "fo_workers s i \<noteq> Unborn" using 3 by (auto simp: alive_def)
    then have "i < length ps" using fan_inv_born [OF assms(1), of i] assms(1) by (simp add: fan_inv_def)
    with 3 have "(\<exists>t. fan_step env ps s (RunCall i) = Some t) \<or> (\<exists>t. fan_step env ps s (WgDone i) = Some t)"
      by (auto simp: alive_def)
    then show ?thesis by blast
  qed
qed

section \<open>The fan-out as a whole\<close>

interpretation fan: invariant_system "fan_start ps" "\<lambda>s t. \<exists>m. fan_step env ps s m = Some t" "fan_inv env ps" for env ps
  by unfold_locales (auto simp: fan_inv_start fan_inv_step)

lemma conf_outcomes_nth:
  "length (conf_outcomes env ps) = length ps"
  "i < length ps \<Longrightarrow> conf_outcomes env ps ! i = drive_call env ps i"
  by (simp_all add: conf_outcomes_def drive_call_def nth_enumerate_eq split: prod.splits)

lemma fan_inv_passed:
  assumes "fan_inv env ps s" "fo_passed s"
  shows "fo_outcomes s = map Some (conf_outcomes env ps)"
proof (rule nth_equalityI)
  show "length (fo_outcomes s) = length (map Some (conf_outcomes env ps))"
    using assms(1) by (simp add: fan_inv_def conf_outcomes_nth)
  fix i
  assume "i < length (fo_outcomes s)"
  then have i: "i < length ps" using assms(1) by (simp add: fan_inv_def)
  have "finite {k. alive (fo_workers s k)}" "card {k. alive (fo_workers s k)} = 0" using assms by (auto simp: fan_inv_def)
  then have "{k. alive (fo_workers s k)} = {}" by simp
  moreover have "fo_workers s i \<noteq> Unborn" using fan_inv_born [OF assms(1), of i] assms i by (simp add: fan_inv_def)
  ultimately have "fo_workers s i = Exited" by (cases "fo_workers s i") (auto simp: alive_def)
  then show "fo_outcomes s ! i = map Some (conf_outcomes env ps) ! i"
    using assms(1) i by (simp add: fan_inv_def conf_outcomes_nth)
qed

text \<open>C18: the fan-out of the conformance case collects every outcome. However the goroutines interleave, the counter of the wait group never
  goes below zero; as long as the wait has not returned some step is possible, and there are at most three steps per call and one
  more; and when the wait returns, each slot of the slice holds the outcome of its own call, so the report sees exactly the list of outcomes.\<close>

theorem fan_out_collects_all:
  assumes "run_steps (fan_step env ps) (fan_start ps) ms = Some s"
  shows "\<not> fo_panicked s \<and> length ms \<le> 3 * length ps + 1 \<and>
    (\<not> fo_passed s \<longrightarrow> (\<exists>m t. fan_step env ps s m = Some t)) \<and>
    (fo_passed s \<longrightarrow> fo_outcomes s = map Some (conf_outcomes env ps))"
proof -
  have inv: "fan_inv env ps s"
    by (rule fan.reachable_inv, rule run_steps_reach [OF assms]) blast
  have "fan_left ps (fan_start ps) = 3 * length ps + 1"
    by (simp add: fan_left_def fan_start_def workers_left_def)
  with fan_turns.own_steps_bounded [OF assms] have "length ms \<le> 3 * length ps + 1" by simp
  moreover have "\<not> fo_panicked s" using inv by (simp add: fan_inv_def)
  ultimately show ?thesis using fan_progress [OF inv] fan_inv_passed [OF inv] by blast
qed

text \<open>Two calls, the second of which answers first.\<close>

definition sample_pairs :: "(ExecuteRequest \<times> ExecuteResultMsg) list" where
  "sample_pairs = [(sample_request\<lparr>rq_StepName := ''a''\<rparr>, logical_result ''ok'' ''1''), (sample_request\<lparr>rq_StepName := ''b''\<rparr>, logical_result ''ok'' ''2'')]"

theorem fan_out_collects_all_witness:
  "\<exists>s. run_steps (fan_step echo_env sample_pairs) (fan_start sample_pairs)
       [Spawn, Spawn, RunCall 1, WgDone 1, RunCall 0, WgDone 0, WaitReturns] = Some s \<and>
     fo_passed s \<and> fo_outcomes s = map Some (conf_outcomes echo_env sample_pairs)"
proof -
  obtain s where s: "run_steps (fan_step echo_env sample_pairs) (fan_start sample_pairs)
      [Spawn, Spawn, RunCall 1, WgDone 1, RunCall 0, WgDone 0, WaitReturns] = Some s" and passed: "fo_passed s"
    by (simp add: sample_pairs_def fan_start_def)
  from fan_out_collects_all [OF s] s passed show ?thesis by blast
qed

end
