(* ===== verification/Loopback.thy ===== *)
theory Loopback
  imports Conformance Serve_Properties
begin

text \<open>
  The conformance case (\<open>src/adapterhost/conformance.go\<close>) run against the SDK's own spec tier behind the real bridge: the calls of the
  case are goroutines on one connection, and the case is shown to pass exactly if every call was answered with its own expected result.
\<close>

section \<open>The server under test\<close>


section \<open>Concurrent calls on one connection\<close>

text \<open>
  A call is in the handler of the adapter author, delivering what the bridge sends for the handler's answer, or over: its stream ended
  with the status of the call, or its deadline passed at the client first. What a handler answers is not a function of its request: the handlers of
  concurrent calls may share any state, so the answer is whatever it is when the handler returns. The frames of all calls are on one connection, in the
  order of the sends, each with the number of its stream.
\<close>

datatype exec_call =
    InHandler
  | Delivering "ExecuteResult option result" "ExecuteEvent list" "go_error option"
  | Ended "ExecuteResult option result" "go_error option"
  | Expired

record loopback =
  lb_calls :: "nat \<Rightarrow> exec_call"
  lb_wire :: "(nat \<times> ExecuteEvent) list"



definition set_call :: "nat \<Rightarrow> exec_call \<Rightarrow> loopback \<Rightarrow> loopback" where
  "set_call c p s = s\<lparr>lb_calls := (lb_calls s)(c := p)\<rparr>"

lemma set_call_simps [simp]:
  "lb_calls (set_call c p s) = (lb_calls s)(c := p)" "lb_wire (set_call c p s) = lb_wire s"
  by (simp_all add: set_call_def)

text \<open>What the bridge of the spec does with one call, on a connection that takes every message, when the handler answers \<open>ans\<close>.\<close>

definition answered_with :: "Spec \<Rightarrow> ExecuteResult option result \<Rightarrow> Spec" where
  "answered_with spec ans = spec\<lparr>sp_Execute := Some (\<lambda>_. ans)\<rparr>"



text \<open>
  What the client of a call reads: the frames of its stream, in their order, and then the end of the stream, the
  status of the error the handler returned, or that its deadline has passed. How grpc turns an error into a status is a parameter.
\<close>

definition frames_of :: "nat \<Rightarrow> loopback \<Rightarrow> ExecuteEvent list" where
  "frames_of c s = map snd (filter (\<lambda>p. fst p = c) (lb_wire s))"





section \<open>What a call delivers\<close>






lemma result_messages_answered [simp]: "result_messages env (answered_with spec ans) = result_messages env spec"
  by (simp add: result_messages_def answered_with_def fun_eq_iff)


section \<open>The calls do not mix\<close>



lemma frames_of_simps [simp]:
  "frames_of c (set_call d p s) = frames_of c s"
  "frames_of c (u\<lparr>lb_wire := lb_wire s @ [(d, ev)]\<rparr>) = frames_of c s @ (if d = c then [ev] else [])"
  by (simp_all add: frames_of_def)




section \<open>The verdict\<close>











end
