(* ===== verification/Greeter.thy ===== *)
theory Greeter
  imports Serve_Properties
begin

text \<open>
  \<open>src/examples/greeter/main.go\<close>: the example adapter, a client of the spec surface. It is modelled to the
  end: what its process writes when asked for the manifest, and what a step of it sends.
\<close>

section \<open>The adapter\<close>

text \<open>Reading a key of a map that may be nil gives the empty string if there is none.\<close>

definition map_get :: "string nmap \<Rightarrow> string \<Rightarrow> string" where
  "map_get m k = (case nmap m k of None \<Rightarrow> [] | Some v \<Rightarrow> v)"

definition greeterGreeting :: "string \<Rightarrow> string" where
  "greeterGreeting name = ''hello, '' @ (if name = [] then ''world'' else name)"

definition executeGreet :: "ExecuteInput \<Rightarrow> ExecuteResult option result" where
  "executeGreet inp =
     Ok (Some \<lparr>er_Outcome = ''success'', er_Comment = [],
       er_Outputs = Some [(''greeting'', GStr (greeterGreeting (map_get (ei_Input inp) ''name'')))]\<rparr>)"

definition greeterSpec :: Spec where
  "greeterSpec = \<lparr>sp_Name = ''greeter'', sp_Version = ''0.1.0'', sp_Description = ''greets politely'',
     sp_SourceURL = ''https://github.com/brokenbots/criteria-go-adapter-sdk'', sp_Capabilities = None,
     sp_Platforms = Some [''linux/amd64'', ''linux/arm64'', ''darwin/arm64''],
     sp_CompatibleEnvironments = None, sp_ContainerImage = [], sp_MaxChunkBytes = 0, sp_SupportedFeatures = None,
     sp_ConfigSchema = [], sp_InputSchema = [Field ''name'' SchemaTypeString False ''who to greet''],
     sp_OutputSchema = [Field ''greeting'' SchemaTypeString True ''the greeting''], sp_Secrets = [],
     sp_Permissions = None, sp_Examples = [], sp_OpenSession = None, sp_Execute = Some executeGreet, sp_Log = None,
     sp_CloseSession = None, sp_PermissionsFunc = None, sp_Pause = None, sp_Resume = None, sp_Snapshot = None,
     sp_Restore = None, sp_Inspect = None\<rparr>"

definition greeter_main :: "spec_world \<Rightarrow> process \<Rightarrow> string list \<Rightarrow> start" where
  "greeter_main w p ks = ServeSpec w p ks (Some greeterSpec)"

section \<open>Its manifest\<close>

lemmas greeter_defs = greeterSpec_def Field_def SchemaTypeString_def

lemma greeter_valid: "validate greeterSpec = None"
  by (simp add: validate_def greeter_defs)

lemma greeter_info: "\<exists>info. deriveInfo RF greeterSpec = Ok info"
  unfolding deriveInfo_def greeter_valid by (simp add: resolveExamples_def greeter_defs)

lemma greeter_texts: "list_all utf8_ok (spec_texts greeterSpec)"
  unfolding spec_texts_def greeter_defs by (simp del: utf8_ok.simps(2) add: utf8_ascii)

lemma greeter_publishable: "publishable greeterSpec"
proof -
  have "MatchString nameRe ''greeter''" "MatchString versionRe ''0.1.0''" "platform_ok ''linux/amd64''"
    "platform_ok ''linux/arm64''" "platform_ok ''darwin/arm64''" by code_simp+
  moreover have "MatchString urlSchemeRe ''https://github.com/brokenbots/criteria-go-adapter-sdk''" by code_simp
  ultimately show ?thesis by (simp add: publishable_def greeter_defs manifest_types_def)
qed

lemma greeter_orders:
  assumes "deriveInfo RF greeterSpec = Ok info"
  shows "info_orders [] [] [''name''] [''greeting''] info"
proof -
  note info = deriveInfo_Ok [OF assms] and ok = validate_NoneD [OF greeter_valid]
  have "dom (nmap (in_Secrets info)) = {}" "dom (nmap (in_ConfigSchema info)) = {}"
    "dom (nmap (in_InputSchema info)) = {''name''}" "dom (nmap (in_OutputSchema info)) = {''greeting''}"
    unfolding info(3-6) schema_of_spec(1) [OF ok(4)] schema_of_spec(1) [OF ok(5)] schema_of_spec(1) [OF ok(6)] secrets_of_spec(1) [OF ok(7)]
    by (simp_all add: greeter_defs)
  then show ?thesis by (simp add: info_orders_def range_order_def)
qed

text \<open>C40: the example adapter can be published: started with the manifest flag among its arguments, its
  process writes bytes that parse strictly to a manifest named \<open>greeter\<close> that passes the strict validation.\<close>

theorem greeter_manifest_is_published:
  assumes "''--emit-manifest'' \<in> set args"
  shows "\<exists>b m. greeter_main w \<lparr>pr_args = args, pr_stdout = None\<rparr> [] = WroteManifest b \<and> Parse b = Ok m \<and>
    ma_Name m = ''greeter'' \<and> Validate [] [''name''] [''greeting''] m = None"
proof -
  obtain info where info: "deriveInfo (sw_ReadFile w) greeterSpec = Ok info" using greeter_info by blast
  note ord = greeter_orders [OF info, unfolded info_orders_def]
  let ?b = "json_indent 0 (doc_json (buildManifestDoc [] info)) @ [CHR 0x0A]"
  let ?m = "mirror (buildManifestDoc [] info)"
  have req: "emitManifestRequested args" using assms by (auto simp: emitManifestRequested_def list_ex_iff)
  have "greeter_main w \<lparr>pr_args = args, pr_stdout = None\<rparr> [] = WroteManifest ?b"
    using req emitManifestFromSpec_Ok [OF info, of "[]"]
    by (simp add: greeter_main_def ServeSpec_def SpecService_def greeter_valid runEmitManifestIfRequested_def)
  moreover have "Parse ?b = Ok ?m"
    using ord by (intro Parse_doc spec_doc_utf8 [OF info greeter_texts] built_ranges more_newline) simp
  moreover have "Validate [] [''name''] [''greeting''] ?m = None"
    using Validate_spec [OF info] ord greeter_publishable by blast
  moreover have "ma_Name ?m = ''greeter''"
    unfolding mirror_built using deriveInfo_Ok(7) [OF info] by (simp add: greeter_defs)
  ultimately show ?thesis by metis
qed

theorem greeter_manifest_is_published_witness:
  "\<exists>b m. greeter_main sample_world \<lparr>pr_args = [''-v'', ''--emit-manifest''], pr_stdout = None\<rparr> [] = WroteManifest b \<and>
     Parse b = Ok m \<and> ma_Name m = ''greeter''"
proof -
  have "''--emit-manifest'' \<in> set [''-v'', ''--emit-manifest'']" by simp
  from greeter_manifest_is_published [OF this] show ?thesis by blast
qed

section \<open>Its step\<close>

text \<open>A step of the example adapter, called through the bridge, sends exactly one result: the
  outcome success with the encoding of the single output \<open>greeting\<close>, which greets the name of the input, or the world if there is none.\<close>

theorem greeter_step_greets:
  assumes "GRPCServer (Some (specService w greeterSpec)) = Ok s"
    and "MarshalOutputs (sw_chunks w)
      (Some [(''greeting'', GStr (''hello, '' @ (case nmap (rq_Input req) ''name'' of
         None \<Rightarrow> ''world'' | Some n \<Rightarrow> if n = [] then ''world'' else n)))]) = Ok json"
    and "\<not> NeedsChunking (sw_chunks w) json (DefaultMaxChunkBytes (sw_chunks w))" and "net n = None"
  shows "server_Execute s net req (n, evs) =
    Some (None, (Suc n, evs @ [EvResult \<lparr>res_outcome = ''success'', res_comment = [], res_outputs_json = json, res_chunk = None\<rparr>]))"
proof -
  have s: "gs_impl s = specService w greeterSpec" using assms(1) by (auto simp: GRPCServer_def)
  have "greeterGreeting (map_get (ei_Input (execute_input req)) ''name'') = ''hello, '' @ (case nmap (rq_Input req) ''name'' of
      None \<Rightarrow> ''world'' | Some n \<Rightarrow> if n = [] then ''world'' else n)"
    by (simp add: greeterGreeting_def map_get_def execute_input_def split: option.splits)
  with assms(2-4) show ?thesis
    unfolding server_Execute_def s
    by (simp add: specService_def Execute_def greeterSpec_def executeGreet_def send_msg_def Let_def)
qed

definition json_world :: spec_world where
  "json_world = sample_world\<lparr>sw_chunks := sample_chunks\<lparr>MarshalOutputs := (\<lambda>o1. Ok (json_print (GMap (elems o1)))),
     NeedsChunking := (\<lambda>_ _. False)\<rparr>\<rparr>"

theorem greeter_step_greets_witness:
  "\<exists>s. GRPCServer (Some (specService json_world greeterSpec)) = Ok s \<and>
     server_Execute s (\<lambda>_. None) sample_request (0, []) =
       Some (None, (1, [EvResult \<lparr>res_outcome = ''success'', res_comment = [],
         res_outputs_json = json_print (GMap [(''greeting'', GStr ''hello, world'')]), res_chunk = None\<rparr>]))"
proof -
  obtain s where s: "GRPCServer (Some (specService json_world greeterSpec)) = Ok s" by (simp add: GRPCServer_def)
  have "nmap (rq_Input sample_request) ''name'' = None" by (simp add: sample_request_def nmap_def)
  then have "MarshalOutputs (sw_chunks json_world) (Some [(''greeting'', GStr (''hello, '' @ (case nmap (rq_Input sample_request) ''name'' of
      None \<Rightarrow> ''world'' | Some n \<Rightarrow> if n = [] then ''world'' else n)))]) =
      Ok (json_print (GMap [(''greeting'', GStr ''hello, world'')]))"
    by (simp add: json_world_def del: json_print.simps)
  from greeter_step_greets [OF s this, of "\<lambda>_. None" 0 "[]"] s show ?thesis
    by (simp add: json_world_def del: json_print.simps)
qed

end
