(* ===== verification/Spec2Isabelle.thy ===== *)
theory Spec2Isabelle
  imports Tool_Call_Sequential Tool_Call_Dispatch Log_Termination Log_Locked Conformance_Fan_Out Loopback Greeter
begin

text \<open>
  A verification of the Go adapter SDK (\<open>src/adapterhost\<close>, \<open>src/internal/strictmanifest\<close>,
  \<open>src/examples/greeter\<close>).

  \<^bold>\<open>The program.\<close> An adapter is a process that a Criteria host drives over grpc. An author either implements the
  \<open>Service\<close> interface (\<open>service.go\<close>, tier 2) or declares a \<open>Spec\<close>, plain data with handler functions
  (\<open>spec.go\<close>, tier 1), from which the SDK derives the description the host reads and a service that calls the handlers.
  \<open>serve.go\<close> bridges a service to the grpc server of a plugin process, \<open>serve_remote.go\<close> to an outbound
  connection with redial and backoff. Started with \<open>--emit-manifest\<close> the process prints its manifest instead
  (\<open>manifest.go\<close>); \<open>strictmanifest\<close> restates the host's parser for it. During a step an adapter reads secrets
  (\<open>secrets.go\<close>) and calls tools of other adapters through a bridge over the event and permission streams
  (\<open>toolcall.go\<close>). \<open>conformance.go\<close> is a test case that checks how concurrent steps are answered.

  \<^bold>\<open>The theories.\<close>
  \<^item> \<open>Go_Prelude\<close>: slices, maps with an explicit range order, errors with their wrapping, decimal and hexadecimal
    printing, and the locales for machines with an invariant, for a machine that simulates another, for machines in which the steps of one participant lower a
    rank (in a well-founded order, or a number that then bounds those steps), and for scans that reject a repeated key.
  \<^item> \<open>Go_JSON\<close>, \<open>Go_JSON_Facts\<close>: the part of \<open>encoding/json\<close> the code uses (printing, indenting, scanning,
    parsing, stream decoding), with the round trip. \<open>Go_Regexp\<close>: the anchored patterns with a derivative matcher proved
    against their languages.
  \<^item> \<open>Adapter_Service\<close>: wire messages, error sentinels, and the permission loop of \<open>service.go\<close>; the locale
    \<open>recv_loop\<close> is the contract of a loop over that stream, interpreted for the default loop here and for the dispatch loop of the
    bridge in \<open>Tool_Call\<close>.
  \<^item> \<open>Tool_Call\<close>, \<open>Tool_Call_System\<close>, \<open>Tool_Call_Termination\<close>, \<open>Tool_Call_Results\<close>,
    \<open>Tool_Call_Sequential\<close>, \<open>Tool_Call_Wire\<close>, \<open>Tool_Call_Dispatch\<close>:
    \<open>toolcall.go\<close>. The bridge is a record with a store of call entries that the pending map and the waiting callers share.
    \<open>CallAdapterTool\<close> is cut at the points other goroutines can observe; any number of callers, the dispatch loop and the end of the stream
    interleave in \<open>sys_step\<close> and its closure \<open>call_step\<close>, together with the passing of time and the end of contexts: a select sees its
    context only when it is done, by a cancel or because the deadline chosen in \<open>call_bound\<close> has passed. What the random source gives is any
    history of bytes and failures. Shown: no double close of a channel and no leaked call, whatever the source gives; no lost call, for a source that
    has not repeated itself (\<open>draws_fresh\<close>, a hypothesis of that theorem); what it takes for two calls to share an id; that every call whose
    stream ends returns, that a reply, a failure or a denial reaches the call it belongs to,
    and when a session is marked as unsupported. Three results tie the cut to the code: the steps compose to \<open>CallAdapterTool\<close> written in one
    piece, with its result, its effect on the bridge and the events it sends, whatever the others do during its wait; the dispatch loop, run on any
    sequence of receives and sends, is a schedule of the machine's actions; and in every infinite execution a call takes at most six steps and returns, because its wait
    always has a deadline.
  \<^item> \<open>Secrets_View\<close>: \<open>secrets.go\<close>.
  \<^item> \<open>Adapter_Spec\<close>, \<open>Spec_Properties\<close>: the data, validation, derived description and service of
    \<open>spec.go\<close>. A log handler is a \<open>codatatype\<close> of lines, waits for the end of the context and looks at it, so it may run for ever.
  \<^item> \<open>Manifest_Emit\<close>, \<open>Strict_Manifest\<close>, \<open>Manifest_Properties\<close>, \<open>Publishing\<close>:
    \<open>manifest.go\<close> and \<open>strictmanifest.go\<close>. Shown: emitted bytes are read back as the document they were made
    from, and exactly which specs give a manifest that passes the strict validation.
  \<^item> \<open>Adapter_Serve\<close>, \<open>Serve_Properties\<close>: \<open>serve.go\<close>, \<open>handshake.go\<close> and the entry
    points of \<open>spec.go\<close>. The locale \<open>lifecycle_verb\<close> is the contract between the description of a spec and the routing of one of
    the five optional verbs. The log stream is a machine of the implementation's goroutine, the heartbeat, the handler and the context;
    \<open>Log_Termination\<close> shows what ends a log call: the return of the implementation and the end of the stream, of which the second brings about
    the first if the implementation heeds its context. \<open>Locked_Send\<close> is the mutex of the stream wrappers: concurrent
    sends, each a read and a write of the stream, amount to the atomic \<open>send_msg\<close> that the other theories use. \<open>Log_Locked\<close> puts
    the two together: the log stream with every send cut at the lock simulates the one with atomic sends.
  \<^item> \<open>Serve_Remote\<close>: \<open>serve_remote.go\<close>, with the redial loop over the attempts, durations as 64-bit words, and the listener as a machine. The loop
    is run over the attempts that have ended; one more attempt is one more turn.
  \<^item> \<open>Conformance\<close>, \<open>Loopback\<close>: \<open>conformance.go\<close>, and the case run against the spec tier: concurrent calls whose frames share one connection,
    with handlers that may share state and answer anything. \<open>Conformance_Fan_Out\<close> is its concurrent part: the
    goroutines, the wait group and the slice they fill give, in every interleaving, the list of outcomes the report reads. \<open>Greeter\<close>: the example adapter, from its spec to its
    manifest and its step.

  \<^bold>\<open>Conventions.\<close> A fallible function returns \<open>go_error + 'a\<close>, and an error keeps the format and the arguments it
  was built from. A loop over a map takes the order in which the keys are visited and theorems hold for every order. A panic is an explicit
  outcome: \<^const>\<open>None\<close> for a call of an unset handler, a flag of the bridge for a double close. Functions of other modules (the proto module,
  grpc, the plugin framework, the file system, crypto) are parameters: their assumptions, where a theorem needs one, are named
  (\<open>struct_faithful\<close>, \<open>chunker_ok\<close>) and each has a concrete instance in a witness. Every recursion is over its input, so no fuel is used;
  loops that wait for the outside world run over the list of what it does, and having used it up is the status of waiting.
  A theorem that something terminates ranges over infinite executions with what it takes of the runtime as its hypothesis
  (\<open>runtime_fair\<close>, \<open>scheduled\<close>): a goroutine that stays able to move is scheduled some time; for tool calls also that time goes on and a
  context whose deadline has passed is done some time. Nothing is assumed of the host, and of an author's code only what a theorem names.

  \<^bold>\<open>Not modelled.\<close> Timestamps of events (the clock); the rendering of \<open>%q\<close> (a parameter of \<open>error_text\<close>); the
  grpc server and the plugin framework behind \<open>hplugin.Serve\<close> and \<open>server.Serve\<close>; the network and its failures;
  the interval of heartbeats, which belongs to the proto module: a heartbeat may come at any time; \<open>doc.go\<close>, which has no code.
\<close>

section \<open>From a declared secret to a child process\<close>

text \<open>C29: the whole way of a secret. The names that may be handed to a child process are exactly those
  the spec declares: for a view made from the derived description, the secrets delivered with the session and those of the step, asking for
  declared names gives, in the order of the request, the value of the step or else of the session for every name that has one; asking for any
  undeclared name gives an error and no environment at all.\<close>

theorem declared_secrets_reach_children:
  assumes "deriveInfo RF spec = Ok info"
    and "range_order dks (nmap (in_Secrets info))" "range_order rks resolved"
    and "session = NewSecrets dks rks (nmap (in_Secrets info)) resolved"
    and "range_order vks (secret_values session)" "range_order sks step"
  shows "if set names \<subseteq> sec_Name ` set (sp_Secrets spec)
    then SpawnEnv (Some (WithStepSecrets vks sks (Some session) step)) names =
      Ok (List.map_filter (\<lambda>n. map_option (\<lambda>v. n @ ''='' @ v) (case step n of Some v \<Rightarrow> Some v | None \<Rightarrow> resolved n)) names)
    else \<exists>e. SpawnEnv (Some (WithStepSecrets vks sks (Some session) step)) names = Err e"
proof -
  note ok = validate_NoneD [OF deriveInfo_Ok(1) [OF assms(1)]]
  have dom: "dom (nmap (in_Secrets info)) = sec_Name ` set (sp_Secrets spec)"
    unfolding deriveInfo_Ok(6) [OF assms(1)] by (rule secrets_of_spec(1) [OF ok(7)])
  have session: "declared session = sec_Name ` set (sp_Secrets spec)" "secret_values session = resolved"
    using assms(2,3) by (simp_all add: assms(4) dom)
  have view: "WithStepSecrets vks sks (Some session) step =
      \<lparr>declared = sec_Name ` set (sp_Secrets spec), secret_values = resolved ++ step\<rparr>"
    using assms(5,6) by (simp add: WithStepSecrets_def session)
  show ?thesis unfolding view SpawnEnv_result by (simp add: env_of_def map_add_def)
qed

theorem declared_secrets_reach_children_witness:
  "\<exists>info. deriveInfo sample_files sample_spec = Ok info \<and>
     SpawnEnv (Some (WithStepSecrets [''TOKEN''] [''TOKEN'']
       (Some (NewSecrets [''TOKEN''] [''TOKEN''] (nmap (in_Secrets info)) [''TOKEN'' \<mapsto> ''old''])) [''TOKEN'' \<mapsto> ''new''])) [''TOKEN''] =
     Ok [''TOKEN=new'']"
proof -
  obtain info where info: "deriveInfo sample_files sample_spec = Ok info" using sample_info by blast
  have d: "range_order [''TOKEN''] (nmap (in_Secrets info))" using sample_orders [OF info] by (simp add: info_orders_def)
  have r: "range_order [''TOKEN''] [''TOKEN'' \<mapsto> v]" for v :: string by (simp add: range_order_def)
  have v: "range_order [''TOKEN''] (secret_values (NewSecrets [''TOKEN''] [''TOKEN''] (nmap (in_Secrets info)) [''TOKEN'' \<mapsto> ''old'']))"
    using r by simp
  have "set [''TOKEN''] \<subseteq> sec_Name ` set (sp_Secrets sample_spec)" by (simp add: sample_spec_def)
  with declared_secrets_reach_children [OF info d r refl v r, of "[''TOKEN'']"] info show ?thesis
    by (auto simp: List.map_filter_def)
qed

end
